(* ===== verification/Fp_Prelude.thy ===== *)
theory Fp_Prelude
  imports Main "HOL-Library.Word"
begin

text \<open>
  Shared vocabulary of the FPsPIN development: the fixed-width integer types of the C sources,
  the kernel error codes, the little-endian view of byte memory that both the host (x86-64) and
  the NIC cores (RV32) have, and the word lemmas that move a goal from machine words to natural
  numbers. The collection \<open>unat_simps\<close> holds those conversions; component proofs use it with
  \<open>simp add: unat_simps\<close>.
\<close>

unbundle bit_operations_syntax

named_theorems unat_simps \<open>rules that turn word expressions into natural number expressions\<close>

type_synonym u8 = "8 word"
type_synonym u16 = "16 word"
type_synonym u32 = "32 word"
type_synonym u64 = "64 word"
type_synonym s32 = "32 word"

section \<open>Error codes\<close>

datatype errno = EPERM | EINTR | EIO | EAGAIN | ENOMEM | EFAULT | ENODEV | EINVAL | ENOTTY
  | ERESTARTSYS | EOTHER int

section \<open>Words and natural numbers\<close>

lemma unat_and_mask [unat_simps]: "unat (w AND mask k) = unat w mod 2 ^ k"
  for w :: "'a::len word"
proof -
  have "unat (take_bit k w) = take_bit k (unat w)"
    by (rule unsigned_take_bit_eq)
  then show ?thesis
    by (simp add: take_bit_eq_mask [symmetric]) (simp add: take_bit_eq_mod)
qed

lemma unat_ucast_up:
  assumes "LENGTH('a::len) \<le> LENGTH('b::len)"
  shows "unat (ucast (w :: 'a word) :: 'b word) = unat w"
proof -
  have "unat w < 2 ^ LENGTH('a)" by (rule unsigned_less)
  also have "(2 :: nat) ^ LENGTH('a) \<le> 2 ^ LENGTH('b)" using assms by simp
  finally show ?thesis by (simp add: unsigned_ucast_eq take_bit_nat_eq_self)
qed

lemma unat_ucast_8_16 [simp, unat_simps]: "unat (ucast (b :: u8) :: u16) = unat b"
  by (rule unat_ucast_up) simp

lemma unat_ucast_16_32 [simp, unat_simps]: "unat (ucast (b :: u16) :: u32) = unat b"
  by (rule unat_ucast_up) simp

lemma unat_ucast_8_32 [simp, unat_simps]: "unat (ucast (b :: u8) :: u32) = unat b"
  by (rule unat_ucast_up) simp

lemma unat_ucast_32_16 [unat_simps]: "unat (ucast (w :: u32) :: u16) = unat w mod 65536"
  by (simp add: unsigned_ucast_eq take_bit_eq_mod)

lemma unat_u8_less [simp]: "unat (b :: u8) < 256"
  using unsigned_less [of b, where ?'a = nat] by simp

lemma unat_u16_less [simp]: "unat (w :: u16) < 65536"
  using unsigned_less [of w, where ?'a = nat] by simp

lemma unat_u32_less [simp]: "unat (w :: u32) < 4294967296"
  using unsigned_less [of w, where ?'a = nat] by simp

text \<open>Addition without overflow reads as addition.\<close>

lemma unat_add_u16 [unat_simps]:
  "unat a + unat b < 65536 \<Longrightarrow> unat (a + b :: u16) = unat a + unat b"
  by (simp add: unat_word_ariths)

lemma unat_add_u32 [unat_simps]:
  "unat a + unat b < 4294967296 \<Longrightarrow> unat (a + b :: u32) = unat a + unat b"
  by (simp add: unat_word_ariths)

lemma unat_sub_le: "b \<le> a \<Longrightarrow> unat (a - b :: 'a::len word) = unat a - unat b"
  by (simp add: unat_sub)

section \<open>Little-endian memory\<close>

definition le16 :: "u8 \<Rightarrow> u8 \<Rightarrow> u16" where
  "le16 lo hi = ucast lo OR push_bit 8 (ucast hi)"

lemma unat_le16 [unat_simps]: "unat (le16 lo hi) = unat lo + 256 * unat hi"
proof -
  have "(ucast lo :: u16) AND push_bit 8 (ucast hi) = 0"
    by (rule bit_word_eqI) (auto simp: bit_simps dest: bit_imp_le_length)
  then have eq: "le16 lo hi = ucast lo + push_bit 8 (ucast hi)"
    by (simp add: le16_def disjunctive_add_eq_or)
  have hi: "unat (push_bit 8 (ucast hi :: u16)) = 256 * unat hi"
    using unat_u8_less [of hi]
    by (simp add: push_bit_eq_mult unat_word_ariths mult.commute)
  have "unat lo + 256 * unat hi < 65536"
    using unat_u8_less [of lo] unat_u8_less [of hi] by linarith
  then show ?thesis
    by (simp add: eq unat_word_ariths hi)
qed

definition le32 :: "u8 \<Rightarrow> u8 \<Rightarrow> u8 \<Rightarrow> u8 \<Rightarrow> u32" where
  "le32 b0 b1 b2 b3 = ucast b0 OR push_bit 8 (ucast b1) OR push_bit 16 (ucast b2)
     OR push_bit 24 (ucast b3)"

text \<open>The bytes a packed little-endian structure occupies in memory.\<close>

definition bytes16 :: "u16 \<Rightarrow> u8 list" where
  "bytes16 v = [ucast v, ucast (drop_bit 8 v)]"

definition bytes32 :: "u32 \<Rightarrow> u8 list" where
  "bytes32 v = [ucast v, ucast (drop_bit 8 v), ucast (drop_bit 16 v), ucast (drop_bit 24 v)]"

lemma length_bytes16 [simp]: "length (bytes16 v) = 2"
  by (simp add: bytes16_def)

lemma length_bytes32 [simp]: "length (bytes32 v) = 4"
  by (simp add: bytes32_def)

lemma not_bit_u8 [simp]: "8 \<le> n \<Longrightarrow> \<not> bit (b :: u8) n"
  by (auto dest: bit_imp_le_length)

lemma bytes32_le32 [simp]: "bytes32 (le32 a b c d) = [a, b, c, d]"
  by (auto simp: bytes32_def le32_def bit_simps intro!: bit_word_eqI)

lemma le32_bytes32:
  assumes "bytes32 v = [a, b, c, d]"
  shows "le32 a b c d = v"
proof (rule bit_word_eqI)
  fix n assume "n < LENGTH(32)"
  with assms show "bit (le32 a b c d) n \<longleftrightarrow> bit v n"
    by (cases "24 \<le> n"; cases "16 \<le> n") (auto simp: bytes32_def le32_def bit_simps)
qed

lemma bytes32_inject: "bytes32 v = bytes32 w \<Longrightarrow> v = w"
proof -
  assume eq: "bytes32 v = bytes32 w"
  obtain a b c d where "bytes32 w = [a, b, c, d]" by (simp add: bytes32_def)
  with eq le32_bytes32 [of v a b c d] le32_bytes32 [of w a b c d] show "v = w" by simp
qed

section \<open>Byte memories behind a word port\<close>

text \<open>Stores of a byte sequence into, and loads from, a byte-addressed memory.\<close>

fun put_bytes :: "(nat \<Rightarrow> u8) \<Rightarrow> nat \<Rightarrow> u8 list \<Rightarrow> nat \<Rightarrow> u8" where
  "put_bytes m a [] = m"
| "put_bytes m a (b # bs) = put_bytes (m(a := b)) (Suc a) bs"

definition get_bytes :: "(nat \<Rightarrow> u8) \<Rightarrow> nat \<Rightarrow> nat \<Rightarrow> u8 list" where
  "get_bytes m a n = map m [a..<a + n]"

lemma put_bytes_apply:
  "put_bytes m a bs x = (if a \<le> x \<and> x < a + length bs then bs ! (x - a) else m x)"
proof (induction bs arbitrary: m a)
  case (Cons b bs)
  have "(b # bs) ! (x - a) = bs ! (x - Suc a)" if "Suc a \<le> x"
    using that by (metis Suc_diff_Suc Suc_le_eq nth_Cons_Suc)
  then show ?case by (auto simp: Cons.IH)
qed auto

lemma length_get_bytes [simp]: "length (get_bytes m a n) = n"
  by (simp add: get_bytes_def)

lemma get_put_bytes: "get_bytes (put_bytes m a bs) a (length bs) = bs"
  by (rule nth_equalityI) (auto simp: get_bytes_def put_bytes_apply)

lemma put_bytes_append: "put_bytes m a (bs @ cs) = put_bytes (put_bytes m a bs) (a + length bs) cs"
  by (induction bs arbitrary: m a) simp_all

lemma get_bytes_append: "get_bytes m a (n + k) = get_bytes m a n @ get_bytes m (a + n) k"
proof -
  have "[a..<a + (n + k)] = [a..<a + n] @ [a + n..<a + n + k]"
    using upt_add_eq_append [of a "a + n" k] by (simp add: add.assoc)
  then show ?thesis by (simp add: get_bytes_def)
qed

lemma get_bytes_cong: "(\<And>x. a \<le> x \<Longrightarrow> x < a + n \<Longrightarrow> m x = m' x) \<Longrightarrow> get_bytes m a n = get_bytes m' a n"
  by (simp add: get_bytes_def)

text \<open>
  Block transfers, four bytes at a time, through a port that moves 32-bit words: the loops
  \<open>for (i = 0; i < count; i += 4)\<close> of the driver. A tail shorter than a word is not moved.
\<close>

fun write_words :: "(u32 \<Rightarrow> nat \<Rightarrow> 's \<Rightarrow> 's) \<Rightarrow> u8 list \<Rightarrow> nat \<Rightarrow> 's \<Rightarrow> 's" where
  "write_words wr (b0 # b1 # b2 # b3 # bs) p s = write_words wr bs (p + 4) (wr (le32 b0 b1 b2 b3) p s)"
| "write_words wr bs p s = s"

fun read_words :: "('s \<Rightarrow> nat \<Rightarrow> u32) \<Rightarrow> nat \<Rightarrow> nat \<Rightarrow> 's \<Rightarrow> u8 list" where
  "read_words rd 0 p s = []"
| "read_words rd (Suc k) p s = bytes32 (rd s p) @ read_words rd k (p + 4) s"

locale word_port =
  fixes view :: "'s \<Rightarrow> nat \<Rightarrow> u8"
    and rd :: "'s \<Rightarrow> nat \<Rightarrow> u32"
    and wr :: "u32 \<Rightarrow> nat \<Rightarrow> 's \<Rightarrow> 's"
  assumes rd_view: "bytes32 (rd s p) = get_bytes (view s) p 4"
    and wr_view: "view (wr v p s) = put_bytes (view s) p (bytes32 v)"
begin

lemma write_words_view:
  "4 dvd length bs \<Longrightarrow> view (write_words wr bs p s) = put_bytes (view s) p bs"
proof (induction bs arbitrary: p s rule: length_induct)
  case (1 bs)
  show ?case
  proof (cases "bs = []")
    case False
    with "1.prems" have "4 \<le> length bs" by (auto dest: dvd_imp_le)
    then obtain b0 b1 b2 b3 cs where bs: "bs = b0 # b1 # b2 # b3 # cs"
      by (auto simp: Suc_le_length_iff numeral_eq_Suc)
    with "1.prems" have "4 dvd Suc (Suc (Suc (Suc (length cs))))" by simp
    then have "4 dvd length cs" by presburger
    with "1.IH" bs have IH: "view (write_words wr cs q t) = put_bytes (view t) q cs" for q t by simp
    have "p + 4 = p + length [b0, b1, b2, b3]" by simp
    then have "view (write_words wr bs p s)
        = put_bytes (put_bytes (view s) p [b0, b1, b2, b3]) (p + length [b0, b1, b2, b3]) cs"
      by (simp only: bs write_words.simps IH wr_view bytes32_le32)
    also have "\<dots> = put_bytes (view s) p bs" by (simp only: put_bytes_append [symmetric] bs append.simps)
    finally show ?thesis .
  qed simp
qed

lemma read_words_view: "read_words rd k p s = get_bytes (view s) p (4 * k)"
  by (induction k arbitrary: p) (simp_all add: rd_view get_bytes_append, simp add: get_bytes_def)

lemma write_read_words:
  assumes "4 dvd length bs"
  shows "read_words rd (length bs div 4) p (write_words wr bs p s) = bs"
  using assms get_put_bytes [of "view s" p bs] by (simp add: read_words_view write_words_view)

end

section \<open>Labelled transition systems\<close>

text \<open>
  A component that reacts to events is a function from an event and a state to the next state,
  \<open>None\<close> when the event cannot happen there. \<open>reach exec allowed s t\<close> says that the state t is
  reached from s by events that \<open>allowed\<close> admits. A component states its invariants by
  interpreting \<open>invariant_system\<close>; the locale gives that they hold in every reachable state.
\<close>

inductive reach :: "('l \<Rightarrow> 's \<Rightarrow> 's option) \<Rightarrow> ('s \<Rightarrow> 'l \<Rightarrow> bool) \<Rightarrow> 's \<Rightarrow> 's \<Rightarrow> bool"
  for exec allowed s where
  reach_init: "reach exec allowed s s"
| reach_step: "reach exec allowed s t \<Longrightarrow> allowed t l \<Longrightarrow> exec l t = Some u \<Longrightarrow> reach exec allowed s u"

locale invariant_system =
  fixes exec :: "'l \<Rightarrow> 's \<Rightarrow> 's option"
    and allowed :: "'s \<Rightarrow> 'l \<Rightarrow> bool"
    and inv :: "'s \<Rightarrow> bool"
  assumes preserved: "inv s \<Longrightarrow> allowed s l \<Longrightarrow> exec l s = Some t \<Longrightarrow> inv t"
begin

lemma reach_inv:
  assumes "reach exec allowed s t" "inv s"
  shows "inv t"
  using assms by (induction rule: reach.induct) (auto intro: preserved)

end

text \<open>Runs of a list of events; the witnesses use them to build reachable states.\<close>

fun run :: "('l \<Rightarrow> 's \<Rightarrow> 's option) \<Rightarrow> ('s \<Rightarrow> 'l \<Rightarrow> bool) \<Rightarrow> 'l list \<Rightarrow> 's \<Rightarrow> 's option" where
  "run exec allowed [] s = Some s"
| "run exec allowed (l # ls) s =
     (if allowed s l then Option.bind (exec l s) (run exec allowed ls) else None)"

lemma reach_trans:
  assumes "reach exec allowed t u" "reach exec allowed s t"
  shows "reach exec allowed s u"
  using assms by (induction rule: reach.induct) (auto intro: reach_step)

lemma run_reach: "run exec allowed ls s = Some t \<Longrightarrow> reach exec allowed s t"
proof (induction ls arbitrary: s)
  case (Cons l ls)
  then obtain u where "allowed s l" "exec l s = Some u" "run exec allowed ls u = Some t"
    by (auto split: if_splits simp: bind_eq_Some_conv)
  then show ?case
    using Cons.IH reach_trans reach_step [OF reach_init [of exec allowed s]] by metis
qed (simp add: reach_init)

lemma run_reach_the:
  "\<not> Option.is_none (run exec allowed ls s) \<Longrightarrow> reach exec allowed s (the (run exec allowed ls s))"
  by (rule run_reach [of _ _ ls]) (cases "run exec allowed ls s"; simp)

text \<open>
  Refinement of a component by a simulation: every step from a state that satisfies the invariant
  is, under the abstraction, either a step of the abstract component, with the label \<open>vis\<close> gives,
  or invisible. The labels of a run then form a run of the abstract component.
\<close>

fun trace :: "('l \<Rightarrow> 's \<Rightarrow> 's option) \<Rightarrow> ('l \<Rightarrow> 's \<Rightarrow> 'e option) \<Rightarrow> 'l list \<Rightarrow> 's \<Rightarrow> 'e list" where
  "trace exec vis [] s = []"
| "trace exec vis (l # ls) s =
     (case vis l s of None \<Rightarrow> [] | Some e \<Rightarrow> [e]) @ (case exec l s of None \<Rightarrow> [] | Some t \<Rightarrow> trace exec vis ls t)"

locale simulation = invariant_system exec allowed inv
  for exec :: "'l \<Rightarrow> 's \<Rightarrow> 's option" and allowed :: "'s \<Rightarrow> 'l \<Rightarrow> bool" and inv :: "'s \<Rightarrow> bool" +
  fixes aexec :: "'e \<Rightarrow> 'a \<Rightarrow> 'a option"
    and abst :: "'s \<Rightarrow> 'a"
    and vis :: "'l \<Rightarrow> 's \<Rightarrow> 'e option"
  assumes hidden: "inv s \<Longrightarrow> allowed s l \<Longrightarrow> exec l s = Some t \<Longrightarrow> vis l s = None \<Longrightarrow> abst t = abst s"
    and visible: "inv s \<Longrightarrow> allowed s l \<Longrightarrow> exec l s = Some t \<Longrightarrow> vis l s = Some e \<Longrightarrow> aexec e (abst s) = Some (abst t)"
begin

lemma trace_refines:
  assumes "run exec allowed ls s = Some t" "inv s"
  shows "run aexec (\<lambda>_ _. True) (trace exec vis ls s) (abst s) = Some (abst t)"
  using assms
proof (induction ls arbitrary: s)
  case (Cons l ls)
  then obtain u where u: "allowed s l" "exec l s = Some u" "run exec allowed ls u = Some t"
    by (auto split: if_splits simp: bind_eq_Some_conv)
  from Cons.IH [OF u(3) preserved [OF Cons.prems(2) u(1,2)]] hidden [OF Cons.prems(2) u(1,2)]
    visible [OF Cons.prems(2) u(1,2)]
  show ?case by (cases "vis l s") (simp_all add: u(2))
qed simp

end

end
