(* ===== verification/Pspin_Regs.thy ===== *)
theory Pspin_Regs
  imports Fp_Prelude
begin

text \<open>
  The register side of the FPsPIN kernel module (\<open>modules/mqnic_app_pspin\<close>): the table of
  register groups that \<open>init_pspin_sysfs\<close> of \<open>regs-gen.h\<close> publishes in sysfs, the device state
  \<open>struct mqnic_app_pspin\<close>, the five check functions of \<open>main.c\<close> that guard register writes, and
  the sysfs \<open>store\<close> and \<open>show\<close> callbacks. Registers are a map from the offset of a register in
  the control block to its value.
\<close>

unbundle bit_operations_syntax

section \<open>The register table\<close>

datatype check_id = check_cl_ctrl_id | check_me_en_id | check_her_en_id
  | check_me_in_conf_id | check_her_in_conf_id

text \<open>
  One attribute group of \<open>init_pspin_sysfs\<close>: its directory, name, number of registers, offset,
  whether it has a \<open>store\<close> callback (mode 0644) and its check function.
\<close>

record reg_group =
  rg_dir :: string
  rg_name :: string
  rg_count :: nat
  rg_offset :: u32
  rg_store :: bool
  rg_check :: "check_id option"

definition UMATCH_ENTRIES :: nat where "UMATCH_ENTRIES = 4"
definition UMATCH_RULESETS :: nat where "UMATCH_RULESETS = 4"
definition HER_NUM_HANDLER_CTX :: nat where "HER_NUM_HANDLER_CTX = 4"

abbreviation rw_group :: "string \<Rightarrow> string \<Rightarrow> nat \<Rightarrow> u32 \<Rightarrow> check_id \<Rightarrow> reg_group" where
  "rw_group d n k off c \<equiv> \<lparr>rg_dir = d, rg_name = n, rg_count = k, rg_offset = off,
     rg_store = True, rg_check = Some c\<rparr>"

abbreviation ro_group :: "string \<Rightarrow> string \<Rightarrow> nat \<Rightarrow> u32 \<Rightarrow> reg_group" where
  "ro_group d n k off \<equiv> \<lparr>rg_dir = d, rg_name = n, rg_count = k, rg_offset = off,
     rg_store = False, rg_check = None\<rparr>"

definition groups_cl :: "reg_group list" where
  "groups_cl =
    [rw_group ''cl'' ''ctrl'' 2 0x0 check_cl_ctrl_id,
     ro_group ''cl'' ''fifo'' 1 0x8]"

definition groups_stats :: "reg_group list" where
  "groups_stats =
    [ro_group ''stats'' ''cluster'' 2 0x1000,
     ro_group ''stats'' ''mpq'' 1 0x1008,
     ro_group ''stats'' ''datapath'' 2 0x100c]"

definition groups_me :: "reg_group list" where
  "groups_me =
    [rw_group ''me'' ''valid'' 1 0x2000 check_me_en_id,
     rw_group ''me'' ''mode'' 4 0x2004 check_me_in_conf_id,
     rw_group ''me'' ''idx'' 16 0x2014 check_me_in_conf_id,
     rw_group ''me'' ''mask'' 16 0x2054 check_me_in_conf_id,
     rw_group ''me'' ''start'' 16 0x2094 check_me_in_conf_id,
     rw_group ''me'' ''end'' 16 0x20d4 check_me_in_conf_id]"

definition groups_her :: "reg_group list" where
  "groups_her =
    [rw_group ''her'' ''valid'' 1 0x3000 check_her_en_id,
     rw_group ''her'' ''ctx_enabled'' 4 0x3004 check_her_in_conf_id]"

definition groups_her_meta_mem :: "reg_group list" where
  "groups_her_meta_mem =
    [rw_group ''her_meta'' ''handler_mem_addr'' 4 0x4000 check_her_in_conf_id,
     rw_group ''her_meta'' ''handler_mem_size'' 4 0x4010 check_her_in_conf_id,
     rw_group ''her_meta'' ''host_mem_addr_0'' 4 0x4020 check_her_in_conf_id,
     rw_group ''her_meta'' ''host_mem_addr_1'' 4 0x4030 check_her_in_conf_id,
     rw_group ''her_meta'' ''host_mem_size'' 4 0x4040 check_her_in_conf_id]"

definition groups_her_meta_handlers :: "reg_group list" where
  "groups_her_meta_handlers =
    [rw_group ''her_meta'' ''hh_addr'' 4 0x4050 check_her_in_conf_id,
     rw_group ''her_meta'' ''hh_size'' 4 0x4060 check_her_in_conf_id,
     rw_group ''her_meta'' ''ph_addr'' 4 0x4070 check_her_in_conf_id,
     rw_group ''her_meta'' ''ph_size'' 4 0x4080 check_her_in_conf_id,
     rw_group ''her_meta'' ''th_addr'' 4 0x4090 check_her_in_conf_id,
     rw_group ''her_meta'' ''th_size'' 4 0x40a0 check_her_in_conf_id]"

definition groups_her_meta_scratchpad_01 :: "reg_group list" where
  "groups_her_meta_scratchpad_01 =
    [rw_group ''her_meta'' ''scratchpad_0_addr'' 4 0x40b0 check_her_in_conf_id,
     rw_group ''her_meta'' ''scratchpad_0_size'' 4 0x40c0 check_her_in_conf_id,
     rw_group ''her_meta'' ''scratchpad_1_addr'' 4 0x40d0 check_her_in_conf_id,
     rw_group ''her_meta'' ''scratchpad_1_size'' 4 0x40e0 check_her_in_conf_id]"

definition groups_her_meta_scratchpad_23 :: "reg_group list" where
  "groups_her_meta_scratchpad_23 =
    [rw_group ''her_meta'' ''scratchpad_2_addr'' 4 0x40f0 check_her_in_conf_id,
     rw_group ''her_meta'' ''scratchpad_2_size'' 4 0x4100 check_her_in_conf_id,
     rw_group ''her_meta'' ''scratchpad_3_addr'' 4 0x4110 check_her_in_conf_id,
     rw_group ''her_meta'' ''scratchpad_3_size'' 4 0x4120 check_her_in_conf_id]"

definition reg_groups :: "reg_group list" where
  "reg_groups = groups_cl @ groups_stats @ groups_me @ groups_her @ groups_her_meta_mem
     @ groups_her_meta_handlers @ groups_her_meta_scratchpad_01 @ groups_her_meta_scratchpad_23"

lemmas reg_groups_defs = reg_groups_def groups_cl_def groups_stats_def groups_me_def
  groups_her_def groups_her_meta_mem_def groups_her_meta_handlers_def
  groups_her_meta_scratchpad_01_def groups_her_meta_scratchpad_23_def

text \<open>One register: \<open>struct pspin_attribute\<close>, named by its index in the group.\<close>

record pspin_attribute =
  pa_idx :: u32
  pa_offset :: u32
  pa_group :: string
  pa_store :: bool
  pa_check :: "check_id option"

definition group_attrs :: "reg_group \<Rightarrow> pspin_attribute list" where
  "group_attrs g = map (\<lambda>i. \<lparr>pa_idx = of_nat i, pa_offset = rg_offset g, pa_group = rg_name g,
     pa_store = rg_store g, pa_check = rg_check g\<rparr>) [0..<rg_count g]"

definition ATTR_REG_ADDR :: "pspin_attribute \<Rightarrow> u32" where
  "ATTR_REG_ADDR a = pa_offset a + pa_idx a * 4"

text \<open>
  The creation of the groups by \<open>init_pspin_sysfs\<close>. \<open>create g\<close> is the result of
  \<open>sysfs_create_group\<close> for the group, \<open>add_action\<close> that of \<open>devm_add_action_or_reset\<close>; zero is
  success. The first failure is returned, with the groups that exist then; only when every group
  exists is the removal action registered, and its failure runs it at once.
\<close>

fun create_groups :: "(reg_group \<Rightarrow> int) \<Rightarrow> reg_group list \<Rightarrow> reg_group list \<Rightarrow> int \<times> reg_group list"
where
  "create_groups create [] made = (0, made)"
| "create_groups create (g # gs) made =
     (let ret = create g in if ret \<noteq> 0 then (ret, made) else create_groups create gs (made @ [g]))"

fun remove_pspin_sysfs :: "reg_group list \<Rightarrow> reg_group list \<Rightarrow> reg_group list" where
  "remove_pspin_sysfs [] made = made"
| "remove_pspin_sysfs (g # gs) made = remove_pspin_sysfs gs (removeAll g made)"

definition init_pspin_sysfs :: "(reg_group \<Rightarrow> int) \<Rightarrow> int \<Rightarrow> int \<times> reg_group list" where
  "init_pspin_sysfs create add_action =
     (let (ret, made) = create_groups create reg_groups []
      in if ret \<noteq> 0 then (ret, made)
         else if add_action \<noteq> 0 then (add_action, remove_pspin_sysfs reg_groups made)
         else (0, made))"

definition all_attrs :: "pspin_attribute list" where
  "all_attrs = concat (map group_attrs reg_groups)"

text \<open>The path of a register below the device directory, as \<open>write_reg\<close> opens it.\<close>

definition reg_path :: "reg_group \<Rightarrow> string" where
  "reg_path g = rg_dir g @ ''/'' @ rg_name g"

definition find_attr :: "string \<Rightarrow> nat \<Rightarrow> pspin_attribute option" where
  "find_attr name i =
     (case find (\<lambda>g. reg_path g = name) reg_groups of
        None \<Rightarrow> None
      | Some g \<Rightarrow> if i < rg_count g then Some (group_attrs g ! i) else None)"

section \<open>Device state\<close>

text \<open>\<open>struct ctx_dma_area\<close> and the \<open>struct dma_area_int\<close> around it.\<close>

record dma_area =
  cpu_addr :: u64
  dma_handle :: u64
  dma_size :: u64
  enabled :: bool
  ref_count :: s32

text \<open>
  \<open>struct mqnic_app_pspin\<close>, with the device behind \<open>app_hw_addr\<close>. The BAR is one range of addresses:
  the first 0x800000 bytes are the window on PsPIN memory and the control registers follow from
  offset 0x800000 on. The two are separate fields here, \<open>regs\<close> by register offset and \<open>pmem\<close> by byte
  offset from \<open>app_hw_addr\<close>; an access to \<open>pmem\<close> at 0x800000 or above would be one to a register, and
  the theorems on the memory device show that there is none. The window has holes: PsPIN memory
  is there only at the offsets that \<open>nic_mem\<close> of the next theory names, and what \<open>pmem\<close> holds at the
  others has no meaning.
\<close>

record app =
  in_reset :: bool
  in_her_conf :: bool
  in_me_conf :: bool
  dma_areas :: "dma_area list"
  regs :: "u32 \<Rightarrow> u32"
  pmem :: "nat \<Rightarrow> u8"

definition reg_read :: "app \<Rightarrow> u32 \<Rightarrow> u32" where
  "reg_read a off = regs a off"

definition reg_write :: "u32 \<Rightarrow> u32 \<Rightarrow> app \<Rightarrow> app" where
  "reg_write v off a = a\<lparr>regs := (regs a)(off := v)\<rparr>"

section \<open>Check functions\<close>

definition PSPIN_NUM_CLUSTERS :: nat where "PSPIN_NUM_CLUSTERS = 2"

fun bit_length :: "nat \<Rightarrow> nat" where
  "bit_length n = (if n = 0 then 0 else Suc (bit_length (n div 2)))"

declare bit_length.simps [simp del]

definition builtin_clz :: "u32 \<Rightarrow> nat" where
  "builtin_clz w = 32 - bit_length (unat w)"

definition check_cl_ctrl :: "u32 \<Rightarrow> u32 \<Rightarrow> app \<Rightarrow> bool \<times> app" where
  "check_cl_ctrl idx reg a =
     (let clusters = (if reg \<noteq> 0 then 32 - builtin_clz reg else 0)
      in if idx \<noteq> 0 \<and> reg > 1 then (False, a)
         else if clusters > PSPIN_NUM_CLUSTERS then (False, a)
         else (True, if idx \<noteq> 0 then a\<lparr>in_reset := reg \<noteq> 0\<rparr> else a))"

definition check_me_en :: "u32 \<Rightarrow> u32 \<Rightarrow> app \<Rightarrow> bool \<times> app" where
  "check_me_en idx reg a =
     (True, if reg = 0 then a\<lparr>in_me_conf := True\<rparr> else a\<lparr>in_me_conf := False\<rparr>)"

text \<open>\<open>REG_ADDR(app, her_meta_host_mem_addr_0, i)\<close> and its two companions.\<close>

definition host_mem_addr_0 :: "nat \<Rightarrow> u32" where "host_mem_addr_0 i = 0x4020 + of_nat i * 4"
definition host_mem_addr_1 :: "nat \<Rightarrow> u32" where "host_mem_addr_1 i = 0x4030 + of_nat i * 4"
definition host_mem_size :: "nat \<Rightarrow> u32" where "host_mem_size i = 0x4040 + of_nat i * 4"

definition hostdma_addr :: "app \<Rightarrow> nat \<Rightarrow> u64" where
  "hostdma_addr a i = ucast (reg_read a (host_mem_addr_0 i))
     + push_bit 32 (ucast (reg_read a (host_mem_addr_1 i)))"

definition hostdma_size :: "app \<Rightarrow> nat \<Rightarrow> u64" where
  "hostdma_size a i = ucast (reg_read a (host_mem_size i))"

definition hostdma_ok :: "app \<Rightarrow> nat \<Rightarrow> bool" where
  "hostdma_ok a i =
     (let area = dma_areas a ! i
      in \<not> (enabled area
             \<and> (hostdma_addr a i \<noteq> dma_handle area \<or> hostdma_size a i \<noteq> dma_size area)))"

definition check_her_en :: "u32 \<Rightarrow> u32 \<Rightarrow> app \<Rightarrow> bool \<times> app" where
  "check_her_en idx reg a =
     (if reg = 0 then (True, a\<lparr>in_her_conf := True\<rparr>)
      else if list_all (hostdma_ok a) [0..<HER_NUM_HANDLER_CTX]
           then (True, a\<lparr>in_her_conf := False\<rparr>)
           else (False, a))"

definition check_me_in_conf :: "u32 \<Rightarrow> u32 \<Rightarrow> app \<Rightarrow> bool \<times> app" where
  "check_me_in_conf idx reg a = (in_me_conf a, a)"

definition check_her_in_conf :: "u32 \<Rightarrow> u32 \<Rightarrow> app \<Rightarrow> bool \<times> app" where
  "check_her_in_conf idx reg a = (in_her_conf a, a)"

fun check_func :: "check_id \<Rightarrow> u32 \<Rightarrow> u32 \<Rightarrow> app \<Rightarrow> bool \<times> app" where
  "check_func check_cl_ctrl_id = check_cl_ctrl"
| "check_func check_me_en_id = check_me_en"
| "check_func check_her_en_id = check_her_en"
| "check_func check_me_in_conf_id = check_me_in_conf"
| "check_func check_her_in_conf_id = check_her_in_conf"

section \<open>The sysfs callbacks\<close>

text \<open>
  \<open>sscanf(buf, "%u")\<close> of the kernel: leading white space is skipped, then decimal digits are
  read; with no digit the variable keeps its initial value. The value is stored in 32 bits.
\<close>

definition is_space :: "char \<Rightarrow> bool" where
  "is_space c \<longleftrightarrow> c = CHR '' '' \<or> c = CHR 0x09 \<or> c = CHR 0x0A \<or> c = CHR 0x0B
     \<or> c = CHR 0x0C \<or> c = CHR 0x0D"

definition is_digit :: "char \<Rightarrow> bool" where
  "is_digit c \<longleftrightarrow> 48 \<le> (of_char c :: nat) \<and> (of_char c :: nat) \<le> 57"

definition digit_val :: "char \<Rightarrow> nat" where
  "digit_val c = of_char c - 48"

definition digits_val :: "string \<Rightarrow> nat" where
  "digits_val ds = fold (\<lambda>c n. 10 * n + digit_val c) ds 0"

definition sscanf_u :: "string \<Rightarrow> u32 \<Rightarrow> u32" where
  "sscanf_u buf init =
     (let ds = takeWhile is_digit (dropWhile is_space buf)
      in if ds = [] then init else of_nat (digits_val ds))"

text \<open>The decimal conversion \<open>%u\<close> of \<open>fprintf\<close> and \<open>scnprintf\<close>.\<close>

fun print_u :: "nat \<Rightarrow> string" where
  "print_u n = (if n < 10 then [char_of (48 + n)] else print_u (n div 10) @ [char_of (48 + n mod 10)])"

declare print_u.simps [simp del]

definition pspin_reg_store :: "pspin_attribute \<Rightarrow> string \<Rightarrow> app \<Rightarrow> (errno + nat) \<times> app" where
  "pspin_reg_store attr buf a =
     (let off = ATTR_REG_ADDR attr;
          reg = sscanf_u buf 0;
          (ok, a) = (case pa_check attr of None \<Rightarrow> (True, a) | Some c \<Rightarrow> check_func c (pa_idx attr) reg a)
      in if \<not> ok then (Inl EINVAL, a)
         else (Inr (length buf), reg_write reg off a))"

definition pspin_reg_show :: "pspin_attribute \<Rightarrow> app \<Rightarrow> string" where
  "pspin_reg_show attr a = print_u (unat (reg_read a (ATTR_REG_ADDR attr))) @ [CHR 0x0A]"

section \<open>Layout of the register file\<close>

fun ascending :: "u32 list \<Rightarrow> bool" where
  "ascending (x # y # zs) \<longleftrightarrow> x < y \<and> ascending (y # zs)"
| "ascending xs \<longleftrightarrow> True"

lemma ascending_sorted: "ascending xs \<Longrightarrow> sorted_wrt (<) xs"
proof (induction xs rule: ascending.induct)
  case (1 x y zs)
  then have s: "sorted_wrt (<) (y # zs)" and "x < y" by simp_all
  then have "\<forall>z \<in> set zs. x < z" by auto
  with s \<open>x < y\<close> show ?case by simp
qed simp_all

lemma ascending_attrs: "ascending (map ATTR_REG_ADDR all_attrs)"
  by code_simp

text \<open>
  Property C3. The generated table gives every register its own word-aligned address below
  0x5000, that is, no two sysfs attributes alias one register, and no two of its groups share a
  path.
\<close>

theorem register_layout:
  "distinct (map ATTR_REG_ADDR all_attrs)
   \<and> list_all (\<lambda>a. ATTR_REG_ADDR a AND 3 = 0 \<and> ATTR_REG_ADDR a < 0x5000) all_attrs
   \<and> distinct (map reg_path reg_groups)"
proof (intro conjI)
  show "distinct (map ATTR_REG_ADDR all_attrs)"
    using ascending_sorted [OF ascending_attrs] by (simp only: strict_sorted_iff)
  show "list_all (\<lambda>a. ATTR_REG_ADDR a AND 3 = 0 \<and> ATTR_REG_ADDR a < 0x5000) all_attrs"
    by code_simp
  show "distinct (map reg_path reg_groups)"
    by code_simp
qed

text \<open>What the check function of a register says about its address.\<close>

definition attr_class :: "pspin_attribute \<Rightarrow> bool" where
  "attr_class attr =
     (case pa_check attr of
        None \<Rightarrow> \<not> pa_store attr
      | Some check_cl_ctrl_id \<Rightarrow> (pa_idx attr = 0 \<and> ATTR_REG_ADDR attr = 0)
          \<or> (pa_idx attr = 1 \<and> ATTR_REG_ADDR attr = 4)
      | Some check_me_en_id \<Rightarrow> ATTR_REG_ADDR attr = 0x2000
      | Some check_her_en_id \<Rightarrow> ATTR_REG_ADDR attr = 0x3000
      | Some check_me_in_conf_id \<Rightarrow> 0x2004 \<le> ATTR_REG_ADDR attr \<and> ATTR_REG_ADDR attr < 0x3000
      | Some check_her_in_conf_id \<Rightarrow> 0x3004 \<le> ATTR_REG_ADDR attr)"

lemma attr_class_all: "attr \<in> set all_attrs \<Longrightarrow> attr_class attr"
proof -
  have "list_all attr_class all_attrs" by code_simp
  then show "attr \<in> set all_attrs \<Longrightarrow> attr_class attr" by (simp add: list_all_iff)
qed

section \<open>Printing and scanning register values\<close>

lemma digit_char: "n < 10 \<Longrightarrow> is_digit (char_of (48 + n)) \<and> digit_val (char_of (48 + n)) = n"
  for n :: nat
  by (simp add: is_digit_def digit_val_def of_char_of take_bit_nat_eq_self)

lemma print_u_digits: "list_all is_digit (print_u n)"
proof (induction n rule: print_u.induct)
  case (1 n)
  then show ?case using digit_char [of n] digit_char [of "n mod 10"]
    by (subst print_u.simps) auto
qed

lemma digits_val_snoc: "digits_val (ds @ [c]) = 10 * digits_val ds + digit_val c"
  by (simp add: digits_val_def)

lemma digits_val_print_u: "digits_val (print_u n) = n"
proof (induction n rule: print_u.induct)
  case (1 n)
  show ?case
  proof (cases "n < 10")
    case True
    then show ?thesis using digit_char [of n]
      by (subst print_u.simps) (simp add: digits_val_def)
  next
    case False
    with 1 have "digits_val (print_u (n div 10)) = n div 10" by simp
    then show ?thesis using False digit_char [of "n mod 10"]
      by (subst print_u.simps) (simp add: digits_val_snoc)
  qed
qed

lemma print_u_nonempty [simp]: "print_u n \<noteq> []"
  by (subst print_u.simps) simp

lemma is_digit_not_space: "is_digit c \<Longrightarrow> \<not> is_space c"
  by (auto simp: is_digit_def is_space_def)

lemma sscanf_print_u: "sscanf_u (print_u (unat v) @ rest) init = v"
  if "rest = [] \<or> \<not> is_digit (hd rest)" for v :: u32
proof -
  have d: "list_all is_digit (print_u (unat v))" by (rule print_u_digits)
  obtain c cs where p: "print_u (unat v) = c # cs" by (cases "print_u (unat v)") auto
  with d have "\<not> is_space c" by (simp add: is_digit_not_space)
  then have drop: "dropWhile is_space (print_u (unat v) @ rest) = print_u (unat v) @ rest"
    by (simp add: p)
  have "takeWhile is_digit (print_u (unat v) @ rest) = print_u (unat v) @ takeWhile is_digit rest"
    using d by (simp add: list_all_iff)
  also have "takeWhile is_digit rest = []" using that by (cases rest) auto
  finally show ?thesis
    by (simp add: sscanf_u_def drop digits_val_print_u)
qed

section \<open>Register writes and the enable state\<close>

text \<open>
  The driver's flags mirror the enable registers: the matching engine and the handler execution
  request generator are in configuration exactly when their \<open>valid\<close> register is zero, and the
  cluster is in reset exactly when the reset register is not zero.
\<close>

definition flags_mirror :: "app \<Rightarrow> bool" where
  "flags_mirror a \<longleftrightarrow> (in_me_conf a \<longleftrightarrow> regs a 0x2000 = 0) \<and> (in_her_conf a \<longleftrightarrow> regs a 0x3000 = 0)
     \<and> (in_reset a \<longleftrightarrow> regs a 4 \<noteq> 0)"

text \<open>When the HER generator is enabled, every enabled host DMA area is the configured one.\<close>

definition her_safe :: "app \<Rightarrow> bool" where
  "her_safe a \<longleftrightarrow> (in_her_conf a \<or> (\<forall>i<HER_NUM_HANDLER_CTX. hostdma_ok a i))"

lemmas check_defs = check_cl_ctrl_def check_me_en_def check_her_en_def check_me_in_conf_def
  check_her_in_conf_def

lemma check_func_rejects: "check_func c i r a = (False, a') \<Longrightarrow> a' = a"
  by (cases c) (auto simp: check_defs Let_def split: if_splits)

lemma store_rejected: "pspin_reg_store attr buf a = (Inl e, a') \<Longrightarrow> e = EINVAL \<and> a' = a"
  by (auto simp: pspin_reg_store_def Let_def split: if_splits prod.splits option.splits
      dest: check_func_rejects)

lemma attr_classD:
  assumes "attr_class attr"
  shows "pa_check attr = Some check_cl_ctrl_id \<Longrightarrow>
      (pa_idx attr = 0 \<and> ATTR_REG_ADDR attr = 0) \<or> (pa_idx attr = 1 \<and> ATTR_REG_ADDR attr = 4)"
    and "pa_check attr = Some check_me_en_id \<Longrightarrow> ATTR_REG_ADDR attr = 0x2000"
    and "pa_check attr = Some check_her_en_id \<Longrightarrow> ATTR_REG_ADDR attr = 0x3000"
    and "pa_check attr = Some check_me_in_conf_id \<Longrightarrow>
      ATTR_REG_ADDR attr \<notin> {0, 4, 0x2000, 0x3000} \<and> ATTR_REG_ADDR attr < 0x3000"
    and "pa_check attr = Some check_her_in_conf_id \<Longrightarrow>
      ATTR_REG_ADDR attr \<notin> {0, 4, 0x2000, 0x3000} \<and> 0x3004 \<le> ATTR_REG_ADDR attr"
    and "pa_check attr = None \<Longrightarrow> \<not> pa_store attr"
  using assms by (auto simp: attr_class_def)

lemma store_flags_mirror:
  assumes "attr \<in> set all_attrs" "pa_store attr" "flags_mirror a"
    and "pspin_reg_store attr buf a = (r, a')"
  shows "flags_mirror a'"
proof -
  note cl = attr_classD [OF attr_class_all [OF assms(1)]]
  obtain c where c: "pa_check attr = Some c" using cl(6) assms(2) by (cases "pa_check attr") auto
  show ?thesis
    using assms(3,4) c cl
    by (cases c) (auto simp: pspin_reg_store_def check_defs Let_def flags_mirror_def reg_write_def
        split: if_splits)
qed

text \<open>The host DMA check reads only registers at or above 0x4020.\<close>

lemma ctx_cases: "i < HER_NUM_HANDLER_CTX \<Longrightarrow> i = 0 \<or> i = 1 \<or> i = 2 \<or> i = 3"
  by (auto simp: HER_NUM_HANDLER_CTX_def)

lemma hostdma_ok_cong:
  assumes "i < HER_NUM_HANDLER_CTX" "dma_areas a' = dma_areas a"
    and "\<And>off. 0x4020 \<le> off \<Longrightarrow> regs a' off = regs a off"
  shows "hostdma_ok a' i = hostdma_ok a i"
proof -
  have "0x4020 \<le> host_mem_addr_0 i" "0x4020 \<le> host_mem_addr_1 i" "0x4020 \<le> host_mem_size i"
    using ctx_cases [OF assms(1)]
    by (auto simp: host_mem_addr_0_def host_mem_addr_1_def host_mem_size_def)
  then show ?thesis
    using assms(2,3) by (simp add: hostdma_ok_def hostdma_addr_def hostdma_size_def reg_read_def)
qed

lemma store_frame:
  assumes "pspin_reg_store attr buf a = (r, a')"
  shows "dma_areas a' = dma_areas a" "pmem a' = pmem a"
    "off \<noteq> ATTR_REG_ADDR attr \<Longrightarrow> regs a' off = regs a off"
proof -
  have "dma_areas a2 = dma_areas a \<and> pmem a2 = pmem a \<and> regs a2 = regs a"
    if "check_func c i v a = (ok, a2)" for c i v ok a2
    using that by (cases c) (auto simp: check_defs Let_def split: if_splits)
  then have "dma_areas a' = dma_areas a \<and> pmem a' = pmem a
      \<and> (off \<noteq> ATTR_REG_ADDR attr \<longrightarrow> regs a' off = regs a off)" for off
    using assms by (auto simp: pspin_reg_store_def Let_def reg_write_def
        split: if_splits prod.splits option.splits)
  then show "dma_areas a' = dma_areas a" "pmem a' = pmem a"
    "off \<noteq> ATTR_REG_ADDR attr \<Longrightarrow> regs a' off = regs a off" by blast+
qed

lemma store_in_her_conf:
  assumes "pa_check attr \<noteq> Some check_her_en_id" "pspin_reg_store attr buf a = (r, a')"
  shows "in_her_conf a' = in_her_conf a"
proof -
  have "in_her_conf a2 = in_her_conf a"
    if "check_func c i v a = (ok, a2)" "c \<noteq> check_her_en_id" for c i v ok a2
    using that by (cases c) (auto simp: check_defs Let_def split: if_splits)
  with assms show ?thesis
    by (auto simp: pspin_reg_store_def Let_def reg_write_def split: if_splits prod.splits option.splits)
qed

lemma store_her_safe:
  assumes "attr \<in> set all_attrs" "pa_store attr" "her_safe a"
    and "pspin_reg_store attr buf a = (r, a')"
  shows "her_safe a'"
proof -
  note cl = attr_classD [OF attr_class_all [OF assms(1)]]
  have same: "hostdma_ok a' i = hostdma_ok a i"
    if "ATTR_REG_ADDR attr \<le> 0x3000" "i < HER_NUM_HANDLER_CTX" for i
  proof (rule hostdma_ok_cong [OF that(2) store_frame(1) [OF assms(4)]])
    fix off :: u32 assume "0x4020 \<le> off"
    with that(1) have "off \<noteq> ATTR_REG_ADDR attr" by (auto simp: word_le_nat_alt)
    then show "regs a' off = regs a off" by (rule store_frame(3) [OF assms(4)])
  qed
  consider (en) "pa_check attr = Some check_her_en_id"
    | (conf) "pa_check attr = Some check_her_in_conf_id"
    | (other) "pa_check attr \<noteq> Some check_her_en_id" "ATTR_REG_ADDR attr \<le> 0x3000"
  proof (cases "pa_check attr")
    case None
    with cl(6) assms(2) show ?thesis by simp
  next
    case (Some c)
    then show ?thesis using that cl by (cases c) auto
  qed
  then show ?thesis
  proof cases
    case en
    then show ?thesis
      using assms(3,4) cl(3) same
      by (auto simp: pspin_reg_store_def check_defs Let_def her_safe_def reg_write_def list_all_iff
          split: if_splits)
  next
    case conf
    then show ?thesis
      using assms(3,4) by (auto simp: pspin_reg_store_def check_defs Let_def her_safe_def
          reg_write_def split: if_splits)
  next
    case other
    then show ?thesis
      using assms(3) same store_in_her_conf [OF other(1) assms(4)] by (simp add: her_safe_def)
  qed
qed

text \<open>
  Property C4. While an engine is enabled its configuration is frozen: with the \<open>valid\<close> register
  of the matching engine set, no write through sysfs changes a mode, index, mask, start or end
  register, and with that of the HER generator set none changes a context or metadata register.
\<close>

theorem conf_frozen_while_enabled:
  assumes "attr \<in> set all_attrs" "pa_store attr" "flags_mirror a"
    and "pspin_reg_store attr buf a = (r, a')"
  shows "(regs a 0x2000 \<noteq> 0 \<and> 0x2004 \<le> off \<and> off < 0x3000 \<longrightarrow> regs a' off = regs a off)
    \<and> (regs a 0x3000 \<noteq> 0 \<and> 0x3004 \<le> off \<longrightarrow> regs a' off = regs a off)"
proof -
  note cl = attr_classD [OF attr_class_all [OF assms(1)]]
  obtain c where c: "pa_check attr = Some c" using cl(6) assms(2) by (cases "pa_check attr") auto
  show ?thesis
  proof (cases "off = ATTR_REG_ADDR attr")
    case False
    then show ?thesis using store_frame(3) [OF assms(4)] by simp
  next
    case True
    have "r = Inl EINVAL \<and> regs a' = regs a"
      if "regs a 0x2000 \<noteq> 0 \<and> 0x2004 \<le> off \<and> off < 0x3000 \<or> regs a 0x3000 \<noteq> 0 \<and> 0x3004 \<le> off"
      using that assms(3,4) c cl True
      by (cases c) (auto simp: pspin_reg_store_def check_defs Let_def flags_mirror_def
          word_le_nat_alt word_less_nat_alt)
    then show ?thesis by auto
  qed
qed

definition example_app :: app where
  "example_app = \<lparr>in_reset = False, in_her_conf = True, in_me_conf = False,
     dma_areas = replicate 4 \<lparr>cpu_addr = 0, dma_handle = 0, dma_size = 0, enabled = False, ref_count = 0\<rparr>,
     regs = (\<lambda>_. 0)(0x2000 := 1), pmem = (\<lambda>_. 0)\<rparr>"

definition example_attr :: pspin_attribute where
  "example_attr = \<lparr>pa_idx = 0, pa_offset = 0x2014, pa_group = ''idx'', pa_store = True,
     pa_check = Some check_me_in_conf_id\<rparr>"

lemma example_attr_in: "example_attr \<in> set all_attrs"
  by code_simp

lemma example_store: "pspin_reg_store example_attr ''5'' example_app = (Inl EINVAL, example_app)"
  by (simp add: pspin_reg_store_def example_attr_def check_defs example_app_def Let_def)

theorem conf_frozen_while_enabled_witness:
  "example_attr \<in> set all_attrs \<and> pa_store example_attr \<and> flags_mirror example_app
   \<and> pspin_reg_store example_attr ''5'' example_app = (Inl EINVAL, example_app)
   \<and> regs example_app 0x2000 \<noteq> 0
   \<and> regs (snd (pspin_reg_store example_attr ''5'' example_app)) 0x2014 = regs example_app 0x2014"
proof -
  have s: "pa_store example_attr" by (simp add: example_attr_def)
  have f: "flags_mirror example_app" by (simp add: example_app_def flags_mirror_def)
  have "regs example_app 0x2000 \<noteq> 0" by (simp add: example_app_def)
  then show ?thesis
    using conf_frozen_while_enabled [OF example_attr_in s f example_store, of "0x2014"]
      example_attr_in s f example_store by simp
qed

text \<open>
  Property C5. A value that the loader prints into a register file and the driver accepts is
  exactly the value in the register afterwards, and reading the file prints it back.
\<close>

theorem reg_store_show_roundtrip:
  assumes "pspin_reg_store attr (print_u (unat v)) a = (Inr n, a')"
  shows "regs a' (ATTR_REG_ADDR attr) = v
    \<and> pspin_reg_show attr a' = print_u (unat v) @ [CHR 0x0A]
    \<and> n = length (print_u (unat v))"
proof -
  have "sscanf_u (print_u (unat v)) 0 = v" using sscanf_print_u [of "[]" v] by simp
  then show ?thesis
    using assms by (auto simp: pspin_reg_store_def Let_def reg_write_def pspin_reg_show_def
        reg_read_def split: if_splits prod.splits)
qed

definition example_her_attr :: pspin_attribute where
  "example_her_attr = \<lparr>pa_idx = 2, pa_offset = 0x3004, pa_group = ''ctx_enabled'', pa_store = True,
     pa_check = Some check_her_in_conf_id\<rparr>"

theorem reg_store_show_roundtrip_witness:
  "pspin_reg_store example_her_attr (print_u (unat (1 :: u32))) example_app
     = (Inr 1, reg_write 1 0x300C example_app)
   \<and> pspin_reg_show example_her_attr (reg_write 1 0x300C example_app) = [CHR ''1'', CHR 0x0A]"
proof -
  have p: "print_u (Suc 0) = [CHR ''1'']" by code_simp
  have s: "sscanf_u [CHR ''1''] 0 = 1" by code_simp
  have st: "pspin_reg_store example_her_attr (print_u (unat (1 :: u32))) example_app
     = (Inr 1, reg_write 1 0x300C example_app)"
    by (simp add: pspin_reg_store_def p s example_her_attr_def check_defs example_app_def Let_def
        ATTR_REG_ADDR_def)
  then show ?thesis using reg_store_show_roundtrip [OF st] by (simp add: p)
qed

end
