(* ===== verification/Packets.thy ===== *)
theory Packets
  imports Fp_Prelude
begin

text \<open>
  The packet formats and byte-order helpers that the NIC handlers and the host library share
  (\<open>sw/runtime/include/packets.h\<close>, repeated in \<open>lib/fpspin/fpspin.h\<close>), the Internet checksum
  of \<open>packets.h\<close> and its optimised variant of the ICMP handler (\<open>icmp_ping.c\<close>).
  Header fields hold the 16- and 32-bit values the cores load from packet memory, that is, the
  network byte order value read little-endian; \<open>ip_hdr_bytes\<close> gives the bytes back.
\<close>

unbundle bit_operations_syntax

section \<open>Byte order\<close>

definition bswap_16 :: "u16 \<Rightarrow> u16" where
  "bswap_16 v = push_bit 8 (v AND 0xff) OR drop_bit 8 v"

definition bswap_32 :: "u32 \<Rightarrow> u32" where
  "bswap_32 v = push_bit 16 (ucast (bswap_16 (ucast v))) OR ucast (bswap_16 (ucast (drop_bit 16 v)))"

abbreviation (input) "htons \<equiv> bswap_16"
abbreviation (input) "ntohs \<equiv> bswap_16"
abbreviation (input) "htonl \<equiv> bswap_32"
abbreviation (input) "ntohl \<equiv> bswap_32"

lemma unat_bswap_16 [unat_simps]:
  "unat (bswap_16 v) = 256 * (unat v mod 256) + unat v div 256"
proof -
  have m: "(0xff :: u16) = mask 8" by (simp add: mask_eq_exp_minus_1)
  have "push_bit 8 (v AND mask 8) AND drop_bit 8 v = 0"
    by (rule bit_word_eqI) (auto simp: bit_simps dest: bit_imp_le_length)
  then have eq: "bswap_16 v = push_bit 8 (v AND mask 8) + drop_bit 8 v"
    by (simp only: bswap_16_def m disjunctive_add_eq_or)
  have l: "unat (push_bit 8 (v AND mask 8)) = 256 * (unat v mod 256)"
  proof -
    have "unat (v AND mask 8) = unat v mod 256" by (simp only: unat_and_mask) simp
    then show ?thesis
      by (simp add: push_bit_eq_mult unat_word_ariths mult.commute del: take_bit_eq_mask)
  qed
  have h: "unat (drop_bit 8 v) = unat v div 256"
    by (simp only: unat_drop_bit_eq) (simp add: drop_bit_eq_div)
  have "256 * (unat v mod 256) + unat v div 256 < 65536"
  proof -
    have "unat v div 256 < 256" by (simp add: less_mult_imp_div_less)
    moreover have "unat v mod 256 < 256" by simp
    ultimately show ?thesis by linarith
  qed
  then show ?thesis by (simp only: eq unat_add_u16 l h)
qed

lemma bswap_16_bswap_16 [simp]: "bswap_16 (bswap_16 v) = v"
proof -
  have "unat v div 256 < 256" by (simp add: less_mult_imp_div_less)
  then have "unat (bswap_16 (bswap_16 v)) = unat v"
    by (simp add: unat_bswap_16)
  then show ?thesis by (simp only: word_unat_eq_iff)
qed

lemma bswap_32_bswap_32 [simp]: "bswap_32 (bswap_32 v) = v"
proof -
  have lo: "ucast (bswap_32 v) = bswap_16 (ucast (drop_bit 16 v))"
    by (rule bit_word_eqI) (auto simp: bswap_32_def bit_simps)
  have hi: "ucast (drop_bit 16 (bswap_32 v)) = bswap_16 (ucast v)"
    by (rule bit_word_eqI) (auto simp: bswap_32_def bit_simps dest: bit_imp_le_length)
  show ?thesis
    unfolding bswap_32_def [of "bswap_32 v"] lo hi
    by (rule bit_word_eqI) (auto simp: bit_simps)
qed

section \<open>Header formats\<close>

type_synonym mac_addr = "u8 list"

record eth_hdr =
  eth_dest :: mac_addr
  eth_src :: mac_addr
  eth_length :: u16

record ip_hdr =
  ihl :: "4 word"
  version :: "4 word"
  tos :: u8
  ip_length :: u16
  identification :: u16
  ip_offset :: u16
  ttl :: u8
  protocol :: u8
  ip_check :: u16
  source_id :: u32
  dest_id :: u32

record udp_hdr =
  src_port :: u16
  dst_port :: u16
  udp_length :: u16
  udp_check :: u16

record slmp_hdr =
  slmp_flags :: u16
  msg_id :: u32
  pkt_off :: u32

record pkt_hdr =
  ph_eth :: eth_hdr
  ph_ip :: ip_hdr
  ph_udp :: udp_hdr

record slmp_pkt_hdr =
  sp_eth :: eth_hdr
  sp_ip :: ip_hdr
  sp_udp :: udp_hdr
  sp_slmp :: slmp_hdr

definition sizeof_eth_hdr :: nat where "sizeof_eth_hdr = 14"
definition sizeof_ip_hdr :: nat where "sizeof_ip_hdr = 20"
definition sizeof_udp_hdr :: nat where "sizeof_udp_hdr = 8"
definition sizeof_slmp_hdr :: nat where "sizeof_slmp_hdr = 10"
definition sizeof_slmp_pkt_hdr :: nat where
  "sizeof_slmp_pkt_hdr = sizeof_eth_hdr + sizeof_ip_hdr + sizeof_udp_hdr + sizeof_slmp_hdr"

lemmas sizeof_defs = sizeof_eth_hdr_def sizeof_ip_hdr_def sizeof_udp_hdr_def
  sizeof_slmp_hdr_def sizeof_slmp_pkt_hdr_def

definition MKEOM :: u16 where "MKEOM = 0x8000"
definition MKSYN :: u16 where "MKSYN = 0x4000"
definition MKACK :: u16 where "MKACK = 0x2000"

definition EOM :: "u16 \<Rightarrow> bool" where "EOM flags \<longleftrightarrow> flags AND MKEOM \<noteq> 0"
definition SYN :: "u16 \<Rightarrow> bool" where "SYN flags \<longleftrightarrow> flags AND MKSYN \<noteq> 0"
definition ACK :: "u16 \<Rightarrow> bool" where "ACK flags \<longleftrightarrow> flags AND MKACK \<noteq> 0"

lemmas slmp_flag_defs = MKEOM_def MKSYN_def MKACK_def EOM_def SYN_def ACK_def

text \<open>\<open>size_t\<close> is 32 bits wide on the cores, so the subtraction wraps there.\<close>

definition SLMP_PAYLOAD_LEN :: "slmp_pkt_hdr \<Rightarrow> u32" where
  "SLMP_PAYLOAD_LEN hdrs = ucast (ntohs (udp_length (sp_udp hdrs)))
     - of_nat sizeof_udp_hdr - of_nat sizeof_slmp_hdr"

definition ip_hdr_bytes :: "ip_hdr \<Rightarrow> u8 list" where
  "ip_hdr_bytes h =
     [ucast (ihl h) OR push_bit 4 (ucast (version h)), tos h]
     @ bytes16 (ip_length h) @ bytes16 (identification h) @ bytes16 (ip_offset h)
     @ [ttl h, protocol h] @ bytes16 (ip_check h)
     @ bytes32 (source_id h) @ bytes32 (dest_id h)"

lemma length_ip_hdr_bytes [simp]: "length (ip_hdr_bytes h) = sizeof_ip_hdr"
  by (simp add: ip_hdr_bytes_def bytes16_def bytes32_def sizeof_ip_hdr_def)

section \<open>The Internet checksum\<close>

text \<open>\<open>ip_checksum\<close> of \<open>packets.h\<close>: the loop over complete 16-bit blocks, then the odd byte.\<close>

fun ip_checksum_blocks :: "u32 \<Rightarrow> u8 list \<Rightarrow> u32" where
  "ip_checksum_blocks acc (a # b # data) =
     (let acc = acc + ucast (ntohs (le16 a b))
      in ip_checksum_blocks (if acc > 0xffff then acc - 0xffff else acc) data)"
| "ip_checksum_blocks acc data = acc"

definition ip_checksum :: "u8 list \<Rightarrow> u16" where
  "ip_checksum data =
     (let acc = ip_checksum_blocks 0xffff data;
          acc = (if odd (length data)
                 then (let acc = acc + ucast (ntohs (le16 (last data) 0))
                       in if acc > 0xffff then acc - 0xffff else acc)
                 else acc)
      in htons (ucast (NOT acc)))"

text \<open>\<open>ip_checksum_timo\<close> of \<open>icmp_ping.c\<close>: no byte swaps, the carries folded once at the end.\<close>

fun timo_blocks :: "u32 \<Rightarrow> u8 list \<Rightarrow> u32" where
  "timo_blocks acc (a # b # data) = timo_blocks (acc + ucast (le16 a b)) data"
| "timo_blocks acc data = acc"

definition timo_fold :: "u32 \<Rightarrow> u32" where
  "timo_fold acc = (acc AND 0xffff) + (drop_bit 16 acc AND 0xffff)"

definition ip_checksum_timo :: "u8 list \<Rightarrow> u16" where
  "ip_checksum_timo data =
     (let acc = timo_blocks 0xffff data;
          acc = (if odd (length data) then acc + ucast (last data) else acc);
          acc = timo_fold acc;
          acc = timo_fold acc
      in ucast (NOT acc))"

text \<open>
  The abstract checksum: the one's complement sum is the residue of the plain sum of the 16-bit
  words modulo 65535, with 65535 standing for zero.
\<close>

fun be_sum :: "u8 list \<Rightarrow> nat" where
  "be_sum (a # b # data) = 256 * unat a + unat b + be_sum data"
| "be_sum [a] = 256 * unat a"
| "be_sum [] = 0"

fun le_sum :: "u8 list \<Rightarrow> nat" where
  "le_sum (a # b # data) = unat a + 256 * unat b + le_sum data"
| "le_sum [a] = unat a"
| "le_sum [] = 0"

definition oc :: "nat \<Rightarrow> nat" where
  "oc n = (if n mod 65535 = 0 then 65535 else n mod 65535)"

lemma oc_bounds: "1 \<le> oc n" "oc n \<le> 65535"
proof -
  have "n mod 65535 < 65535" by simp
  then show "1 \<le> oc n" "oc n \<le> 65535" by (simp_all add: oc_def del: mod_less_divisor)
qed

lemma oc_mod [simp]: "oc n mod 65535 = n mod 65535"
  by (simp add: oc_def)

lemma ocI: "1 \<le> x \<Longrightarrow> x \<le> 65535 \<Longrightarrow> x mod 65535 = n mod 65535 \<Longrightarrow> x = oc n"
  by (cases "x = 65535") (auto simp: oc_def)

lemma oc_cong: "m mod 65535 = n mod 65535 \<Longrightarrow> oc m = oc n"
  by (simp add: oc_def)

lemma unat_bswap_le16 [unat_simps]: "unat (bswap_16 (le16 a b)) = 256 * unat a + unat b"
proof -
  have "unat a < 256" by simp
  then have "(unat a + 256 * unat b) mod 256 = unat a" "(unat a + 256 * unat b) div 256 = unat b"
    by (simp_all only: mod_mult_self2 div_mult_self2 mod_less div_less)
  then show ?thesis by (simp only: unat_bswap_16 unat_le16)
qed

text \<open>One step of the accumulator of \<open>ip_checksum\<close>.\<close>

lemma checksum_step:
  fixes acc :: u32 and w :: u16
  assumes "unat acc = oc n"
  shows "unat (if acc + ucast w > 0xffff then acc + ucast w - 0xffff else acc + ucast w)
    = oc (n + unat w)"
proof -
  have le: "1 \<le> unat acc" "unat acc \<le> 65535" using assms oc_bounds [of n] by simp_all
  have w: "unat w < 65536" by (rule unat_u16_less)
  have "unat acc + unat (ucast w :: u32) < 4294967296" using le(2) w by (simp only: unat_ucast_16_32)
  then have sum: "unat (acc + ucast w) = unat acc + unat w"
    by (simp only: unat_add_u32 unat_ucast_16_32)
  have gt: "(acc + ucast w > 0xffff) \<longleftrightarrow> unat acc + unat w > 65535"
    by (simp add: word_less_nat_alt sum)
  have md: "(unat acc + unat w) mod 65535 = (n + unat w) mod 65535"
    using assms by (metis mod_add_left_eq oc_mod)
  show ?thesis
  proof (cases "unat acc + unat w > 65535")
    case True
    then have "0xffff \<le> acc + ucast w" by (simp add: word_le_nat_alt sum)
    then have "unat (acc + ucast w - 0xffff) = unat acc + unat w - 65535"
      by (simp add: unat_sub_le sum)
    moreover have "(unat acc + unat w - 65535) mod 65535 = (n + unat w) mod 65535"
      using True md by (simp add: le_mod_geq)
    moreover have "1 \<le> unat acc + unat w - 65535" "unat acc + unat w - 65535 \<le> 65535"
      using True le(2) w by linarith+
    ultimately show ?thesis
      using True gt by (simp only: if_True ocI)
  next
    case False
    then show ?thesis using gt sum md le by (simp add: ocI)
  qed
qed

lemma ip_checksum_blocks_oc:
  "unat acc = oc n \<Longrightarrow> unat (ip_checksum_blocks acc data)
     = oc (n + be_sum (if odd (length data) then butlast data else data))"
proof (induction acc data arbitrary: n rule: ip_checksum_blocks.induct)
  case (1 acc a b data)
  from checksum_step [OF "1.prems", of "bswap_16 (le16 a b)"]
  have "unat (if acc + ucast (bswap_16 (le16 a b)) > 0xffff
           then acc + ucast (bswap_16 (le16 a b)) - 0xffff else acc + ucast (bswap_16 (le16 a b)))
      = oc (n + (256 * unat a + unat b))"
    by (simp only: unat_bswap_le16)
  from "1.IH" [OF refl this] show ?case
    by (auto simp: Let_def add.assoc)
qed simp_all

lemma be_sum_odd:
  "odd (length data) \<Longrightarrow> be_sum data = be_sum (butlast data) + 256 * unat (last data)"
  by (induction data rule: be_sum.induct) auto

lemma ip_checksum_oc: "ip_checksum data = bswap_16 (NOT (of_nat (oc (be_sum data))))"
proof -
  define acc where "acc = ip_checksum_blocks 0xffff data"
  define acc' where "acc' = (if odd (length data)
                 then (let acc = acc + ucast (bswap_16 (le16 (last data) 0))
                       in if acc > 0xffff then acc - 0xffff else acc)
                 else acc)"
  have 0: "unat (0xffff :: u32) = oc 0" by (simp add: oc_def)
  have 1: "unat acc = oc (be_sum (if odd (length data) then butlast data else data))"
    unfolding acc_def using ip_checksum_blocks_oc [OF 0, of data] by simp
  have acc': "unat acc' = oc (be_sum data)"
  proof (cases "odd (length data)")
    case True
    then show ?thesis
      using checksum_step [OF 1, of "bswap_16 (le16 (last data) 0)"] be_sum_odd [OF True]
      by (simp add: acc'_def Let_def unat_bswap_le16)
  next
    case False
    then show ?thesis using 1 by (simp add: acc'_def)
  qed
  have "(ucast (NOT acc') :: u16) = NOT (ucast acc')"
    by (rule bit_word_eqI) (simp add: bit_simps)
  moreover have "(ucast acc' :: u16) = of_nat (oc (be_sum data))"
    by (metis acc' of_nat_unat)
  ultimately show ?thesis
    by (simp add: ip_checksum_def acc_def [symmetric] acc'_def [symmetric] Let_def)
qed

text \<open>The folded accumulator of \<open>ip_checksum_timo\<close>.\<close>

lemma le_sum_bound: "le_sum data \<le> 65535 * ((length data + 1) div 2)"
proof (induction data rule: le_sum.induct)
  case (1 a b data)
  have "unat a < 256" "unat b < 256" by (rule unat_u8_less)+
  moreover have "(length (a # b # data) + 1) div 2 = Suc ((length data + 1) div 2)" by simp
  ultimately show ?case using 1 by (simp only: le_sum.simps mult_Suc_right)
next
  case (2 a)
  have "unat a \<le> 65535" using unat_u8_less [of a] by linarith
  then show ?case by simp
qed simp

lemma timo_blocks_sum:
  assumes "unat acc + le_sum data < 4294967296"
  shows "unat (timo_blocks acc data)
    = unat acc + le_sum (if odd (length data) then butlast data else data)"
  using assms
proof (induction acc data rule: timo_blocks.induct)
  case (1 acc a b data)
  have "unat (acc + ucast (le16 a b)) = unat acc + (unat a + 256 * unat b)"
    using "1.prems" by (simp add: unat_add_u32 unat_le16)
  with 1 show ?case by auto
qed simp_all

lemma le_sum_odd:
  "odd (length data) \<Longrightarrow> le_sum data = le_sum (butlast data) + unat (last data)"
  by (induction data rule: le_sum.induct) auto

lemma unat_timo_fold: "unat (timo_fold acc) = unat acc mod 65536 + unat acc div 65536"
proof -
  have m: "(0xffff :: u32) = mask 16" by (simp add: mask_eq_exp_minus_1)
  have h: "unat (drop_bit 16 acc) = unat acc div 65536"
    by (simp only: unat_drop_bit_eq) (simp add: drop_bit_eq_div)
  have d: "unat acc div 65536 < 65536"
    using unat_u32_less [of acc] by (simp add: div_less_iff_less_mult)
  have l: "unat (acc AND mask 16) = unat acc mod 65536"
    "unat (drop_bit 16 acc AND mask 16) = unat acc div 65536"
    using d by (simp_all add: unat_and_mask h del: take_bit_eq_mask)
  have "unat acc mod 65536 + unat acc div 65536 < 4294967296"
  proof -
    have "unat acc mod 65536 < 65536" by simp
    with d show ?thesis by linarith
  qed
  then show ?thesis by (simp only: timo_fold_def m unat_add_u32 l)
qed

lemma fold_mod: "(n mod 65536 + n div 65536) mod 65535 = (n :: nat) mod 65535"
proof -
  have "n mod 65535 = (n mod 65536 + n div 65536 + 65535 * (n div 65536)) mod 65535"
    by (rule arg_cong [where f = "\<lambda>x. x mod 65535"]) (simp add: mult.commute)
  also have "\<dots> = (n mod 65536 + n div 65536) mod 65535" by (simp only: mod_mult_self2)
  finally show ?thesis by (rule sym)
qed

lemma unat_timo_fold_twice:
  assumes "0 < unat acc"
  shows "unat (timo_fold (timo_fold acc)) = oc (unat acc)"
proof (rule ocI)
  define n where "n = unat acc"
  define m where "m = n mod 65536 + n div 65536"
  have r: "unat (timo_fold (timo_fold acc)) = m mod 65536 + m div 65536"
    by (simp only: unat_timo_fold n_def m_def)
  have n: "0 < n" "n < 4294967296" using assms unat_u32_less [of acc] by (simp_all only: n_def)
  have "n = n div 65536 * 65536 + n mod 65536" "n mod 65536 < 65536" by simp_all
  then have m: "0 < m" "m \<le> 131070" unfolding m_def using n by linarith+
  have m': "m = m div 65536 * 65536 + m mod 65536" "m mod 65536 < 65536" by simp_all
  show "1 \<le> unat (timo_fold (timo_fold acc))" unfolding r using m(1) m' by linarith
  have "m div 65536 = 0 \<or> 1 \<le> m div 65536" by linarith
  then show "unat (timo_fold (timo_fold acc)) \<le> 65535"
    unfolding r using m(2) m' by linarith
  show "unat (timo_fold (timo_fold acc)) mod 65535 = unat acc mod 65535"
    unfolding r fold_mod by (simp only: m_def fold_mod n_def)
qed

lemma ip_checksum_timo_oc:
  assumes "length data \<le> 131072"
  shows "ip_checksum_timo data = NOT (of_nat (oc (le_sum data)))"
proof -
  define acc where "acc = timo_blocks 0xffff data"
  define acc' where "acc' = (if odd (length data) then acc + ucast (last data) else acc)"
  have "(length data + 1) div 2 \<le> 65536" using assms by linarith
  then have le: "65535 + le_sum data < 4294967296"
    using le_sum_bound [of data] by linarith
  then have acc: "unat acc = 65535 + le_sum (if odd (length data) then butlast data else data)"
    unfolding acc_def using timo_blocks_sum [of "0xffff" data] by simp
  have acc': "unat acc' = 65535 + le_sum data"
  proof (cases "odd (length data)")
    case True
    then have eq: "unat acc + unat (last data) = 65535 + le_sum data"
      using acc le_sum_odd [OF True] by simp
    with le have "unat (acc + ucast (last data)) = unat acc + unat (last data)"
      by (simp only: unat_add_u32 unat_ucast_8_32)
    then show ?thesis using True eq by (simp add: acc'_def)
  next
    case False
    then show ?thesis using acc by (simp add: acc'_def)
  qed
  have fold: "unat (timo_fold (timo_fold acc')) = oc (le_sum data)"
    using unat_timo_fold_twice [of acc'] acc' by (simp add: oc_def)
  have "(ucast (NOT (timo_fold (timo_fold acc'))) :: u16)
      = NOT (ucast (timo_fold (timo_fold acc')))"
    by (rule bit_word_eqI) (simp add: bit_simps)
  also have "(ucast (timo_fold (timo_fold acc')) :: u16) = of_nat (oc (le_sum data))"
    by (metis fold of_nat_unat)
  finally show ?thesis
    by (simp add: ip_checksum_timo_def acc_def [symmetric] acc'_def [symmetric] Let_def)
qed

text \<open>Both sums agree up to a byte swap, since \<open>256 * 256 = 1\<close> modulo 65535.\<close>

lemma le_be_sum: "(256 * be_sum data) mod 65535 = le_sum data mod 65535"
proof (induction data rule: be_sum.induct)
  case (1 a b data)
  have "256 * be_sum (a # b # data)
      = (256 * be_sum data + unat a + 256 * unat b) + unat a * 65535"
    by simp
  then have "(256 * be_sum (a # b # data)) mod 65535
      = (256 * be_sum data + unat a + 256 * unat b) mod 65535"
    by (simp only: mod_mult_self1)
  also have "\<dots> = (le_sum data + (unat a + 256 * unat b)) mod 65535"
    using 1 by (metis mod_add_left_eq add.assoc)
  finally show ?case by (simp add: add_ac)
next
  case (2 a)
  have "256 * be_sum [a] = unat a + unat a * 65535" by simp
  then show ?case by (simp only: mod_mult_self1 le_sum.simps)
qed simp

lemma unat_not_u16 [unat_simps]: "unat (NOT (w :: u16)) = 65535 - unat w"
proof -
  have "NOT w = 65535 - w" by (simp add: not_eq_complement)
  moreover have "unat w \<le> 65535" using unat_u16_less [of w] by linarith
  then have "w \<le> 65535" by (simp add: word_le_nat_alt)
  ultimately show ?thesis by (simp add: unat_sub_le)
qed

lemma unat_of_nat_oc [unat_simps]: "unat (of_nat (oc n) :: u16) = oc n"
  using oc_bounds(2) [of n] by (simp add: unat_of_nat take_bit_nat_eq_self)

lemma bswap_16_not: "bswap_16 (NOT w) = NOT (bswap_16 w)"
proof -
  have m: "(0xff :: u16) = mask 8" by (simp add: mask_eq_exp_minus_1)
  show ?thesis
    unfolding bswap_16_def m
    by (rule bit_word_eqI) (auto simp: bit_simps dest: bit_imp_le_length)
qed

lemma bswap_oc: "unat (bswap_16 (of_nat (oc n))) = oc (256 * n)"
proof (rule ocI)
  have n: "1 \<le> oc n" by (rule oc_bounds)
  have d: "oc n = oc n div 256 * 256 + oc n mod 256" by simp
  have eq: "unat (bswap_16 (of_nat (oc n))) = 256 * (oc n mod 256) + oc n div 256"
    by (simp only: unat_bswap_16 unat_of_nat_oc)
  show "1 \<le> unat (bswap_16 (of_nat (oc n)))" unfolding eq using n d by linarith
  show "unat (bswap_16 (of_nat (oc n))) \<le> 65535"
    using unat_u16_less [of "bswap_16 (of_nat (oc n))"] by linarith
  have "256 * oc n = 256 * (oc n mod 256) + oc n div 256 + oc n div 256 * 65535"
    using d by linarith
  then have "(256 * oc n) mod 65535 = (256 * (oc n mod 256) + oc n div 256) mod 65535"
    by (simp only: mod_mult_self1)
  moreover have "(256 * oc n) mod 65535 = (256 * n) mod 65535"
    by (metis mod_mult_right_eq oc_mod)
  ultimately show "unat (bswap_16 (of_nat (oc n))) mod 65535 = (256 * n) mod 65535"
    by (simp only: eq)
qed

lemma timo_checksum_eq:
  assumes "length data \<le> 131072"
  shows "ip_checksum_timo data = ip_checksum data"
proof -
  have "unat (bswap_16 (of_nat (oc (be_sum data)))) = unat (of_nat (oc (le_sum data)) :: u16)"
    by (simp only: bswap_oc unat_of_nat_oc oc_cong [OF le_be_sum])
  then show ?thesis
    by (simp only: ip_checksum_timo_oc [OF assms] ip_checksum_oc bswap_16_not word_unat_eq_iff)
      (simp only: unat_not_u16)
qed

text \<open>
  Property C1. The ICMP handler's optimised checksum, which adds unswapped words and folds the
  carries at the end, computes the same 16-bit value as the reference \<open>ip_checksum\<close> that swaps
  every word and reduces at every step, for every buffer of up to 131072 bytes, the bound up to
  which its 32-bit accumulator cannot overflow (the handler passes at most 65535).
\<close>

theorem ip_checksum_timo_equiv:
  assumes "length data \<le> 131072"
  shows "ip_checksum_timo data = ip_checksum data"
  by (rule timo_checksum_eq [OF assms])

theorem ip_checksum_timo_equiv_witness:
  "length [0x45, 0, 0x1c, 0x73, 0xff :: u8] \<le> 131072
   \<and> ip_checksum_timo [0x45, 0, 0x1c, 0x73, 0xff] = ip_checksum [0x45, 0, 0x1c, 0x73, 0xff]"
  using ip_checksum_timo_equiv [of "[0x45, 0, 0x1c, 0x73, 0xff]"] by simp

lemma be_sum_append: "even (length xs) \<Longrightarrow> be_sum (xs @ ys) = be_sum xs + be_sum ys"
  by (induction xs rule: be_sum.induct) auto

lemma be_sum_bytes16: "be_sum (bytes16 c) = unat (bswap_16 c)"
proof -
  have "le16 (ucast c) (ucast (drop_bit 8 c)) = c"
    by (rule bit_word_eqI) (auto simp: le16_def bit_simps)
  then show ?thesis
    using unat_bswap_le16 [of "ucast c" "ucast (drop_bit 8 c)"] by (simp add: bytes16_def)
qed

lemma checksum_closes:
  assumes "even (length pre)"
  shows "ip_checksum (pre @ bytes16 (ip_checksum (pre @ [0, 0] @ post)) @ post) = 0"
proof -
  define n where "n = be_sum (pre @ [0, 0] @ post)"
  define c where "c = ip_checksum (pre @ [0, 0] @ post)"
  have n: "n = be_sum pre + be_sum post" using assms by (simp add: n_def be_sum_append)
  have "unat (bswap_16 c) = 65535 - oc n"
    by (simp only: c_def ip_checksum_oc n_def [symmetric] bswap_16_bswap_16 unat_not_u16 unat_of_nat_oc)
  then have "be_sum (pre @ bytes16 c @ post) = n + (65535 - oc n)"
    using assms n by (simp add: be_sum_append be_sum_bytes16)
  moreover have "(n + (65535 - oc n)) mod 65535 = 0"
  proof -
    have "(n + (65535 - oc n)) mod 65535 = (oc n + (65535 - oc n)) mod 65535"
      by (metis mod_add_left_eq oc_mod)
    also have "oc n + (65535 - oc n) = 65535" using oc_bounds(2) [of n] by simp
    finally show ?thesis by simp
  qed
  ultimately have "oc (be_sum (pre @ bytes16 c @ post)) = 65535" by (simp add: oc_def)
  then have "ip_checksum (pre @ bytes16 c @ post) = 0"
    unfolding ip_checksum_oc by (simp add: bswap_16_def)
  then show ?thesis by (simp only: c_def)
qed

text \<open>
  Property C2. Storing the computed checksum into the two zeroed bytes of its field (at an even
  offset) makes the checksum of the whole buffer zero, which is the test every receiver applies.
\<close>

theorem ip_checksum_verifies:
  assumes "even (length pre)"
  shows "ip_checksum (pre @ bytes16 (ip_checksum (pre @ [0, 0] @ post)) @ post) = 0"
  by (rule checksum_closes [OF assms])

theorem ip_checksum_verifies_witness:
  "even (length [0x45 :: u8, 0]) \<and>
   ip_checksum ([0x45, 0] @ bytes16 (ip_checksum ([0x45, 0] @ [0, 0] @ [7])) @ [7]) = 0"
  using ip_checksum_verifies [of "[0x45, 0]" "[7]"] by simp

end
