(* ===== verification/Pspin_Cdev.thy ===== *)
theory Pspin_Cdev
  imports Pspin_Regs Packets "HOL-Library.Multiset"
begin

text \<open>
  The character devices of the FPsPIN kernel module (\<open>main.c\<close>): address translation, open, read,
  write, llseek, ioctl and mmap of \<open>/dev/pspin0\<close> (NIC memory) and \<open>/dev/pspin1\<close> (stdout FIFO),
  the reference counting of the host DMA areas, and probe and removal of the module. What the
  kernel decides (a lock that is interrupted, a failing user copy or allocation) is an argument of
  the operation. File positions and counts are 64-bit words, as \<open>loff_t\<close> and \<open>size_t\<close> meet in
  unsigned arithmetic in the source.
\<close>

unbundle bit_operations_syntax

section \<open>Address translation\<close>

definition PSPIN_PROG_BASE :: u64 where "PSPIN_PROG_BASE = 0x1d000000"
definition PSPIN_PROG_SIZE :: u64 where "PSPIN_PROG_SIZE = 32 * 1024"
definition PSPIN_HND_BASE :: u64 where "PSPIN_HND_BASE = 0x1c000000"
definition PSPIN_HND_SIZE :: u64 where "PSPIN_HND_SIZE = 1 * 1024 * 1024"

definition CHECK_RANGE :: "u64 \<Rightarrow> u64 \<Rightarrow> u64 \<Rightarrow> bool" where
  "CHECK_RANGE addr base len \<longleftrightarrow> addr \<ge> base \<and> addr < base + len"

text \<open>The result is an \<open>s64\<close>, here its bits; the callers read its sign.\<close>

definition pspin_addr_to_corundum :: "u64 \<Rightarrow> u64" where
  "pspin_addr_to_corundum pspin_addr =
     (if CHECK_RANGE pspin_addr PSPIN_PROG_BASE PSPIN_PROG_SIZE
      then pspin_addr - PSPIN_PROG_BASE + 0x400000
      else if CHECK_RANGE pspin_addr PSPIN_HND_BASE PSPIN_HND_SIZE
      then pspin_addr - PSPIN_HND_BASE
      else - 1)"

text \<open>
  The window is larger than the memory behind it: handler memory is at its start and program
  memory at 0x400000; the rest of the window is not memory that the host may use.
\<close>

definition nic_mem :: "nat \<Rightarrow> bool" where
  "nic_mem x \<longleftrightarrow> x < unat PSPIN_HND_SIZE \<or> 0x400000 \<le> x \<and> x < 0x400000 + unat PSPIN_PROG_SIZE"

text \<open>The \<open>n\<close> bytes at \<open>p\<close> lie in one of the two memories.\<close>

definition in_nic_mem :: "nat \<Rightarrow> nat \<Rightarrow> bool" where
  "in_nic_mem p n \<longleftrightarrow> p + n \<le> unat PSPIN_HND_SIZE \<or> 0x400000 \<le> p \<and> p + n \<le> 0x400000 + unat PSPIN_PROG_SIZE"

section \<open>Word access to NIC memory\<close>

definition ioread32 :: "app \<Rightarrow> nat \<Rightarrow> u32" where
  "ioread32 a p = le32 (pmem a p) (pmem a (p + 1)) (pmem a (p + 2)) (pmem a (p + 3))"

definition iowrite32 :: "u32 \<Rightarrow> nat \<Rightarrow> app \<Rightarrow> app" where
  "iowrite32 v p a = a\<lparr>pmem := put_bytes (pmem a) p (bytes32 v)\<rparr>"

definition iowrite64_lo_hi :: "u64 \<Rightarrow> nat \<Rightarrow> app \<Rightarrow> app" where
  "iowrite64_lo_hi v p a = iowrite32 (ucast (drop_bit 32 v)) (p + 4) (iowrite32 (ucast v) p a)"

definition ioread64_lo_hi :: "app \<Rightarrow> nat \<Rightarrow> u64" where
  "ioread64_lo_hi a p = ucast (ioread32 a p) + push_bit 32 (ucast (ioread32 a (p + 4)))"

section \<open>The devices\<close>

datatype cdev_type = TY_MEM | TY_FIFO

text \<open>\<open>struct pspin_cdev\<close>; the operations below run with its mutex held.\<close>

record pspin_cdev =
  cd_type :: cdev_type
  block_buffer :: "u8 list option"
  exiting :: bool

definition pspin_ndevices :: nat where "pspin_ndevices = 2"
definition pspin_block_size :: u64 where "pspin_block_size = 4096"
definition pspin_mem_size :: u64 where "pspin_mem_size = 0x800000"

text \<open>
  \<open>pspin_open\<close> for the device number \<open>mj:mn\<close>: \<open>inode_ok\<close> says that the inode's cdev is the one of
  that minor, \<open>kzalloc_ok\<close> that the block buffer can be allocated.
\<close>

definition pspin_open ::
  "bool \<Rightarrow> bool \<Rightarrow> nat \<Rightarrow> nat \<Rightarrow> nat \<Rightarrow> pspin_cdev list \<Rightarrow> (errno + nat) \<times> pspin_cdev list" where
  "pspin_open inode_ok kzalloc_ok pspin_major mj mn cdevs =
     (if mj \<noteq> pspin_major \<or> mn \<ge> pspin_ndevices then (Inl ENODEV, cdevs)
      else if \<not> inode_ok then (Inl ENODEV, cdevs)
      else case block_buffer (cdevs ! mn) of
        Some _ \<Rightarrow> (Inr mn, cdevs)
      | None \<Rightarrow>
          if \<not> kzalloc_ok then (Inl ENOMEM, cdevs)
          else (Inr mn, cdevs[mn := (cdevs ! mn)
                  \<lparr>block_buffer := Some (replicate (unat pspin_block_size) 0)\<rparr>]))"

text \<open>The clamping of the byte count that read and write share.\<close>

definition clamp_count :: "u64 \<Rightarrow> u64 \<Rightarrow> u64" where
  "clamp_count f_pos cnt =
     (let cnt = (if f_pos + cnt > pspin_mem_size then pspin_mem_size - f_pos else cnt);
          cnt = (if cnt > pspin_block_size then pspin_block_size else cnt)
      in cnt AND NOT 3)"

text \<open>
  One iteration of the FIFO loop: the device is going away, the wait is interrupted by a signal,
  or it ends with the last value the condition read from the FIFO register; the value ~0 is an
  empty FIFO and the wait timed out.
\<close>

datatype wait_ev = WExiting | WSignal | WReg u32

fun fifo_loop :: "wait_ev list \<Rightarrow> u8 list \<Rightarrow> (errno + u8 list) option" where
  "fifo_loop evs buf =
     (if \<not> length buf < unat pspin_block_size then Some (Inr buf)
      else case evs of
        [] \<Rightarrow> None
      | WExiting # evs \<Rightarrow> Some (Inl EINTR)
      | WSignal # evs \<Rightarrow> Some (Inl ERESTARTSYS)
      | WReg reg # evs \<Rightarrow>
          if reg = - 1 then (if buf = [] then fifo_loop evs buf else Some (Inr buf))
          else fifo_loop evs (buf @ bytes32 reg))"

declare fifo_loop.simps [simp del]

definition overwrite :: "u8 list \<Rightarrow> u8 list \<Rightarrow> u8 list" where
  "overwrite old new = new @ drop (length new) old"

text \<open>
  \<open>pspin_read\<close>: the bytes given to the user (their number is the return value) or the error, the
  device and the new file position. \<open>None\<close> when the read does not return: it still waits for the
  FIFO after the given events, or the device was not opened.
\<close>

definition pspin_read ::
  "bool \<Rightarrow> bool \<Rightarrow> wait_ev list \<Rightarrow> pspin_cdev \<Rightarrow> app \<Rightarrow> u64 \<Rightarrow> u64
     \<Rightarrow> ((errno + u8 list) \<times> pspin_cdev \<times> u64) option" where
  "pspin_read lock_ok copy_ok evs dev a cnt f_pos =
     (if cd_type dev = TY_MEM \<and> in_reset a then Some (Inl EPERM, dev, f_pos)
      else if exiting dev then Some (Inl ENODEV, dev, f_pos)
      else if \<not> lock_ok then Some (Inl EINTR, dev, f_pos)
      else if cd_type dev = TY_MEM \<and> f_pos \<ge> pspin_mem_size then Some (Inr [], dev, f_pos)
      else case block_buffer dev of None \<Rightarrow> None | Some old \<Rightarrow>
        (case cd_type dev of
           TY_MEM \<Rightarrow>
             (let cnt = clamp_count f_pos cnt;
                  data = read_words ioread32 (unat cnt div 4) (unat f_pos) a;
                  dev = dev\<lparr>block_buffer := Some (overwrite old data)\<rparr>
              in if \<not> copy_ok then Some (Inl EFAULT, dev, f_pos)
                 else Some (Inr data, dev, f_pos + cnt))
         | TY_FIFO \<Rightarrow>
             (case fifo_loop evs [] of
                None \<Rightarrow> None
              | Some (Inl e) \<Rightarrow> Some (Inl e, dev, f_pos)
              | Some (Inr data) \<Rightarrow>
                  (let dev = dev\<lparr>block_buffer := Some (overwrite old data)\<rparr>
                   in if \<not> copy_ok then Some (Inl EFAULT, dev, f_pos)
                      else Some (Inr data, dev, f_pos)))))"

text \<open>\<open>pspin_write\<close> of the user's bytes; \<open>cnt\<close> is their number.\<close>

definition pspin_write ::
  "bool \<Rightarrow> bool \<Rightarrow> pspin_cdev \<Rightarrow> app \<Rightarrow> u8 list \<Rightarrow> u64 \<Rightarrow> u64
     \<Rightarrow> ((errno + u64) \<times> pspin_cdev \<times> app \<times> u64) option" where
  "pspin_write lock_ok copy_ok dev a buf cnt f_pos =
     (if cd_type dev = TY_FIFO then Some (Inl EINVAL, dev, a, f_pos)
      else if cd_type dev = TY_MEM \<and> in_reset a then Some (Inl EPERM, dev, a, f_pos)
      else if \<not> lock_ok then Some (Inl EINTR, dev, a, f_pos)
      else if f_pos \<ge> pspin_mem_size then Some (Inl EINVAL, dev, a, f_pos)
      else case block_buffer dev of None \<Rightarrow> None | Some old \<Rightarrow>
        (let cnt = clamp_count f_pos cnt
         in if \<not> copy_ok then Some (Inl EFAULT, dev, a, f_pos)
            else (let data = take (unat cnt) buf;
                      dev = dev\<lparr>block_buffer := Some (overwrite old data)\<rparr>
                  in Some (Inr cnt, dev, write_words iowrite32 data (unat f_pos) a, f_pos + cnt))))"

datatype whence = SEEK_SET | SEEK_CUR | SEEK_END | SEEK_OTHER

definition seek_bounds :: "u64 \<Rightarrow> u64 \<Rightarrow> (errno + u64) \<times> u64" where
  "seek_bounds newpos f_pos =
     (if sint newpos < 0 \<or> newpos > pspin_mem_size then (Inl EINVAL, f_pos)
      else (Inr newpos, newpos))"

definition pspin_llseek :: "pspin_cdev \<Rightarrow> app \<Rightarrow> u64 \<Rightarrow> whence \<Rightarrow> u64 \<Rightarrow> (errno + u64) \<times> u64" where
  "pspin_llseek dev a off whence f_pos =
     (if cd_type dev = TY_FIFO then (Inl EINVAL, f_pos)
      else if cd_type dev = TY_MEM \<and> in_reset a then (Inl EPERM, f_pos)
      else case whence of
        SEEK_SET \<Rightarrow>
          (let newpos = pspin_addr_to_corundum off
           in if sint newpos < 0 then (Inl EINVAL, f_pos) else seek_bounds newpos f_pos)
      | SEEK_CUR \<Rightarrow> seek_bounds (f_pos + off) f_pos
      | SEEK_END \<Rightarrow> seek_bounds (pspin_mem_size + off) f_pos
      | SEEK_OTHER \<Rightarrow> (Inl EINVAL, f_pos))"

section \<open>ioctl\<close>

text \<open>
  The commands of \<open>pspin_ioctl.h\<close> with the request part of \<open>struct pspin_ioctl_msg\<close>, and the
  response that is copied back.
\<close>

datatype ioctl_msg = PSPIN_HOSTDMA_QUERY s32 | PSPIN_HOST_WRITE u64 u64 | PSPIN_HOST_READ u64
  | PSPIN_IOCTL_OTHER

datatype ioctl_resp = resp_none | resp_area dma_area | resp_word u64

text \<open>
  \<open>copy_ok k\<close> says that the k-th user copy of the call succeeds. \<open>None\<close> when the handler indexes
  \<open>dma_areas\<close> with a negative context.
\<close>

definition pspin_ioctl ::
  "(nat \<Rightarrow> bool) \<Rightarrow> pspin_cdev \<Rightarrow> ioctl_msg \<Rightarrow> app \<Rightarrow> ((errno + ioctl_resp) \<times> app) option" where
  "pspin_ioctl copy_ok dev msg a =
     (if cd_type dev = TY_FIFO then Some (Inl ENOTTY, a)
      else case msg of
        PSPIN_HOSTDMA_QUERY ctx_id \<Rightarrow>
          if \<not> copy_ok 0 then Some (Inl EFAULT, a)
          else if sint ctx_id \<ge> int HER_NUM_HANDLER_CTX then Some (Inl EINVAL, a)
          else if sint ctx_id < 0 then None
          else if \<not> copy_ok 1 then Some (Inl EFAULT, a)
          else Some (Inr (resp_area (dma_areas a ! nat (sint ctx_id))), a)
      | PSPIN_HOST_WRITE addr data \<Rightarrow>
          if \<not> copy_ok 0 then Some (Inl EFAULT, a)
          else (let corundum_addr = pspin_addr_to_corundum addr
                in if sint corundum_addr < 0 then Some (Inl EFAULT, a)
                   else if \<not> copy_ok 1 then Some (Inl EFAULT, a)
                   else Some (Inr resp_none, iowrite64_lo_hi data (unat corundum_addr) a))
      | PSPIN_HOST_READ word \<Rightarrow>
          if \<not> copy_ok 0 then Some (Inl EFAULT, a)
          else (let corundum_addr = pspin_addr_to_corundum word
                in if sint corundum_addr < 0 then Some (Inl EFAULT, a)
                   else (let data = ioread64_lo_hi a (unat corundum_addr)
                         in if \<not> copy_ok 1 then Some (Inl EFAULT, a)
                            else Some (Inr (resp_word data), a)))
      | PSPIN_IOCTL_OTHER \<Rightarrow> Some (Inl ENOTTY, a))"

section \<open>Host DMA areas\<close>

definition PAGE_SIZE :: u64 where "PAGE_SIZE = 4096"

record vma =
  vm_start :: u64
  vm_end :: u64
  vm_pgoff :: u64
  vm_shared :: bool

text \<open>What the kernel answers during an \<open>mmap\<close>; \<open>dma_alloc\<close> is the CPU address and DMA handle.\<close>

record mmap_env =
  me_kzalloc_ok :: bool
  me_dma_alloc :: "(u64 \<times> u64) option"
  me_iomap_ok :: bool

definition upd_area :: "nat \<Rightarrow> (dma_area \<Rightarrow> dma_area) \<Rightarrow> app \<Rightarrow> app" where
  "upd_area i f a = a\<lparr>dma_areas := (dma_areas a)[i := f (dma_areas a ! i)]\<rparr>"

definition pspin_vma_open :: "nat \<Rightarrow> app \<Rightarrow> app" where
  "pspin_vma_open ctx_id a = upd_area ctx_id (\<lambda>ar. ar\<lparr>ref_count := ref_count ar + 1\<rparr>) a"

definition pspin_vma_may_split :: "errno + unit" where
  "pspin_vma_may_split = Inl EINVAL"

text \<open>A coherent allocation: CPU address, DMA handle and size.\<close>

type_synonym dma_buf = "u64 \<times> u64 \<times> u64"

definition area_buf :: "dma_area \<Rightarrow> dma_buf" where
  "area_buf ar = (cpu_addr ar, dma_handle ar, dma_size ar)"

text \<open>\<open>pspin_vma_close\<close>, with the buffer it gives to \<open>dma_free_coherent\<close>.\<close>

definition pspin_vma_close :: "nat \<Rightarrow> app \<Rightarrow> dma_buf option \<times> app" where
  "pspin_vma_close ctx_id a =
     (if ref_count (dma_areas a ! ctx_id) = 0 then (None, a)
      else (let a = upd_area ctx_id (\<lambda>ar. ar\<lparr>ref_count := ref_count ar - 1\<rparr>) a;
                area = dma_areas a ! ctx_id
            in if ref_count area = 0 \<and> enabled area
               then (Some (area_buf area), upd_area ctx_id (\<lambda>ar. ar\<lparr>enabled := False\<rparr>) a)
               else (None, a)))"

definition num_pages_requested :: "vma \<Rightarrow> s32" where
  "num_pages_requested v = ucast ((vm_end v - vm_start v) div PAGE_SIZE)"

definition mmap_ctx_id :: "vma \<Rightarrow> s32" where
  "mmap_ctx_id v = ucast (vm_pgoff v div scast (num_pages_requested v))"

text \<open>
  \<open>pspin_mmap\<close>: the context that is mapped or the error, with the buffer that was allocated, and
  the device. \<open>None\<close> when the page count truncated to \<open>int\<close> is zero, on which the source divides,
  and when the context truncated to \<open>int\<close> is negative, with which it indexes \<open>dma_areas\<close>.
\<close>

definition pspin_mmap ::
  "mmap_env \<Rightarrow> vma \<Rightarrow> app \<Rightarrow> ((errno + nat) \<times> dma_buf option \<times> app) option" where
  "pspin_mmap env v a =
     (if num_pages_requested v = 0 then None
      else if sint (mmap_ctx_id v) \<ge> int HER_NUM_HANDLER_CTX then Some (Inl EINVAL, None, a)
      else if \<not> vm_shared v then Some (Inl EINVAL, None, a)
      else if \<not> me_kzalloc_ok env then Some (Inl ENOMEM, None, a)
      else if sint (mmap_ctx_id v) < 0 then None
      else (let ctx_id = nat (sint (mmap_ctx_id v))
            in if enabled (dma_areas a ! ctx_id) then Some (Inl EAGAIN, None, a)
               else (let a = upd_area ctx_id
                       (\<lambda>ar. ar\<lparr>dma_size := scast (num_pages_requested v) * PAGE_SIZE\<rparr>) a
                     in case me_dma_alloc env of
                          None \<Rightarrow> Some (Inl ENOMEM, None, upd_area ctx_id (\<lambda>ar. ar\<lparr>cpu_addr := 0\<rparr>) a)
                        | Some (cpu, handle) \<Rightarrow>
                            (let a = upd_area ctx_id
                               (\<lambda>ar. ar\<lparr>cpu_addr := cpu, dma_handle := handle, enabled := True\<rparr>) a;
                                 buf = Some (area_buf (dma_areas a ! ctx_id))
                             in if \<not> me_iomap_ok env then Some (Inl EIO, buf, a)
                                else Some (Inr ctx_id, buf, pspin_vma_open ctx_id a)))))"

section \<open>Probe and removal\<close>

text \<open>
  The module's static variables, the device structure and the kernel objects it holds: the
  character device region, the class, the minors whose cdev and device exist, and the sysfs groups.
\<close>

record pspin_module =
  m_app :: app
  m_cdevs :: "pspin_cdev list"
  m_region :: bool
  m_class :: bool
  m_devices :: "nat list"
  m_groups :: "reg_group list"

text \<open>The kernel's answers during probe; \<open>None\<close> is success.\<close>

record probe_env =
  pe_regions_present :: bool
  pe_kzalloc_app :: bool
  pe_chrdev :: "errno option"
  pe_class :: "errno option"
  pe_kzalloc_cdevs :: bool
  pe_cdev_add :: "nat \<Rightarrow> errno option"
  pe_device_create :: "nat \<Rightarrow> errno option"
  pe_sysfs_create :: "reg_group \<Rightarrow> int"
  pe_add_action :: int

definition pspin_construct_device ::
  "probe_env \<Rightarrow> nat \<Rightarrow> pspin_module \<Rightarrow> errno option \<times> pspin_module" where
  "pspin_construct_device env minor m =
     (let m = m\<lparr>m_cdevs := (m_cdevs m)[minor := \<lparr>cd_type = (if minor = 0 then TY_MEM else TY_FIFO),
            block_buffer = None, exiting = False\<rparr>]\<rparr>
      in case pe_cdev_add env minor of
           Some err \<Rightarrow> (Some err, m)
         | None \<Rightarrow>
             (case pe_device_create env minor of
                Some err \<Rightarrow> (Some err, m)
              | None \<Rightarrow> (None, m\<lparr>m_devices := m_devices m @ [minor]\<rparr>)))"

definition pspin_destroy_device :: "nat \<Rightarrow> pspin_module \<Rightarrow> pspin_module" where
  "pspin_destroy_device minor m =
     m\<lparr>m_cdevs := (m_cdevs m)[minor := (m_cdevs m ! minor)\<lparr>exiting := True\<rparr>],
       m_devices := removeAll minor (m_devices m)\<rparr>"

definition pspin_cleanup_chrdev :: "nat \<Rightarrow> pspin_module \<Rightarrow> pspin_module" where
  "pspin_cleanup_chrdev devices_to_destroy m =
     (let m = (if m_cdevs m \<noteq> [] then fold pspin_destroy_device [0..<devices_to_destroy] m else m)
      in m\<lparr>m_class := False, m_region := False\<rparr>)"

text \<open>The loop over the minors: the error, the number of devices to destroy, and the state.\<close>

fun construct_devices ::
  "probe_env \<Rightarrow> nat list \<Rightarrow> pspin_module \<Rightarrow> errno option \<times> nat \<times> pspin_module" where
  "construct_devices env [] m = (None, pspin_ndevices, m)"
| "construct_devices env (i # is) m =
     (case pspin_construct_device env i m of
        (Some err, m) \<Rightarrow> (Some err, i, m)
      | (None, m) \<Rightarrow> construct_devices env is m)"

definition REG_ADDR :: "string \<Rightarrow> nat \<Rightarrow> u32" where
  "REG_ADDR name i = (case find_attr name i of Some attr \<Rightarrow> ATTR_REG_ADDR attr | None \<Rightarrow> 0)"

definition reset_me_bypass :: "app \<Rightarrow> app" where
  "reset_me_bypass a =
     fold (\<lambda>i. reg_write (htonl 1) (REG_ADDR ''me/start'' i)) [0..<UMATCH_RULESETS * UMATCH_ENTRIES] a"

definition zero_area :: dma_area where
  "zero_area = \<lparr>cpu_addr = 0, dma_handle = 0, dma_size = 0, enabled = False, ref_count = 0\<rparr>"

definition zero_cdev :: pspin_cdev where
  "zero_cdev = \<lparr>cd_type = TY_MEM, block_buffer = None, exiting = False\<rparr>"

text \<open>
  \<open>mqnic_app_pspin_probe\<close>. The structure is allocated zeroed; what the registers and the NIC
  memory hold is what the device powers up with.
\<close>

definition probe_app :: "app \<Rightarrow> app" where
  "probe_app a = a\<lparr>in_reset := True, in_her_conf := True, in_me_conf := True,
     dma_areas := replicate HER_NUM_HANDLER_CTX zero_area\<rparr>"

definition probe_start :: "app \<Rightarrow> app" where
  "probe_start a =
     (let a = (reg_write 0 (REG_ADDR ''cl/ctrl'' 1) a)\<lparr>in_reset := False\<rparr>;
          a = reset_me_bypass a
      in (reg_write 1 (REG_ADDR ''me/valid'' 0) a)\<lparr>in_me_conf := False\<rparr>)"

definition mqnic_app_pspin_probe :: "probe_env \<Rightarrow> pspin_module \<Rightarrow> errno option \<times> pspin_module" where
  "mqnic_app_pspin_probe env m =
     (if \<not> pe_regions_present env then (Some EIO, m)
      else if \<not> pe_kzalloc_app env then (Some ENOMEM, m)
      else (let m = m\<lparr>m_app := probe_app (m_app m)\<rparr>
            in case pe_chrdev env of
              Some err \<Rightarrow> (Some err, m)
            | None \<Rightarrow>
               (let m = m\<lparr>m_region := True\<rparr>
                in case pe_class env of
                  Some err \<Rightarrow> (Some err, pspin_cleanup_chrdev 0 m)
                | None \<Rightarrow>
                   (let m = m\<lparr>m_class := True\<rparr>
                    in if \<not> pe_kzalloc_cdevs env
                       then (Some ENOMEM, pspin_cleanup_chrdev 0 (m\<lparr>m_cdevs := []\<rparr>))
                       else (let m = m\<lparr>m_cdevs := replicate pspin_ndevices zero_cdev\<rparr>
                             in case construct_devices env [0..<pspin_ndevices] m of
                               (Some err, n, m) \<Rightarrow> (Some err, pspin_cleanup_chrdev n m)
                             | (None, n, m) \<Rightarrow>
                                (case init_pspin_sysfs (pe_sysfs_create env) (pe_add_action env) of
                                   (err, made) \<Rightarrow>
                                     (let m = m\<lparr>m_groups := made\<rparr>
                                      in if err \<noteq> 0 then (Some (EOTHER err), pspin_cleanup_chrdev n m)
                                         else (None, m\<lparr>m_app := probe_start (m_app m)\<rparr>))))))))"

definition mqnic_app_pspin_remove :: "pspin_module \<Rightarrow> pspin_module" where
  "mqnic_app_pspin_remove m = pspin_cleanup_chrdev pspin_ndevices m"

section \<open>The driver as a transition system\<close>

text \<open>
  The driver state together with the mappings that user processes hold, by context, and the
  coherent buffers that are allocated. The events are the driver's entry points that change the
  device, with the arguments the kernel passes; \<open>EvFork\<close> and \<open>EvClose\<close> are the duplication and the
  removal of an existing mapping.
\<close>

record driver =
  d_app :: app
  d_vmas :: "nat list"
  d_live :: "dma_buf list"

datatype driver_event =
    EvStore nat string
  | EvWrite bool bool pspin_cdev "u8 list" u64 u64
  | EvIoctl "nat \<Rightarrow> bool" pspin_cdev ioctl_msg
  | EvMmap mmap_env vma
  | EvFork nat
  | EvClose nat

fun driver_exec :: "driver_event \<Rightarrow> driver \<Rightarrow> driver option" where
  "driver_exec (EvStore i buf) d =
     (if i < length all_attrs \<and> pa_store (all_attrs ! i)
      then Some (d\<lparr>d_app := snd (pspin_reg_store (all_attrs ! i) buf (d_app d))\<rparr>)
      else None)"
| "driver_exec (EvWrite lock_ok copy_ok dev buf cnt f_pos) d =
     (case pspin_write lock_ok copy_ok dev (d_app d) buf cnt f_pos of
        None \<Rightarrow> None
      | Some (r, dev', a, f_pos') \<Rightarrow> Some (d\<lparr>d_app := a\<rparr>))"
| "driver_exec (EvIoctl copy_ok dev msg) d =
     (case pspin_ioctl copy_ok dev msg (d_app d) of
        None \<Rightarrow> None
      | Some (r, a) \<Rightarrow> Some (d\<lparr>d_app := a\<rparr>))"
| "driver_exec (EvMmap env v) d =
     (case pspin_mmap env v (d_app d) of
        None \<Rightarrow> None
      | Some (r, buf, a) \<Rightarrow>
          Some \<lparr>d_app = a,
            d_vmas = (case r of Inl _ \<Rightarrow> d_vmas d | Inr ctx_id \<Rightarrow> ctx_id # d_vmas d),
            d_live = (case buf of None \<Rightarrow> d_live d | Some b \<Rightarrow> b # d_live d)\<rparr>)"
| "driver_exec (EvFork ctx_id) d =
     (if ctx_id \<in> set (d_vmas d)
      then Some (d\<lparr>d_app := pspin_vma_open ctx_id (d_app d), d_vmas := ctx_id # d_vmas d\<rparr>)
      else None)"
| "driver_exec (EvClose ctx_id) d =
     (if ctx_id \<in> set (d_vmas d)
      then (case pspin_vma_close ctx_id (d_app d) of
              (freed, a) \<Rightarrow>
                Some \<lparr>d_app = a, d_vmas = remove1 ctx_id (d_vmas d),
                  d_live = (case freed of None \<Rightarrow> d_live d | Some b \<Rightarrow> remove1 b (d_live d))\<rparr>)
      else None)"

section \<open>Address translation and file positions\<close>

lemmas pspin_region_defs = CHECK_RANGE_def PSPIN_PROG_BASE_def PSPIN_PROG_SIZE_def
  PSPIN_HND_BASE_def PSPIN_HND_SIZE_def

lemma word_sub_bound:
  assumes "b \<le> x" "x < b + n" "unat b + unat n < 2 ^ LENGTH('a)"
  shows "unat (x - b :: 'a::len word) < unat n"
proof -
  have "unat (b + n) = unat b + unat n" using assms(3) by (simp add: unat_word_ariths)
  with assms(2) have "unat x < unat b + unat n" by (simp add: word_less_nat_alt)
  with assms(1) show ?thesis by (simp add: unat_sub word_le_nat_alt)
qed

lemma addr_to_corundum_cases:
  obtains (prog) "pspin_addr_to_corundum x = x - PSPIN_PROG_BASE + 0x400000"
      "unat (pspin_addr_to_corundum x) = unat x - 0x1d000000 + 0x400000"
      "0x1d000000 \<le> unat x" "unat x < 0x1d008000"
    | (hnd) "pspin_addr_to_corundum x = x - PSPIN_HND_BASE"
      "unat (pspin_addr_to_corundum x) = unat x - 0x1c000000"
      "0x1c000000 \<le> unat x" "unat x < 0x1c100000"
    | (hole) "pspin_addr_to_corundum x = - 1"
      "\<not> (0x1d000000 \<le> unat x \<and> unat x < 0x1d008000)"
      "\<not> (0x1c000000 \<le> unat x \<and> unat x < 0x1c100000)"
proof -
  note defs = pspin_region_defs pspin_addr_to_corundum_def word_le_nat_alt word_less_nat_alt
  consider "CHECK_RANGE x PSPIN_PROG_BASE PSPIN_PROG_SIZE"
    | "\<not> CHECK_RANGE x PSPIN_PROG_BASE PSPIN_PROG_SIZE" "CHECK_RANGE x PSPIN_HND_BASE PSPIN_HND_SIZE"
    | "\<not> CHECK_RANGE x PSPIN_PROG_BASE PSPIN_PROG_SIZE" "\<not> CHECK_RANGE x PSPIN_HND_BASE PSPIN_HND_SIZE"
    by blast
  then show thesis
  proof cases
    case 1
    then have u: "0x1d000000 \<le> unat x" "unat x < 0x1d008000" by (simp_all add: defs)
    then have "unat (x - 0x1d000000 + 0x400000) = unat x - 0x1d000000 + 0x400000"
      by (simp add: unat_sub word_le_nat_alt)
    with u 1 show ?thesis
      by (intro prog) (simp_all add: pspin_addr_to_corundum_def PSPIN_PROG_BASE_def)
  next
    case 2
    then have u: "0x1c000000 \<le> unat x" "unat x < 0x1c100000" by (simp_all add: defs)
    then have "unat (x - 0x1c000000) = unat x - 0x1c000000"
      by (simp add: unat_sub word_le_nat_alt)
    with u 2 show ?thesis
      by (intro hnd) (simp_all add: pspin_addr_to_corundum_def PSPIN_HND_BASE_def)
  next
    case 3
    then show ?thesis by (intro hole) (auto simp: defs)
  qed
qed

lemma sint_neg_iff: "sint (w :: u64) < 0 \<longleftrightarrow> 2 ^ 63 \<le> unat w"
proof -
  have "sint w < 0 \<longleftrightarrow> bit (unat w) 63"
    using bit_last_iff [of w] by (simp add: bit_unsigned_iff)
  also have "\<dots> \<longleftrightarrow> odd (unat w div 2 ^ 63)" by (simp only: bit_iff_odd)
  also have "\<dots> \<longleftrightarrow> 2 ^ 63 \<le> unat w"
  proof (cases "2 ^ 63 \<le> unat w")
    case True
    moreover have "unat w < 2 ^ 64" using unsigned_less [of w, where ?'a = nat] by simp
    ultimately have "unat w div 2 ^ 63 = 1" by (intro div_nat_eqI) simp_all
    with True show ?thesis by simp
  qed simp
  finally show ?thesis .
qed

lemma addr_to_corundum_nonneg:
  assumes "\<not> sint (pspin_addr_to_corundum x) < 0"
  shows "unat (pspin_addr_to_corundum x) < 0x408000"
  using assms by (cases x rule: addr_to_corundum_cases) simp_all

lemma addr_to_corundum_nic_mem:
  assumes "\<not> sint (pspin_addr_to_corundum x) < 0"
  shows "nic_mem (unat (pspin_addr_to_corundum x))"
  using assms by (cases x rule: addr_to_corundum_cases) (auto simp: nic_mem_def pspin_region_defs)

lemma in_nic_mem_bytes:
  assumes "0 < n" shows "in_nic_mem p n \<longleftrightarrow> (\<forall>i < n. nic_mem (p + i)) \<and> n \<le> 0x100000"
proof
  assume "in_nic_mem p n"
  then show "(\<forall>i < n. nic_mem (p + i)) \<and> n \<le> 0x100000"
    by (auto simp: in_nic_mem_def nic_mem_def pspin_region_defs)
next
  assume r: "(\<forall>i < n. nic_mem (p + i)) \<and> n \<le> 0x100000"
  from r assms have "nic_mem (p + 0)" by blast
  moreover from r have "n - 1 < n \<longrightarrow> nic_mem (p + (n - 1))" by blast
  ultimately show "in_nic_mem p n"
    using r assms by (auto simp: in_nic_mem_def nic_mem_def pspin_region_defs)
qed

text \<open>
  Property C6. Translation of PsPIN addresses to offsets in the device window: a translated
  address lies inside the window that read and write accept, and no two PsPIN addresses get the
  same offset, so the program and the handler memory never overlap.
\<close>

theorem addr_to_corundum_injective:
  assumes "\<not> sint (pspin_addr_to_corundum x) < 0" "\<not> sint (pspin_addr_to_corundum y) < 0"
  shows "pspin_addr_to_corundum x < pspin_mem_size
    \<and> (pspin_addr_to_corundum x = pspin_addr_to_corundum y \<longleftrightarrow> x = y)"
proof
  show "pspin_addr_to_corundum x < pspin_mem_size"
    using addr_to_corundum_nonneg [OF assms(1)] by (simp add: pspin_mem_size_def word_less_nat_alt)
  have "x = y" if "unat (pspin_addr_to_corundum x) = unat (pspin_addr_to_corundum y)"
    using that assms by (cases x rule: addr_to_corundum_cases; cases y rule: addr_to_corundum_cases)
      (simp_all add: word_unat_eq_iff)
  then show "pspin_addr_to_corundum x = pspin_addr_to_corundum y \<longleftrightarrow> x = y" by auto
qed

theorem addr_to_corundum_injective_witness:
  "\<not> sint (pspin_addr_to_corundum 0x1d000000) < 0 \<and> \<not> sint (pspin_addr_to_corundum 0x1c000010) < 0
   \<and> pspin_addr_to_corundum 0x1d000000 \<noteq> pspin_addr_to_corundum 0x1c000010"
proof -
  have x: "\<not> sint (pspin_addr_to_corundum 0x1d000000) < 0" by code_simp
  have y: "\<not> sint (pspin_addr_to_corundum 0x1c000010) < 0" by code_simp
  show ?thesis using addr_to_corundum_injective [OF x y] x y by simp
qed

section \<open>Reading and writing NIC memory\<close>

interpretation nic_port: word_port pmem ioread32 iowrite32
proof
  show "bytes32 (ioread32 s p) = get_bytes (pmem s) p 4" for s p
    by (simp add: ioread32_def get_bytes_def upt_rec numeral_eq_Suc)
qed (simp add: iowrite32_def)

lemma unat_round_down_4: "unat (w AND NOT 3) = 4 * (unat w div 4)" for w :: u64
proof -
  have m: "(3 :: u64) = mask 2" by (simp add: mask_eq_exp_minus_1)
  have "(w AND NOT (mask 2)) + (w AND mask 2) = (w AND NOT (mask 2)) OR (w AND mask 2)"
    by (rule disjunctive_add_eq_or) (rule bit_word_eqI, auto simp: bit_simps)
  also have "\<dots> = w" by (rule bit_word_eqI) (auto simp: bit_simps)
  finally have "w AND NOT (mask 2) = w - (w AND mask 2)" by (simp only: eq_diff_eq)
  moreover have "w AND mask 2 \<le> w" by (rule word_and_le2)
  ultimately have "unat (w AND NOT (mask 2)) = unat w - unat w mod 4"
    by (simp only: unat_sub_le unat_and_mask) simp
  then show ?thesis by (simp only: m minus_mod_eq_mult_div)
qed

text \<open>Linux passes at most \<open>MAX_RW_COUNT\<close> bytes to a read or write.\<close>

definition MAX_RW_COUNT :: u64 where "MAX_RW_COUNT = 0x7ffff000"

lemma unat_clamp_count:
  assumes "f_pos < pspin_mem_size" "cnt \<le> MAX_RW_COUNT"
  shows "unat (clamp_count f_pos cnt)
    = 4 * (min (unat cnt) (min 4096 (0x800000 - unat f_pos)) div 4)"
proof -
  have f: "unat f_pos < 0x800000" and c: "unat cnt \<le> 0x7ffff000"
    using assms by (simp_all add: pspin_mem_size_def MAX_RW_COUNT_def word_less_nat_alt word_le_nat_alt)
  have sum: "unat (f_pos + cnt) = unat f_pos + unat cnt" using f c by (simp add: unat_word_ariths)
  have dif: "unat (0x800000 - f_pos) = 0x800000 - unat f_pos"
    using f by (subst unat_sub_le) (simp_all add: word_le_nat_alt)
  define c1 where "c1 = (if f_pos + cnt > 0x800000 then 0x800000 - f_pos else cnt)"
  define c2 where "c2 = (if c1 > 4096 then 4096 else c1)"
  have "unat c1 = min (unat cnt) (0x800000 - unat f_pos)"
    using f by (auto simp: c1_def word_less_nat_alt sum dif min_def)
  then have "unat c2 = min (unat cnt) (min 4096 (0x800000 - unat f_pos))"
    by (simp add: c2_def word_less_nat_alt min_def)
  moreover have "clamp_count f_pos cnt = c2 AND NOT 3"
    by (simp add: clamp_count_def Let_def c1_def c2_def pspin_mem_size_def pspin_block_size_def)
  ultimately show ?thesis by (simp only: unat_round_down_4)
qed

lemma times_div_4_le: "4 * (n div 4) \<le> (n :: nat)"
  by (rule times_div_less_eq_dividend)

lemma clamp_count_bound:
  assumes "f_pos < pspin_mem_size" "cnt \<le> MAX_RW_COUNT"
  shows "unat (clamp_count f_pos cnt) \<le> unat cnt" "unat (clamp_count f_pos cnt) \<le> 4096"
    "unat f_pos + unat (clamp_count f_pos cnt) \<le> 0x800000"
    "f_pos + clamp_count f_pos cnt \<le> pspin_mem_size"
proof -
  have f: "unat f_pos < 0x800000"
    using assms(1) by (simp add: pspin_mem_size_def word_less_nat_alt)
  show "unat (clamp_count f_pos cnt) \<le> unat cnt" "unat (clamp_count f_pos cnt) \<le> 4096"
    and b: "unat f_pos + unat (clamp_count f_pos cnt) \<le> 0x800000"
    using f times_div_4_le [of "min (unat cnt) (min 4096 (0x800000 - unat f_pos))"]
    unfolding unat_clamp_count [OF assms] by linarith+
  then show "f_pos + clamp_count f_pos cnt \<le> pspin_mem_size"
    by (simp add: pspin_mem_size_def word_le_nat_alt unat_word_ariths)
qed

lemma clamp_count_idem:
  assumes "f_pos < pspin_mem_size" "cnt \<le> MAX_RW_COUNT"
  shows "clamp_count f_pos (clamp_count f_pos cnt) = clamp_count f_pos cnt"
proof -
  let ?m = "min 4096 (0x800000 - unat f_pos)"
  have le: "clamp_count f_pos cnt \<le> MAX_RW_COUNT"
    using clamp_count_bound(2) [OF assms] by (simp add: MAX_RW_COUNT_def word_le_nat_alt)
  have "4 * (min (unat cnt) ?m div 4) \<le> ?m"
    by (rule order_trans [OF times_div_4_le min.cobounded2])
  then have eq: "min (4 * (min (unat cnt) ?m div 4)) ?m = 4 * (min (unat cnt) ?m div 4)"
    by (rule min.absorb1)
  have "4 * (4 * k div 4) = 4 * k" for k :: nat by simp
  then have "unat (clamp_count f_pos (clamp_count f_pos cnt)) = unat (clamp_count f_pos cnt)"
    by (simp only: unat_clamp_count [OF assms] unat_clamp_count [OF assms(1) le] eq)
  then show ?thesis by (simp only: word_unat_eq_iff)
qed

lemma clamp_count_dvd: "4 dvd unat (clamp_count f_pos cnt)"
proof -
  have "clamp_count f_pos cnt = (let c = (if f_pos + cnt > pspin_mem_size then pspin_mem_size - f_pos else cnt)
      in if c > pspin_block_size then pspin_block_size else c) AND NOT 3"
    by (simp only: clamp_count_def Let_def)
  then show ?thesis by (simp only: unat_round_down_4 dvd_triv_left)
qed

lemma app_pmem_self: "\<exists>m. s = s\<lparr>pmem := m\<rparr>" for s :: app
  by (rule exI [of _ "pmem s"]) simp

lemma iowrite32_pmem: "\<exists>m. iowrite32 v p s = s\<lparr>pmem := m\<rparr>"
  by (auto simp: iowrite32_def)

lemma write_words_frame:
  assumes "\<And>v p s. \<exists>m. wr v p s = s\<lparr>pmem := m\<rparr>"
  shows "\<exists>m. write_words wr bs p (a :: app) = a\<lparr>pmem := m\<rparr>"
  using assms
proof (induction wr bs p a rule: write_words.induct)
  case (1 wr b0 b1 b2 b3 bs p a)
  from "1.prems" [of "le32 b0 b1 b2 b3" p a] obtain m
    where m: "wr (le32 b0 b1 b2 b3) p a = a\<lparr>pmem := m\<rparr>" by auto
  with "1.IH" [OF "1.prems"] show ?case by simp
qed (simp_all add: app_pmem_self)

lemma iowrite_words_frame: "\<exists>m. write_words iowrite32 bs p a = a\<lparr>pmem := m\<rparr>"
  by (rule write_words_frame) (rule iowrite32_pmem)

definition mem_ready :: "pspin_cdev \<Rightarrow> app \<Rightarrow> bool" where
  "mem_ready dev a \<longleftrightarrow> cd_type dev = TY_MEM \<and> \<not> exiting dev \<and> block_buffer dev \<noteq> None \<and> \<not> in_reset a"

lemma pspin_write_ready:
  assumes "mem_ready dev a" "f_pos < pspin_mem_size"
  shows "\<exists>dev'. mem_ready dev' a \<and> pspin_write True True dev a buf cnt f_pos
    = Some (Inr (clamp_count f_pos cnt), dev',
        write_words iowrite32 (take (unat (clamp_count f_pos cnt)) buf) (unat f_pos) a,
        f_pos + clamp_count f_pos cnt)"
proof -
  from assms obtain old where "block_buffer dev = Some old" by (auto simp: mem_ready_def)
  with assms show ?thesis
    by (intro exI [of _ "dev\<lparr>block_buffer
        := Some (overwrite old (take (unat (clamp_count f_pos cnt)) buf))\<rparr>"])
      (simp add: pspin_write_def mem_ready_def Let_def)
qed

lemma pspin_read_ready:
  assumes "mem_ready dev a" "f_pos < pspin_mem_size"
  shows "\<exists>dev'. pspin_read True True evs dev a cnt f_pos
    = Some (Inr (get_bytes (pmem a) (unat f_pos) (unat (clamp_count f_pos cnt))), dev',
        f_pos + clamp_count f_pos cnt)"
proof -
  have "4 * (unat (clamp_count f_pos cnt) div 4) = unat (clamp_count f_pos cnt)"
    using clamp_count_dvd by (rule dvd_mult_div_cancel)
  then show ?thesis
    using assms by (auto simp: pspin_read_def mem_ready_def Let_def nic_port.read_words_view)
qed

text \<open>
  Property C7. A write to the memory device accepts a prefix of the data, never more than was
  given, one block, or what fits into the window, cut to whole words, and advances the position by
  that much. When the accepted bytes lie in one of the two memories, they are stored, nothing else
  of the device changes, and a read of that many bytes at the old position gives them back. For an
  access to a hole of the window nothing is claimed of what is stored.
\<close>

theorem mem_write_read_roundtrip:
  assumes "mem_ready dev a" "f_pos < pspin_mem_size" "length buf = unat cnt" "cnt \<le> MAX_RW_COUNT"
  shows "\<exists>n dev' a' f_pos'. pspin_write True True dev a buf cnt f_pos = Some (Inr n, dev', a', f_pos')
    \<and> unat n = 4 * (min (unat cnt) (min 4096 (0x800000 - unat f_pos)) div 4)
    \<and> f_pos' = f_pos + n \<and> f_pos' \<le> pspin_mem_size
    \<and> (in_nic_mem (unat f_pos) (unat n) \<longrightarrow>
         a' = a\<lparr>pmem := put_bytes (pmem a) (unat f_pos) (take (unat n) buf)\<rparr>
         \<and> (\<exists>dev''. pspin_read True True evs dev' a' n f_pos = Some (Inr (take (unat n) buf), dev'', f_pos')))"
proof -
  let ?n = "clamp_count f_pos cnt"
  let ?data = "take (unat ?n) buf"
  have len: "length ?data = unat ?n"
    using clamp_count_bound(1) [OF assms(2,4)] assms(3) by simp
  define a' where "a' = write_words iowrite32 ?data (unat f_pos) a"
  have pm: "pmem a' = put_bytes (pmem a) (unat f_pos) ?data"
    using nic_port.write_words_view len clamp_count_dvd unfolding a'_def by metis
  then have a': "a' = a\<lparr>pmem := put_bytes (pmem a) (unat f_pos) ?data\<rparr>"
    using iowrite_words_frame [of ?data "unat f_pos" a] unfolding a'_def by auto
  obtain dev' where w: "pspin_write True True dev a buf cnt f_pos = Some (Inr ?n, dev', a', f_pos + ?n)"
    and "mem_ready dev' a"
    using pspin_write_ready [OF assms(1,2), of buf cnt] unfolding a'_def by auto
  then have "mem_ready dev' a'" by (simp add: mem_ready_def a')
  then obtain dev'' where "pspin_read True True evs dev' a' ?n f_pos
      = Some (Inr (get_bytes (pmem a') (unat f_pos) (unat ?n)), dev'', f_pos + ?n)"
    using pspin_read_ready [OF _ assms(2), of dev' a' evs ?n] clamp_count_idem [OF assms(2,4)] by auto
  moreover have "get_bytes (pmem a') (unat f_pos) (unat ?n) = ?data"
    using get_put_bytes [of "pmem a" "unat f_pos" ?data] len pm by simp
  ultimately have "\<exists>dev''. pspin_read True True evs dev' a' ?n f_pos = Some (Inr ?data, dev'', f_pos + ?n)"
    by auto
  with w a' unat_clamp_count [OF assms(2,4)] clamp_count_bound(4) [OF assms(2,4)] show ?thesis
    by metis
qed

definition example_dev :: pspin_cdev where
  "example_dev = \<lparr>cd_type = TY_MEM, block_buffer = Some (replicate 4096 0), exiting = False\<rparr>"

theorem mem_write_read_roundtrip_witness:
  "mem_ready example_dev example_app \<and> in_nic_mem 0x400000 4
   \<and> (\<exists>dev' a' dev''. pspin_write True True example_dev example_app [1, 2, 3, 4, 5] 5 0x400000
        = Some (Inr 4, dev', a', 0x400004)
      \<and> pspin_read True True [] dev' a' 4 0x400000 = Some (Inr [1, 2, 3, 4], dev'', 0x400004))"
proof -
  have r: "mem_ready example_dev example_app"
    by (simp add: mem_ready_def example_dev_def example_app_def)
  have p: "(0x400000 :: u64) < pspin_mem_size" by (simp add: pspin_mem_size_def)
  have l: "length [1, 2, 3, 4, 5 :: u8] = unat (5 :: u64)" by simp
  have c: "(5 :: u64) \<le> MAX_RW_COUNT" by (simp add: MAX_RW_COUNT_def)
  have m: "in_nic_mem 0x400000 4" by (simp add: in_nic_mem_def pspin_region_defs)
  obtain n dev' a' f_pos' where
      w: "pspin_write True True example_dev example_app [1, 2, 3, 4, 5] 5 0x400000 = Some (Inr n, dev', a', f_pos')"
    and n: "unat n = 4 * (min (unat (5 :: u64)) (min 4096 (0x800000 - unat (0x400000 :: u64))) div 4)"
    and f: "f_pos' = 0x400000 + n"
    and r': "in_nic_mem (unat (0x400000 :: u64)) (unat n) \<longrightarrow>
      (\<exists>dev''. pspin_read True True [] dev' a' n 0x400000 = Some (Inr (take (unat n) [1, 2, 3, 4, 5]), dev'', f_pos'))"
    using mem_write_read_roundtrip [OF r p l c, of "[]"] by blast
  from n have n4: "n = 4" by (simp add: word_unat_eq_iff)
  with r' m obtain dev'' where "pspin_read True True [] dev' a' 4 0x400000 = Some (Inr [1, 2, 3, 4], dev'', f_pos')"
    by auto
  with n4 w f r m show ?thesis by auto
qed

section \<open>File positions\<close>

text \<open>The operations on one open file, as events on the device and the file position.\<close>

datatype file_op = OpRead bool bool "wait_ev list" u64
  | OpWrite bool bool "u8 list" u64
  | OpSeek u64 whence

type_synonym file_state = "pspin_cdev \<times> app \<times> u64"

fun file_exec :: "file_op \<Rightarrow> file_state \<Rightarrow> file_state option" where
  "file_exec (OpRead lock_ok copy_ok evs cnt) (dev, a, f_pos) =
     map_option (\<lambda>(r, dev', p). (dev', a, p)) (pspin_read lock_ok copy_ok evs dev a cnt f_pos)"
| "file_exec (OpWrite lock_ok copy_ok buf cnt) (dev, a, f_pos) =
     map_option (\<lambda>(r, dev', a', p). (dev', a', p)) (pspin_write lock_ok copy_ok dev a buf cnt f_pos)"
| "file_exec (OpSeek off wh) (dev, a, f_pos) = Some (dev, a, snd (pspin_llseek dev a off wh f_pos))"

fun file_allowed :: "file_state \<Rightarrow> file_op \<Rightarrow> bool" where
  "file_allowed s (OpRead lock_ok copy_ok evs cnt) \<longleftrightarrow> cnt \<le> MAX_RW_COUNT"
| "file_allowed s (OpWrite lock_ok copy_ok buf cnt) \<longleftrightarrow> cnt \<le> MAX_RW_COUNT"
| "file_allowed s (OpSeek off wh) \<longleftrightarrow> True"

text \<open>
  Two states of the device that differ at most in bytes of the window: flags, DMA areas and
  registers are the same, and so is every byte from 0x800000 on, where the registers are.
\<close>

definition same_beyond_window :: "app \<Rightarrow> app \<Rightarrow> bool" where
  "same_beyond_window a a' \<longleftrightarrow> a' = a\<lparr>pmem := pmem a'\<rparr> \<and> (\<forall>x \<ge> 0x800000. pmem a' x = pmem a x)"

lemma same_beyond_window_refl: "same_beyond_window a a"
  by (simp add: same_beyond_window_def)

lemma same_beyond_window_trans:
  assumes "same_beyond_window a b" "same_beyond_window b c" shows "same_beyond_window a c"
  using assms unfolding same_beyond_window_def by (metis app.update_convs(6) app.surjective app.select_convs(6))

lemma write_words_outside:
  assumes "\<not> (p \<le> x \<and> x < p + length bs)"
  shows "pmem (write_words iowrite32 bs p a) x = pmem a x"
  using assms
proof (induction "iowrite32 :: u32 \<Rightarrow> nat \<Rightarrow> app \<Rightarrow> app" bs p a rule: write_words.induct)
  case (1 b0 b1 b2 b3 bs p a)
  then have "pmem (write_words iowrite32 bs (p + 4) (iowrite32 (le32 b0 b1 b2 b3) p a)) x
      = pmem (iowrite32 (le32 b0 b1 b2 b3) p a) x" by (intro "1.hyps") auto
  with "1.prems" show ?case by (auto simp: iowrite32_def put_bytes_apply)
qed simp_all

definition file_inv :: "app \<Rightarrow> file_state \<Rightarrow> bool" where
  "file_inv a0 = (\<lambda>(dev, a, f_pos). f_pos \<le> pspin_mem_size \<and> same_beyond_window a0 a)"

lemma pspin_read_pos:
  assumes "pspin_read lock_ok copy_ok evs dev a cnt f_pos = Some (r, dev', p)"
    and "f_pos \<le> pspin_mem_size" "cnt \<le> MAX_RW_COUNT"
  shows "p \<le> pspin_mem_size"
  using assms clamp_count_bound(4) [OF _ assms(3), of f_pos]
  by (auto simp: pspin_read_def Let_def not_le split: if_splits option.splits cdev_type.splits sum.splits)

lemma pspin_write_pos:
  assumes "pspin_write lock_ok copy_ok dev a buf cnt f_pos = Some (r, dev', a', p)"
    and "f_pos \<le> pspin_mem_size" "cnt \<le> MAX_RW_COUNT"
  shows "p \<le> pspin_mem_size" "same_beyond_window a a'"
proof -
  let ?bs = "take (unat (clamp_count f_pos cnt)) buf"
  have "same_beyond_window a (write_words iowrite32 ?bs (unat f_pos) a)" if "f_pos < pspin_mem_size"
  proof -
    have "unat f_pos + length ?bs \<le> 0x800000"
      using clamp_count_bound(3) [OF that assms(3)] by simp
    moreover obtain m where "write_words iowrite32 ?bs (unat f_pos) a = a\<lparr>pmem := m\<rparr>"
      using iowrite_words_frame by blast
    ultimately show ?thesis
      using write_words_outside [of "unat f_pos" _ ?bs a] by (auto simp: same_beyond_window_def)
  qed
  then show "p \<le> pspin_mem_size" "same_beyond_window a a'"
    using assms clamp_count_bound(4) [OF _ assms(3), of f_pos] same_beyond_window_refl
    by (auto simp: pspin_write_def Let_def not_le split: if_splits option.splits)
qed

text \<open>A read takes its bytes from the window alone.\<close>

lemma pspin_read_window:
  assumes "\<forall>x < 0x800000. m x = pmem a x" "cnt \<le> MAX_RW_COUNT"
  shows "pspin_read lock_ok copy_ok evs dev (a\<lparr>pmem := m\<rparr>) cnt f_pos
    = pspin_read lock_ok copy_ok evs dev a cnt f_pos"
proof (cases "f_pos < pspin_mem_size")
  case True
  have d: "4 * (unat (clamp_count f_pos cnt) div 4) = unat (clamp_count f_pos cnt)"
    using clamp_count_dvd by (rule dvd_mult_div_cancel)
  have "get_bytes m (unat f_pos) (unat (clamp_count f_pos cnt))
      = get_bytes (pmem a) (unat f_pos) (unat (clamp_count f_pos cnt))"
    using clamp_count_bound(3) [OF True assms(2)] assms(1) by (auto simp: get_bytes_def)
  then have "read_words ioread32 (unat (clamp_count f_pos cnt) div 4) (unat f_pos) (a\<lparr>pmem := m\<rparr>)
      = read_words ioread32 (unat (clamp_count f_pos cnt) div 4) (unat f_pos) a"
    by (simp add: nic_port.read_words_view d)
  moreover have "in_reset (a\<lparr>pmem := m\<rparr>) = in_reset a" by simp
  ultimately show ?thesis by (simp only: pspin_read_def Let_def)
next
  case False
  then show ?thesis
    by (cases "cd_type dev") (simp_all add: pspin_read_def not_less split: option.split sum.split)
qed

lemma pspin_llseek_pos:
  assumes "pspin_llseek dev a off wh f_pos = (r, p)" "f_pos \<le> pspin_mem_size"
  shows "p \<le> pspin_mem_size"
  using assms by (auto simp: pspin_llseek_def seek_bounds_def Let_def split: if_splits whence.splits)

interpretation file_sys: invariant_system file_exec file_allowed "file_inv a0" for a0
proof
  fix s l t
  assume i: "file_inv a0 s" and al: "file_allowed s l" and e: "file_exec l s = Some t"
  obtain dev a f_pos where s: "s = (dev, a, f_pos)" by (cases s)
  from i s have pos: "f_pos \<le> pspin_mem_size" and a: "same_beyond_window a0 a"
    by (auto simp: file_inv_def)
  show "file_inv a0 t"
  proof (cases l)
    case (OpRead lock_ok copy_ok evs cnt)
    with e s obtain r dev' p where "pspin_read lock_ok copy_ok evs dev a cnt f_pos = Some (r, dev', p)"
      and t: "t = (dev', a, p)" by auto
    with pspin_read_pos al OpRead pos a show ?thesis by (auto simp: file_inv_def)
  next
    case (OpWrite lock_ok copy_ok buf cnt)
    with e s obtain r dev' a' p
      where w: "pspin_write lock_ok copy_ok dev a buf cnt f_pos = Some (r, dev', a', p)"
        and t: "t = (dev', a', p)" by auto
    from OpWrite al have "cnt \<le> MAX_RW_COUNT" by simp
    from pspin_write_pos [OF w pos this] t a show ?thesis
      by (auto simp: file_inv_def intro: same_beyond_window_trans)
  next
    case (OpSeek off wh)
    with e s have "t = (dev, a, snd (pspin_llseek dev a off wh f_pos))" by simp
    moreover have "snd (pspin_llseek dev a off wh f_pos) \<le> pspin_mem_size"
      by (rule pspin_llseek_pos [OF prod.collapse [symmetric] pos])
    ultimately show ?thesis using a by (auto simp: file_inv_def)
  qed
qed

text \<open>
  Property C8. The file position never leaves the device window, whatever sequence of reads, writes
  and seeks a process makes and however they fail. The registers follow the window directly, at
  0x800000, and no access reaches them: no byte from there on is written, flags, DMA areas and
  registers stay as they are, and a read from any position that is reached gives bytes of the
  window only, so it gives the same whatever lies beyond. Linux passes at most \<open>MAX_RW_COUNT\<close> bytes.
\<close>

theorem file_position_invariant:
  assumes "reach file_exec file_allowed (dev, a, 0) (dev', a', f_pos)"
  shows "f_pos \<le> pspin_mem_size \<and> a' = a\<lparr>pmem := pmem a'\<rparr> \<and> (\<forall>x \<ge> 0x800000. pmem a' x = pmem a x)
    \<and> (\<forall>m lock_ok copy_ok evs cnt. (\<forall>x < 0x800000. m x = pmem a' x) \<and> cnt \<le> MAX_RW_COUNT \<longrightarrow>
         pspin_read lock_ok copy_ok evs dev' (a'\<lparr>pmem := m\<rparr>) cnt f_pos
         = pspin_read lock_ok copy_ok evs dev' a' cnt f_pos)"
proof -
  have "file_inv a (dev, a, 0)" by (simp add: file_inv_def same_beyond_window_refl)
  with assms have "file_inv a (dev', a', f_pos)" by (rule file_sys.reach_inv)
  then show ?thesis by (auto simp: file_inv_def same_beyond_window_def pspin_read_window)
qed

theorem file_position_invariant_witness:
  "reach file_exec file_allowed (example_dev, example_app, 0) (example_dev, example_app, 0x400000)
   \<and> (0x400000 :: u64) \<le> pspin_mem_size"
proof -
  have "run file_exec file_allowed [OpSeek 0x1d000000 SEEK_SET] (example_dev, example_app, 0)
      = Some (example_dev, example_app, 0x400000)"
    by (simp add: pspin_llseek_def example_dev_def example_app_def seek_bounds_def
        pspin_addr_to_corundum_def pspin_region_defs pspin_mem_size_def)
  then have "reach file_exec file_allowed (example_dev, example_app, 0) (example_dev, example_app, 0x400000)"
    by (rule run_reach)
  from this file_position_invariant [OF this] show ?thesis by simp
qed

section \<open>The stdout FIFO\<close>

lemma fifo_loop_empty: "fifo_loop (WReg (- 1) # evs) [] = fifo_loop evs []"
  by (subst fifo_loop.simps) (simp add: pspin_block_size_def)

lemma fifo_loop_words:
  assumes "list_all (\<lambda>w. w \<noteq> - 1) ws" "length buf + 4 * length ws < 4096" "buf \<noteq> [] \<or> ws \<noteq> []"
  shows "fifo_loop (map WReg ws @ WReg (- 1) # evs) buf = Some (Inr (buf @ concat (map bytes32 ws)))"
  using assms
proof (induction ws arbitrary: buf)
  case Nil
  then show ?case by (subst fifo_loop.simps) (simp add: pspin_block_size_def)
next
  case (Cons w ws)
  then have "fifo_loop (map WReg ws @ WReg (- 1) # evs) (buf @ bytes32 w)
      = Some (Inr ((buf @ bytes32 w) @ concat (map bytes32 ws)))"
    by (intro Cons.IH) (simp_all add: bytes32_def)
  with Cons.prems show ?case by (subst fifo_loop.simps) (simp add: pspin_block_size_def)
qed

lemma fifo_loop_waits: "fifo_loop (replicate k (WReg (- 1)) @ evs) [] = fifo_loop evs []"
  by (induction k) (simp_all add: fifo_loop_empty)

lemma fifo_loop_length:
  assumes "fifo_loop evs buf = Some (Inr data)" "length buf \<le> 4096" "4 dvd length buf"
  shows "length data \<le> 4096 \<and> 4 dvd length data"
  using assms
proof (induction evs buf rule: fifo_loop.induct)
  case (1 evs buf)
  show ?case
  proof (cases "length buf < 4096")
    case False
    with "1.prems" show ?thesis by (subst (asm) fifo_loop.simps) (simp add: pspin_block_size_def)
  next
    case True
    with "1.prems"(3) have next_len: "length (buf @ bytes32 w) \<le> 4096 \<and> 4 dvd length (buf @ bytes32 w)" for w
      by (auto elim!: dvdE)
    from True have lt: "\<not> \<not> length buf < unat pspin_block_size" by (simp add: pspin_block_size_def)
    from "1.prems"(1) True obtain w evs' where evs: "evs = WReg w # evs'" and
      cases: "w = - 1 \<and> buf \<noteq> [] \<and> data = buf \<or> w = - 1 \<and> buf = [] \<and> fifo_loop evs' buf = Some (Inr data)
        \<or> w \<noteq> - 1 \<and> fifo_loop evs' (buf @ bytes32 w) = Some (Inr data)"
      by (subst (asm) fifo_loop.simps)
        (auto simp: pspin_block_size_def split: list.splits wait_ev.splits if_splits)
    then show ?thesis
      using "1.IH"(1) [OF lt evs refl] "1.IH"(2) [OF lt evs refl] "1.prems"(2,3) next_len by blast
  qed
qed

text \<open>
  Property C9. Reading the stdout device: after any number of empty polls, the words that the FIFO
  delivers until it is empty again are returned in order, as their bytes, and nothing else; the
  read does not report end of file while the FIFO is empty, and it leaves the file position alone.
\<close>

theorem fifo_read_words:
  assumes "cd_type dev = TY_FIFO" "\<not> exiting dev" "block_buffer dev = Some old"
    and "ws \<noteq> []" "list_all (\<lambda>w. w \<noteq> - 1) ws" "length ws < 1024"
  shows "\<exists>dev'. pspin_read True True (replicate k (WReg (- 1)) @ map WReg ws @ WReg (- 1) # evs) dev a cnt f_pos
    = Some (Inr (concat (map bytes32 ws)), dev', f_pos)"
proof -
  have "fifo_loop (replicate k (WReg (- 1)) @ map WReg ws @ WReg (- 1) # evs) []
      = Some (Inr (concat (map bytes32 ws)))"
    using assms(4-6) fifo_loop_words [of ws "[]" evs] by (simp add: fifo_loop_waits)
  with assms(1-3) show ?thesis by (simp add: pspin_read_def Let_def)
qed

theorem fifo_read_words_witness:
  "\<exists>dev'. pspin_read True True [WReg (- 1), WReg 0x64636261, WReg (- 1)]
      (example_dev\<lparr>cd_type := TY_FIFO\<rparr>) example_app 4096 0
    = Some (Inr [0x61, 0x62, 0x63, 0x64], dev', 0)"
proof -
  have "\<exists>dev'. pspin_read True True (replicate 1 (WReg (- 1)) @ map WReg [0x64636261] @ WReg (- 1) # [])
      (example_dev\<lparr>cd_type := TY_FIFO\<rparr>) example_app 4096 0
    = Some (Inr (concat (map bytes32 [0x64636261])), dev', 0)"
    by (rule fifo_read_words [where old = "replicate 4096 0"]) (simp_all add: example_dev_def)
  moreover have "bytes32 0x64636261 = [0x61, 0x62, 0x63, 0x64]" by code_simp
  ultimately show ?thesis by simp
qed

text \<open>
  The user's byte count does not bound a FIFO read: with two words in the FIFO a read of four
  bytes gives eight.
\<close>

lemma fifo_read_overruns_count:
  "\<exists>data dev'. pspin_read True True [WReg 1, WReg 2, WReg (- 1)] (example_dev\<lparr>cd_type := TY_FIFO\<rparr>)
      example_app 4 0 = Some (Inr data, dev', 0) \<and> length data = 8"
proof -
  have "fifo_loop [WReg 1, WReg 2, WReg (- 1)] [] = Some (Inr (bytes32 1 @ bytes32 2))"
    using fifo_loop_words [of "[1, 2]" "[]" "[]"] by simp
  then show ?thesis by (simp add: pspin_read_def example_dev_def Let_def)
qed

section \<open>ioctl on NIC memory\<close>





text \<open>
  \<open>CHECK_RANGE\<close> looks at the first of the eight bytes only: the last seven addresses of a memory
  are accepted although the access runs past its end.
\<close>

lemma ioctl_spills:
  "\<not> sint (pspin_addr_to_corundum 0x1d007ffc) < 0"
  "\<not> in_nic_mem (unat (pspin_addr_to_corundum 0x1d007ffc)) 8"
proof -
  have e: "pspin_addr_to_corundum 0x1d007ffc = 0x407ffc" by code_simp
  show "\<not> sint (pspin_addr_to_corundum 0x1d007ffc) < 0" by code_simp
  show "\<not> in_nic_mem (unat (pspin_addr_to_corundum 0x1d007ffc)) 8"
    by (simp add: e in_nic_mem_def pspin_region_defs)
qed

section \<open>Host DMA areas and their mappings\<close>

definition live_bufs :: "dma_area list \<Rightarrow> dma_buf multiset" where
  "live_bufs areas = image_mset area_buf (filter_mset enabled (mset areas))"

definition buf_of :: "dma_area \<Rightarrow> dma_buf multiset" where
  "buf_of ar = (if enabled ar then {#area_buf ar#} else {#})"

lemma live_bufs_update:
  assumes "i < length areas"
  shows "live_bufs (areas[i := ar]) + buf_of (areas ! i) = live_bufs areas + buf_of ar"
proof -
  obtain M where M: "mset areas = add_mset (areas ! i) M"
    using assms by (metis multi_member_split nth_mem_mset)
  with assms have "mset (areas[i := ar]) = add_mset ar M" by (simp add: mset_update)
  with M show ?thesis by (simp add: live_bufs_def buf_of_def)
qed

text \<open>
  \<open>ref_count\<close> is a C \<open>int\<close>: a mapping is duplicated only while its context has fewer than
  \<open>INT_MAX\<close> mappings, so that the increment does not overflow. A new mapping needs no such
  condition, as \<open>pspin_mmap\<close> refuses a context that is mapped.
\<close>

fun counts_fit :: "driver \<Rightarrow> driver_event \<Rightarrow> bool" where
  "counts_fit d (EvFork c) \<longleftrightarrow> int (count_list (d_vmas d) c) < 2 ^ 31 - 1"
| "counts_fit d e \<longleftrightarrow> True"

text \<open>
  The driver invariant: the reference count of an area is the number of its mappings, a mapped area
  is enabled, and the allocated buffers are exactly those of the enabled areas.
\<close>

definition area_inv :: "nat \<Rightarrow> dma_area \<Rightarrow> bool" where
  "area_inv n ar \<longleftrightarrow> ref_count ar = of_nat n \<and> n < 2 ^ 31 \<and> (0 < n \<longrightarrow> enabled ar)"

lemma of_nat_s32_eq_iff:
  assumes "m < 2 ^ 31" "n < 2 ^ 31"
  shows "(of_nat m :: s32) = of_nat n \<longleftrightarrow> m = n"
proof
  assume "(of_nat m :: s32) = of_nat n"
  then have "unat (of_nat m :: s32) = unat (of_nat n :: s32)" by (rule arg_cong)
  with assms show "m = n" by (simp add: unat_of_nat)
qed simp

lemma sint_of_nat_s32: "n < 2 ^ 31 \<Longrightarrow> sint (of_nat n :: s32) = int n"
  by (simp add: signed_of_nat signed_take_bit_int_eq_self)

definition driver_inv :: "driver \<Rightarrow> bool" where
  "driver_inv d \<longleftrightarrow> length (dma_areas (d_app d)) = HER_NUM_HANDLER_CTX
     \<and> (\<forall>i < HER_NUM_HANDLER_CTX. area_inv (count_list (d_vmas d) i) (dma_areas (d_app d) ! i))
     \<and> set (d_vmas d) \<subseteq> {..<HER_NUM_HANDLER_CTX}
     \<and> mset (d_live d) = live_bufs (dma_areas (d_app d))"

lemma driver_inv_cong:
  "dma_areas a = dma_areas (d_app d) \<Longrightarrow> driver_inv (d\<lparr>d_app := a\<rparr>) \<longleftrightarrow> driver_inv d"
  by (simp add: driver_inv_def)

lemma upd_area_simps [simp]:
  "dma_areas (upd_area i f a) = (dma_areas a)[i := f (dma_areas a ! i)]"
  "regs (upd_area i f a) = regs a" "in_her_conf (upd_area i f a) = in_her_conf a"
  "in_me_conf (upd_area i f a) = in_me_conf a" "in_reset (upd_area i f a) = in_reset a"
  by (simp_all add: upd_area_def)

text \<open>One area changes: what has to hold of it for the invariant to be kept.\<close>

lemma driver_inv_update:
  assumes "driver_inv d" "c < HER_NUM_HANDLER_CTX"
    and "dma_areas a = (dma_areas (d_app d))[c := ar]"
    and "area_inv (count_list vs c) ar"
    and "\<And>i. i \<noteq> c \<Longrightarrow> count_list vs i = count_list (d_vmas d) i" "set vs \<subseteq> {..<HER_NUM_HANDLER_CTX}"
    and "mset lv + buf_of (dma_areas (d_app d) ! c) = mset (d_live d) + buf_of ar"
  shows "driver_inv \<lparr>d_app = a, d_vmas = vs, d_live = lv\<rparr>"
proof -
  have len: "length (dma_areas (d_app d)) = HER_NUM_HANDLER_CTX"
    and live: "mset (d_live d) = live_bufs (dma_areas (d_app d))"
    using assms(1) by (simp_all add: driver_inv_def)
  have "live_bufs (dma_areas a) + buf_of (dma_areas (d_app d) ! c)
      = live_bufs (dma_areas (d_app d)) + buf_of ar"
    using live_bufs_update [of c "dma_areas (d_app d)" ar] assms(2,3) len by simp
  with assms(7) live have "mset lv = live_bufs (dma_areas a)" by (metis add_right_imp_eq)
  with assms len show ?thesis by (auto simp: driver_inv_def nth_list_update)
qed

lemma driver_inv_areaD:
  assumes "driver_inv d" "c < HER_NUM_HANDLER_CTX"
  shows "ref_count (dma_areas (d_app d) ! c) = of_nat (count_list (d_vmas d) c)"
    and "0 < count_list (d_vmas d) c \<Longrightarrow> enabled (dma_areas (d_app d) ! c)"
    and "c < length (dma_areas (d_app d))" "set (d_vmas d) \<subseteq> {..<HER_NUM_HANDLER_CTX}"
    and "\<not> enabled (dma_areas (d_app d) ! c) \<Longrightarrow> count_list (d_vmas d) c = 0"
    and "count_list (d_vmas d) c < 2 ^ 31"
  using assms by (auto simp: driver_inv_def area_inv_def)

lemma count_list_pos: "x \<in> set xs \<Longrightarrow> 0 < count_list xs x"
  by (induction xs) auto

lemma driver_inv_vmaD:
  assumes "driver_inv d" "c \<in> set (d_vmas d)"
  shows "c < HER_NUM_HANDLER_CTX" "0 < count_list (d_vmas d) c" "enabled (dma_areas (d_app d) ! c)"
proof -
  show c: "c < HER_NUM_HANDLER_CTX" using assms by (auto simp: driver_inv_def)
  show n: "0 < count_list (d_vmas d) c" using assms(2) by (rule count_list_pos)
  show "enabled (dma_areas (d_app d) ! c)" by (rule driver_inv_areaD(2) [OF assms(1) c n])
qed

lemma mmap_context:
  assumes "\<not> int HER_NUM_HANDLER_CTX \<le> sint w" "\<not> sint w < 0"
  shows "nat (sint w) < HER_NUM_HANDLER_CTX"
  using assms by simp

text \<open>What a call of \<open>pspin_mmap\<close> that does more than refuse the request does to the area.\<close>

definition mmap_area :: "vma \<Rightarrow> dma_area \<Rightarrow> dma_area" where
  "mmap_area v ar = ar\<lparr>dma_size := scast (num_pages_requested v) * PAGE_SIZE\<rparr>"

lemma pspin_mmap_cases:
  assumes "pspin_mmap env v a = Some (r, buf, a')"
    "length (dma_areas a) = HER_NUM_HANDLER_CTX"
  obtains (refused) e where "r = Inl e" "buf = None" "a' = a"
  | (enomem) c where "c < HER_NUM_HANDLER_CTX" "\<not> enabled (dma_areas a ! c)" "r = Inl ENOMEM" "buf = None"
      "a' = upd_area c (\<lambda>ar. (mmap_area v ar)\<lparr>cpu_addr := 0\<rparr>) a"
  | (eio) c cpu handle where "c < HER_NUM_HANDLER_CTX" "\<not> enabled (dma_areas a ! c)" "\<not> me_iomap_ok env"
      "r = Inl EIO" "buf = Some (cpu, handle, dma_size (mmap_area v (dma_areas a ! c)))"
      "a' = upd_area c (\<lambda>ar. (mmap_area v ar)\<lparr>cpu_addr := cpu, dma_handle := handle, enabled := True\<rparr>) a"
  | (ok) c cpu handle where "c < HER_NUM_HANDLER_CTX" "\<not> enabled (dma_areas a ! c)" "me_iomap_ok env"
      "r = Inr c" "buf = Some (cpu, handle, dma_size (mmap_area v (dma_areas a ! c)))"
      "a' = upd_area c (\<lambda>ar. (mmap_area v ar)
         \<lparr>cpu_addr := cpu, dma_handle := handle, enabled := True, ref_count := ref_count ar + 1\<rparr>) a"
proof (cases "num_pages_requested v = 0 \<or> sint (mmap_ctx_id v) \<ge> int HER_NUM_HANDLER_CTX \<or> \<not> vm_shared v
    \<or> \<not> me_kzalloc_ok env \<or> sint (mmap_ctx_id v) < 0 \<or> enabled (dma_areas a ! nat (sint (mmap_ctx_id v)))")
  case True
  with assms(1) have "(\<exists>e. r = Inl e) \<and> buf = None \<and> a' = a"
    by (auto simp: pspin_mmap_def Let_def split: if_splits)
  then show thesis using refused by blast
next
  case False
  define c where "c = nat (sint (mmap_ctx_id v))"
  have c: "c < HER_NUM_HANDLER_CTX" and off: "\<not> enabled (dma_areas a ! c)"
    using False by (auto simp: c_def)
  show thesis
  proof (cases "me_dma_alloc env")
    case None
    with assms False show ?thesis
      by (intro enomem [OF c off])
        (auto simp: pspin_mmap_def Let_def c_def [symmetric] upd_area_def mmap_area_def c)
  next
    case (Some p)
    obtain cpu handle where p: "p = (cpu, handle)" by (cases p)
    show ?thesis
    proof (cases "me_iomap_ok env")
      case True
      with assms False Some p c show ?thesis
        by (intro ok [OF c off True, of cpu handle])
          (auto simp: pspin_mmap_def Let_def c_def [symmetric] upd_area_def mmap_area_def area_buf_def pspin_vma_open_def)
    next
      case iomap: False
      with assms False Some p c show ?thesis
        by (intro eio [OF c off iomap, of cpu handle])
          (auto simp: pspin_mmap_def Let_def c_def [symmetric] upd_area_def mmap_area_def area_buf_def)
    qed
  qed
qed

lemma mmap_inv:
  assumes "driver_inv d" "driver_exec (EvMmap env v) d = Some d'"
  shows "driver_inv d'"
proof -
  from assms(2) obtain r buf a where m: "pspin_mmap env v (d_app d) = Some (r, buf, a)"
    and d': "d' = \<lparr>d_app = a, d_vmas = (case r of Inl _ \<Rightarrow> d_vmas d | Inr c \<Rightarrow> c # d_vmas d),
      d_live = (case buf of None \<Rightarrow> d_live d | Some b \<Rightarrow> b # d_live d)\<rparr>"
    by (auto split: option.splits)
  have len: "length (dma_areas (d_app d)) = HER_NUM_HANDLER_CTX" using assms(1) by (simp add: driver_inv_def)
  note ar = driver_inv_areaD [OF assms(1)]
  note upd = driver_inv_update [OF assms(1)]
  from m len show ?thesis
  proof (cases rule: pspin_mmap_cases)
    case refused
    with d' assms(1) show ?thesis by (simp add: driver_inv_def)
  next
    case (enomem c)
    then show ?thesis using d' ar(1,3,4,5) [of c] len
      by (auto intro!: upd [of c] simp: area_inv_def buf_of_def mmap_area_def)
  next
    case (eio c cpu handle)
    then show ?thesis using d' ar(1,3,4,5) [of c] len
      by (auto intro!: upd [of c] simp: area_inv_def buf_of_def mmap_area_def area_buf_def)
  next
    case (ok c cpu handle)
    then show ?thesis using d' ar(1,3,4,5) [of c] len
      by (auto intro!: upd [of c] simp: area_inv_def buf_of_def mmap_area_def area_buf_def)
  qed
qed

lemma fork_inv:
  assumes "driver_inv d" "counts_fit d (EvFork c)" "driver_exec (EvFork c) d = Some d'"
  shows "driver_inv d'"
proof -
  from assms(3) have mem: "c \<in> set (d_vmas d)"
    and d': "d' = \<lparr>d_app = pspin_vma_open c (d_app d), d_vmas = c # d_vmas d, d_live = d_live d\<rparr>"
    by (auto split: if_splits)
  note v = driver_inv_vmaD [OF assms(1) mem] and ar = driver_inv_areaD [OF assms(1)]
  have "area_inv (count_list (c # d_vmas d) c) ((dma_areas (d_app d) ! c)
      \<lparr>ref_count := ref_count (dma_areas (d_app d) ! c) + 1\<rparr>)"
    using v ar(1) [of c] assms(2) by (simp add: area_inv_def)
  then show ?thesis unfolding d'
    by (rule driver_inv_update [OF assms(1) v(1), rotated 1])
      (use v(1) ar(4) [of c] in \<open>simp_all add: buf_of_def area_buf_def pspin_vma_open_def\<close>)
qed

lemma count_list_remove1: "count_list (remove1 x xs) y = count_list xs y - (if x = y then 1 else 0)"
  by (induction xs) auto

lemma vma_close_result:
  assumes "driver_inv d" "c \<in> set (d_vmas d)"
  shows "pspin_vma_close c (d_app d) =
    (if count_list (d_vmas d) c = 1
     then (Some (area_buf (dma_areas (d_app d) ! c)),
           upd_area c (\<lambda>ar. ar\<lparr>ref_count := 0, enabled := False\<rparr>) (d_app d))
     else (None, upd_area c (\<lambda>ar. ar\<lparr>ref_count := ref_count ar - 1\<rparr>) (d_app d)))"
proof -
  note v = driver_inv_vmaD [OF assms]
  note ar = driver_inv_areaD [OF assms(1) v(1)]
  have "ref_count (dma_areas (d_app d) ! c) = 0 \<longleftrightarrow> count_list (d_vmas d) c = 0"
    and "ref_count (dma_areas (d_app d) ! c) = 1 \<longleftrightarrow> count_list (d_vmas d) c = 1"
    using of_nat_s32_eq_iff [OF ar(6), of 0] of_nat_s32_eq_iff [OF ar(6), of 1] by (simp_all add: ar(1))
  then show ?thesis
    using v ar(3) by (auto simp: pspin_vma_close_def Let_def upd_area_def area_buf_def)
qed

lemma live_buf_mem:
  assumes "driver_inv d" "c < HER_NUM_HANDLER_CTX" "enabled (dma_areas (d_app d) ! c)"
  shows "area_buf (dma_areas (d_app d) ! c) \<in> set (d_live d)"
proof -
  have "dma_areas (d_app d) ! c \<in># filter_mset enabled (mset (dma_areas (d_app d)))"
    using assms(3) driver_inv_areaD(3) [OF assms(1,2)] by simp
  then have "area_buf (dma_areas (d_app d) ! c) \<in># mset (d_live d)"
    using assms(1) unfolding driver_inv_def live_bufs_def by auto
  then show ?thesis by simp
qed

lemma close_inv:
  assumes "driver_inv d" "driver_exec (EvClose c) d = Some d'"
  shows "driver_inv d'"
proof -
  let ?ar = "dma_areas (d_app d) ! c"
  from assms(2) have mem: "c \<in> set (d_vmas d)" by (auto split: if_splits)
  note v = driver_inv_vmaD [OF assms(1) mem] and res = vma_close_result [OF assms(1) mem]
  note ar = driver_inv_areaD [OF assms(1) v(1)]
  have sub: "set (remove1 c (d_vmas d)) \<subseteq> {..<HER_NUM_HANDLER_CTX}"
    using ar(4) set_remove1_subset by fastforce
  show ?thesis
  proof (cases "count_list (d_vmas d) c = 1")
    case True
    have "mset (remove1 (area_buf ?ar) (d_live d)) + buf_of ?ar = mset (d_live d)"
      using live_buf_mem [OF assms(1) v(1,3)] v(3) by (simp add: buf_of_def)
    then have "driver_inv \<lparr>d_app = upd_area c (\<lambda>ar. ar\<lparr>ref_count := 0, enabled := False\<rparr>) (d_app d),
        d_vmas = remove1 c (d_vmas d), d_live = remove1 (area_buf ?ar) (d_live d)\<rparr>"
      by (intro driver_inv_update [OF assms(1) v(1) upd_area_simps(1)])
        (use True sub in \<open>simp_all add: area_inv_def buf_of_def count_list_remove1\<close>)
    with assms(2) mem res True show ?thesis by simp
  next
    case False
    have "driver_inv \<lparr>d_app = upd_area c (\<lambda>ar. ar\<lparr>ref_count := ref_count ar - 1\<rparr>) (d_app d),
        d_vmas = remove1 c (d_vmas d), d_live = d_live d\<rparr>"
      by (intro driver_inv_update [OF assms(1) v(1) upd_area_simps(1)])
        (use False sub v ar(1,6) in \<open>simp_all add: of_nat_diff area_inv_def buf_of_def area_buf_def count_list_remove1\<close>)
    with assms(2) mem res False show ?thesis by simp
  qed
qed

text \<open>Register writes, memory writes and ioctls leave the DMA areas alone.\<close>

lemma write_app_frame:
  assumes "pspin_write lock_ok copy_ok dev a buf cnt f_pos = Some (r, dev', a', p)"
  shows "\<exists>m. a' = a\<lparr>pmem := m\<rparr>"
  using assms iowrite_words_frame app_pmem_self
  by (auto simp: pspin_write_def Let_def split: if_splits option.splits)

lemma iowrite64_pmem: "\<exists>m. iowrite64_lo_hi v p a = a\<lparr>pmem := m\<rparr>"
  by (auto simp: iowrite64_lo_hi_def iowrite32_def)

lemma ioctl_app_frame:
  assumes "pspin_ioctl copy_ok dev msg a = Some (r, a')"
  shows "\<exists>m. a' = a\<lparr>pmem := m\<rparr>"
  using assms iowrite64_pmem app_pmem_self
  by (auto simp: pspin_ioctl_def Let_def split: if_splits ioctl_msg.splits)

lemma exec_areas_frame:
  assumes "driver_exec e d = Some d'" "\<And>env v. e \<noteq> EvMmap env v" "\<And>c. e \<noteq> EvFork c" "\<And>c. e \<noteq> EvClose c"
  shows "\<exists>a. d' = d\<lparr>d_app := a\<rparr> \<and> dma_areas a = dma_areas (d_app d)"
proof (cases e)
  case (EvStore i buf)
  then show ?thesis
    using assms(1) store_frame(1) [of "all_attrs ! i" buf "d_app d", OF prod.collapse [symmetric]]
    by (auto split: if_splits)
next
  case (EvWrite lock_ok copy_ok dev buf cnt f_pos)
  then show ?thesis using assms(1) write_app_frame by (fastforce split: option.splits)
next
  case (EvIoctl copy_ok dev msg)
  then show ?thesis using assms(1) ioctl_app_frame by (fastforce split: option.splits)
qed (use assms in auto)

lemma driver_inv_step:
  assumes "driver_inv d" "counts_fit d e" "driver_exec e d = Some d'"
  shows "driver_inv d'"
proof (cases "(\<exists>env v. e = EvMmap env v) \<or> (\<exists>c. e = EvFork c) \<or> (\<exists>c. e = EvClose c)")
  case True
  then show ?thesis using mmap_inv fork_inv close_inv assms by blast
next
  case False
  with exec_areas_frame [OF assms(3)] assms(1) show ?thesis
    using driver_inv_cong by blast
qed

interpretation driver_sys: invariant_system driver_exec counts_fit driver_inv
  by unfold_locales (rule driver_inv_step)

text \<open>The driver after a successful probe of a device whose registers and memory are those of a.\<close>

definition driver_init :: "app \<Rightarrow> driver" where
  "driver_init a = \<lparr>d_app = probe_start (probe_app a), d_vmas = [], d_live = []\<rparr>"

lemma reset_me_bypass_frame:
  "dma_areas (reset_me_bypass a) = dma_areas a" "in_her_conf (reset_me_bypass a) = in_her_conf a"
  "in_reset (reset_me_bypass a) = in_reset a" "pmem (reset_me_bypass a) = pmem a"
proof -
  have "dma_areas (fold (\<lambda>i. reg_write (htonl 1) (REG_ADDR ''me/start'' i)) is a) = dma_areas a
    \<and> in_her_conf (fold (\<lambda>i. reg_write (htonl 1) (REG_ADDR ''me/start'' i)) is a) = in_her_conf a
    \<and> in_reset (fold (\<lambda>i. reg_write (htonl 1) (REG_ADDR ''me/start'' i)) is a) = in_reset a
    \<and> pmem (fold (\<lambda>i. reg_write (htonl 1) (REG_ADDR ''me/start'' i)) is a) = pmem a" for "is"
    by (induction "is" arbitrary: a) (simp_all add: reg_write_def)
  then show "dma_areas (reset_me_bypass a) = dma_areas a" "in_her_conf (reset_me_bypass a) = in_her_conf a"
    "in_reset (reset_me_bypass a) = in_reset a" "pmem (reset_me_bypass a) = pmem a"
    by (simp_all add: reset_me_bypass_def)
qed

lemma probe_areas: "dma_areas (probe_start (probe_app a)) = replicate HER_NUM_HANDLER_CTX zero_area"
  by (simp add: probe_start_def probe_app_def Let_def reset_me_bypass_frame reg_write_def)

lemma driver_inv_init: "driver_inv (driver_init a)"
  by (auto simp: driver_inv_def driver_init_def probe_areas area_inv_def zero_area_def live_bufs_def)

text \<open>
  Property C11. Reference counting of the host DMA areas, over every history of mmap, fork, unmap and
  the other driver calls, failing or not, in which no mapping is duplicated whose context already
  has \<open>INT_MAX\<close> of them: the \<open>int\<close> count of an area is the number of its mappings, a mapped area is
  enabled and its buffer still allocated, and closing a mapping frees the buffer exactly when it is
  the last one, once.
\<close>

theorem hostdma_refcount:
  assumes "reach driver_exec counts_fit (driver_init a) d"
  shows "(\<forall>i < HER_NUM_HANDLER_CTX. sint (ref_count (dma_areas (d_app d) ! i)) = int (count_list (d_vmas d) i))
    \<and> (\<forall>c \<in> set (d_vmas d). c < HER_NUM_HANDLER_CTX \<and> enabled (dma_areas (d_app d) ! c)
         \<and> area_buf (dma_areas (d_app d) ! c) \<in> set (d_live d)
         \<and> fst (pspin_vma_close c (d_app d)) =
             (if count_list (d_vmas d) c = 1 then Some (area_buf (dma_areas (d_app d) ! c)) else None))
    \<and> mset (d_live d) = live_bufs (dma_areas (d_app d))"
proof -
  have inv: "driver_inv d" by (rule driver_sys.reach_inv [OF assms driver_inv_init])
  then have "mset (d_live d) = live_bufs (dma_areas (d_app d))" by (simp add: driver_inv_def)
  then show ?thesis
    using driver_inv_areaD(1,6) [OF inv] driver_inv_vmaD [OF inv] live_buf_mem [OF inv]
      vma_close_result [OF inv] by (auto simp: sint_of_nat_s32)
qed

definition example_mmap :: driver_event where
  "example_mmap = EvMmap \<lparr>me_kzalloc_ok = True, me_dma_alloc = Some (0xffff8880, 0x1000), me_iomap_ok = True\<rparr>
     \<lparr>vm_start = 0x10000, vm_end = 0x12000, vm_pgoff = 2, vm_shared = True\<rparr>"

definition example_driver :: driver where
  "example_driver = the (run driver_exec counts_fit [example_mmap, EvFork 1] (driver_init example_app))"

lemma example_vma:
  "num_pages_requested \<lparr>vm_start = 0x10000, vm_end = 0x12000, vm_pgoff = 2, vm_shared = True\<rparr> = 2"
  "mmap_ctx_id \<lparr>vm_start = 0x10000, vm_end = 0x12000, vm_pgoff = 2, vm_shared = True\<rparr> = 1"
  by code_simp+

lemma example_run:
  "run driver_exec counts_fit [example_mmap, EvFork 1] (driver_init example_app) = Some example_driver"
  "d_vmas example_driver = [1, 1]"
proof -
  have len: "length (dma_areas (probe_start (probe_app example_app))) = 4"
    "\<not> enabled (dma_areas (probe_start (probe_app example_app)) ! 1)"
    by (simp_all add: probe_areas HER_NUM_HANDLER_CTX_def zero_area_def nth_Cons' numeral_eq_Suc)
  show r: "run driver_exec counts_fit [example_mmap, EvFork 1] (driver_init example_app) = Some example_driver"
    "d_vmas example_driver = [1, 1]"
    using len by (simp_all add: example_driver_def example_mmap_def driver_init_def pspin_mmap_def example_vma
        Let_def HER_NUM_HANDLER_CTX_def)
qed

theorem hostdma_refcount_witness:
  "reach driver_exec counts_fit (driver_init example_app) example_driver
   \<and> sint (ref_count (dma_areas (d_app example_driver) ! 1)) = 2
   \<and> fst (pspin_vma_close 1 (d_app example_driver)) = None"
proof -
  have r: "reach driver_exec counts_fit (driver_init example_app) example_driver"
    by (rule run_reach [OF example_run(1)])
  show ?thesis
    using hostdma_refcount [OF r] r by (simp add: example_run(2) HER_NUM_HANDLER_CTX_def)
qed

text \<open>
  The count is a C \<open>int\<close>: duplicating a mapping of a context that has \<open>INT_MAX\<close> of them overflows it.
\<close>

lemma ref_count_overflow:
  assumes "c < length (dma_areas a)" "ref_count (dma_areas a ! c) = 0x7fffffff"
  shows "sint (ref_count (dma_areas (pspin_vma_open c a) ! c)) < 0"
proof -
  have "sint (0x80000000 :: s32) < 0" by code_simp
  with assms show ?thesis by (simp add: pspin_vma_open_def)
qed

text \<open>Without a failing \<open>vm_iomap_memory\<close>, only mapped areas are enabled.\<close>

fun iomap_succeeds :: "driver \<Rightarrow> driver_event \<Rightarrow> bool" where
  "iomap_succeeds d (EvMmap env v) \<longleftrightarrow> me_iomap_ok env"
| "iomap_succeeds d e \<longleftrightarrow> counts_fit d e"

lemma iomap_succeeds_counts: "iomap_succeeds d e \<Longrightarrow> counts_fit d e"
  by (cases e) simp_all

definition mapped_inv :: "driver \<Rightarrow> bool" where
  "mapped_inv d \<longleftrightarrow> driver_inv d \<and> (\<forall>i < HER_NUM_HANDLER_CTX.
     enabled (dma_areas (d_app d) ! i) \<longrightarrow> 0 < count_list (d_vmas d) i)"

lemma mapped_inv_step:
  assumes "mapped_inv d" "iomap_succeeds d e" "driver_exec e d = Some d'"
  shows "mapped_inv d'"
proof -
  from assms(1) have inv: "driver_inv d"
    and en: "\<And>i. i < HER_NUM_HANDLER_CTX \<Longrightarrow> enabled (dma_areas (d_app d) ! i) \<Longrightarrow> 0 < count_list (d_vmas d) i"
    by (auto simp: mapped_inv_def)
  have len: "length (dma_areas (d_app d)) = HER_NUM_HANDLER_CTX" using inv by (simp add: driver_inv_def)
  have "enabled (dma_areas (d_app d') ! i) \<longrightarrow> 0 < count_list (d_vmas d') i" if "i < HER_NUM_HANDLER_CTX" for i
  proof (cases e)
    case (EvMmap env v)
    with assms(3) obtain r buf a where m: "pspin_mmap env v (d_app d) = Some (r, buf, a)"
      and d': "d' = \<lparr>d_app = a, d_vmas = (case r of Inl _ \<Rightarrow> d_vmas d | Inr c \<Rightarrow> c # d_vmas d),
        d_live = (case buf of None \<Rightarrow> d_live d | Some b \<Rightarrow> b # d_live d)\<rparr>"
      by (auto split: option.splits)
    from m len show ?thesis
      by (cases rule: pspin_mmap_cases)
        (use en that d' len assms(2) EvMmap in \<open>auto simp: mmap_area_def nth_list_update\<close>)
  next
    case (EvFork c)
    with assms(3) en that len show ?thesis
      by (auto simp: pspin_vma_open_def nth_list_update split: if_splits)
  next
    case (EvClose c)
    with assms(3) have mem: "c \<in> set (d_vmas d)" by (auto split: if_splits)
    show ?thesis
      using EvClose assms(3) vma_close_result [OF inv mem] mem en [OF that] that len
        driver_inv_vmaD(2) [OF inv mem]
      by (auto simp: nth_list_update count_list_remove1 split: if_splits)
  qed (use exec_areas_frame [OF assms(3)] en that in auto)
  with driver_inv_step [OF inv iomap_succeeds_counts [OF assms(2)] assms(3)] show ?thesis
    by (simp add: mapped_inv_def)
qed

interpretation mapped_sys: invariant_system driver_exec iomap_succeeds mapped_inv
  by unfold_locales (rule mapped_inv_step)

lemma live_bufs_none: "(\<And>ar. ar \<in> set areas \<Longrightarrow> \<not> enabled ar) \<Longrightarrow> live_bufs areas = {#}"
  by (induction areas) (auto simp: live_bufs_def)

text \<open>
  Property C12. No DMA memory is leaked: as long as mapping a buffer into user space does not fail
  and no context with \<open>INT_MAX\<close> mappings has one duplicated, when all mappings are gone, in
  whatever order processes forked and unmapped, no coherent buffer is left allocated and every
  context can be mapped again.
\<close>

theorem hostdma_no_leak:
  assumes "reach driver_exec iomap_succeeds (driver_init a) d" "d_vmas d = []"
  shows "d_live d = [] \<and> (\<forall>i < HER_NUM_HANDLER_CTX. \<not> enabled (dma_areas (d_app d) ! i))"
proof -
  have "mapped_inv (driver_init a)"
    using driver_inv_init by (simp add: mapped_inv_def driver_init_def probe_areas zero_area_def)
  then have inv: "mapped_inv d" by (rule mapped_sys.reach_inv [OF assms(1)])
  then have off: "\<forall>i < HER_NUM_HANDLER_CTX. \<not> enabled (dma_areas (d_app d) ! i)"
    and len: "length (dma_areas (d_app d)) = HER_NUM_HANDLER_CTX"
    and live: "mset (d_live d) = live_bufs (dma_areas (d_app d))"
    using assms(2) by (auto simp: mapped_inv_def driver_inv_def)
  have "live_bufs (dma_areas (d_app d)) = {#}"
    by (rule live_bufs_none) (use off len in \<open>auto simp: in_set_conv_nth\<close>)
  with live off show ?thesis by simp
qed

definition example_closed :: driver where
  "example_closed = the (run driver_exec iomap_succeeds [example_mmap, EvFork 1, EvClose 1, EvClose 1]
     (driver_init example_app))"

lemma example_closed_run:
  "run driver_exec iomap_succeeds [example_mmap, EvFork 1, EvClose 1, EvClose 1] (driver_init example_app)
    = Some example_closed" "d_vmas example_closed = []"
proof -
  have len: "length (dma_areas (probe_start (probe_app example_app))) = 4"
    "dma_areas (probe_start (probe_app example_app)) ! 1 = zero_area"
    by (simp_all add: probe_areas HER_NUM_HANDLER_CTX_def nth_Cons' numeral_eq_Suc)
  show "run driver_exec iomap_succeeds [example_mmap, EvFork 1, EvClose 1, EvClose 1] (driver_init example_app)
    = Some example_closed" "d_vmas example_closed = []"
    using len by (simp_all add: example_closed_def example_mmap_def driver_init_def pspin_mmap_def example_vma
        Let_def HER_NUM_HANDLER_CTX_def pspin_vma_open_def pspin_vma_close_def zero_area_def)
qed

theorem hostdma_no_leak_witness:
  "reach driver_exec iomap_succeeds (driver_init example_app) example_closed \<and> d_live example_closed = []"
proof -
  have r: "reach driver_exec iomap_succeeds (driver_init example_app) example_closed"
    by (rule run_reach [OF example_closed_run(1)])
  show ?thesis using hostdma_no_leak [OF r example_closed_run(2)] r by simp
qed

text \<open>
  The failing case is different: after \<open>vm_iomap_memory\<close> fails, the area stays enabled without a
  mapping, so its buffer stays allocated and every later mmap of the context is refused.
\<close>

lemma iomap_failure_sticks:
  assumes "pspin_mmap env v a = Some (Inl EIO, buf, a')" "length (dma_areas a) = HER_NUM_HANDLER_CTX"
    and "pspin_mmap env' v a' = Some (r, buf', a'')" "me_kzalloc_ok env'"
  shows "r = Inl EAGAIN \<and> buf' = None \<and> a'' = a'"
proof -
  have "\<not> (num_pages_requested v = 0 \<or> sint (mmap_ctx_id v) \<ge> int HER_NUM_HANDLER_CTX \<or> \<not> vm_shared v
      \<or> sint (mmap_ctx_id v) < 0)" and "enabled (dma_areas a' ! nat (sint (mmap_ctx_id v)))"
    using assms(1,2) by (auto simp: pspin_mmap_def Let_def upd_area_def split: if_splits option.splits)
  with assms(3,4) show ?thesis by (auto simp: pspin_mmap_def Let_def)
qed

text \<open>
  A page offset whose quotient does not fit into an \<open>int\<close> gives a negative context, which passes
  the bound check and indexes \<open>dma_areas\<close> below its start; the query ioctl has the same gap.
\<close>

lemma mmap_negative_context:
  "pspin_mmap \<lparr>me_kzalloc_ok = True, me_dma_alloc = None, me_iomap_ok = True\<rparr>
     \<lparr>vm_start = 0, vm_end = 0x1000, vm_pgoff = 0x80000000, vm_shared = True\<rparr> a = None"
  "pspin_ioctl (\<lambda>_. True) example_dev (PSPIN_HOSTDMA_QUERY (- 1)) a = None"
proof -
  have "num_pages_requested \<lparr>vm_start = 0, vm_end = 0x1000, vm_pgoff = 0x80000000, vm_shared = True\<rparr> = 1"
    "sint (mmap_ctx_id \<lparr>vm_start = 0, vm_end = 0x1000, vm_pgoff = 0x80000000, vm_shared = True\<rparr>) = - 0x80000000"
    by code_simp+
  then show "pspin_mmap \<lparr>me_kzalloc_ok = True, me_dma_alloc = None, me_iomap_ok = True\<rparr>
     \<lparr>vm_start = 0, vm_end = 0x1000, vm_pgoff = 0x80000000, vm_shared = True\<rparr> a = None"
    by (simp add: pspin_mmap_def HER_NUM_HANDLER_CTX_def)
qed (simp add: pspin_ioctl_def example_dev_def HER_NUM_HANDLER_CTX_def)

section \<open>Host DMA safety\<close>

text \<open>
  Host memory is mapped only while the HER generator is off; and the reference counts fit, as above.
\<close>

fun mmap_in_conf :: "driver \<Rightarrow> driver_event \<Rightarrow> bool" where
  "mmap_in_conf d (EvMmap env v) \<longleftrightarrow> in_her_conf (d_app d)"
| "mmap_in_conf d e \<longleftrightarrow> counts_fit d e"

lemma mmap_in_conf_counts: "mmap_in_conf d e \<Longrightarrow> counts_fit d e"
  by (cases e) simp_all

definition dma_inv :: "driver \<Rightarrow> bool" where
  "dma_inv d \<longleftrightarrow> driver_inv d \<and> flags_mirror (d_app d) \<and> her_safe (d_app d)"

lemma flags_mirror_cong:
  "regs a' = regs a \<Longrightarrow> in_me_conf a' = in_me_conf a \<Longrightarrow> in_her_conf a' = in_her_conf a
   \<Longrightarrow> in_reset a' = in_reset a \<Longrightarrow> flags_mirror a' = flags_mirror a"
  by (simp add: flags_mirror_def)

lemma her_safe_pmem [simp]: "her_safe (a\<lparr>pmem := m\<rparr>) = her_safe a"
  by (simp add: her_safe_def hostdma_ok_def hostdma_addr_def hostdma_size_def reg_read_def)

lemma hostdma_ok_upd_area:
  assumes "enabled (f (dma_areas a ! c)) \<Longrightarrow> enabled (dma_areas a ! c)"
    "dma_handle (f (dma_areas a ! c)) = dma_handle (dma_areas a ! c)"
    "dma_size (f (dma_areas a ! c)) = dma_size (dma_areas a ! c)"
    "c < length (dma_areas a)" "hostdma_ok a i"
  shows "hostdma_ok (upd_area c f a) i"
  using assms
  by (cases "i = c") (auto simp: hostdma_ok_def Let_def hostdma_addr_def hostdma_size_def reg_read_def)

lemma her_safe_upd_area:
  assumes "her_safe a" "c < length (dma_areas a)"
    "\<And>ar. enabled (f ar) \<Longrightarrow> enabled ar" "\<And>ar. dma_handle (f ar) = dma_handle ar"
    "\<And>ar. dma_size (f ar) = dma_size ar"
  shows "her_safe (upd_area c f a)"
  using assms hostdma_ok_upd_area [of f a c] by (auto simp: her_safe_def)

lemma dma_inv_step:
  assumes "dma_inv d" "mmap_in_conf d e" "driver_exec e d = Some d'"
  shows "dma_inv d'"
proof -
  from assms(1) have inv: "driver_inv d" and fl: "flags_mirror (d_app d)" and safe: "her_safe (d_app d)"
    by (auto simp: dma_inv_def)
  have len: "length (dma_areas (d_app d)) = HER_NUM_HANDLER_CTX" using inv by (simp add: driver_inv_def)
  have "flags_mirror (d_app d') \<and> her_safe (d_app d')"
  proof (cases e)
    case (EvStore i buf)
    then show ?thesis
      using assms(3) fl safe store_flags_mirror [of "all_attrs ! i" "d_app d" buf, OF _ _ _ prod.collapse [symmetric]]
        store_her_safe [of "all_attrs ! i" "d_app d" buf, OF _ _ _ prod.collapse [symmetric]]
      by (auto split: if_splits)
  next
    case (EvWrite lock_ok copy_ok dev buf cnt f_pos)
    with assms(3) obtain m where "d_app d' = (d_app d)\<lparr>pmem := m\<rparr>"
      using write_app_frame by (fastforce split: option.splits)
    with fl safe show ?thesis by (simp add: flags_mirror_def)
  next
    case (EvIoctl copy_ok dev msg)
    with assms(3) obtain m where "d_app d' = (d_app d)\<lparr>pmem := m\<rparr>"
      using ioctl_app_frame by (fastforce split: option.splits)
    with fl safe show ?thesis by (simp add: flags_mirror_def)
  next
    case (EvMmap env v)
    with assms(3) obtain r buf a where m: "pspin_mmap env v (d_app d) = Some (r, buf, a)"
      and a: "d_app d' = a" by (auto split: option.splits)
    from m len have "regs a = regs (d_app d) \<and> in_me_conf a = in_me_conf (d_app d)
        \<and> in_her_conf a = in_her_conf (d_app d) \<and> in_reset a = in_reset (d_app d)"
      by (cases rule: pspin_mmap_cases) simp_all
    with a fl assms(2) EvMmap flags_mirror_cong [of a "d_app d"] show ?thesis by (simp add: her_safe_def)
  next
    case (EvFork c)
    with assms(3) have mem: "c \<in> set (d_vmas d)" and a: "d_app d' = pspin_vma_open c (d_app d)"
      by (auto split: if_splits)
    have "her_safe (pspin_vma_open c (d_app d))" unfolding pspin_vma_open_def
      by (rule her_safe_upd_area [OF safe]) (use len driver_inv_vmaD(1) [OF inv mem] in simp_all)
    with a fl show ?thesis by (simp add: pspin_vma_open_def flags_mirror_def)
  next
    case (EvClose c)
    with assms(3) have mem: "c \<in> set (d_vmas d)" by (auto split: if_splits)
    have "her_safe (upd_area c (\<lambda>ar. ar\<lparr>ref_count := 0, enabled := False\<rparr>) (d_app d))"
      "her_safe (upd_area c (\<lambda>ar. ar\<lparr>ref_count := ref_count ar - 1\<rparr>) (d_app d))"
      by (rule her_safe_upd_area [OF safe], use len driver_inv_vmaD(1) [OF inv mem] in simp_all)+
    then show ?thesis
      using EvClose assms(3) fl mem vma_close_result [OF inv mem]
      by (auto simp: flags_mirror_def split: if_splits)
  qed
  with driver_inv_step [OF inv mmap_in_conf_counts [OF assms(2)] assms(3)] show ?thesis
    by (simp add: dma_inv_def)
qed

interpretation dma_sys: invariant_system driver_exec mmap_in_conf dma_inv
  by unfold_locales (rule dma_inv_step)

lemma regs_fold_write:
  "regs (fold (\<lambda>i. reg_write v (f i)) is a) off = (if off \<in> f ` set is then v else regs a off)"
  by (induction "is" arbitrary: a) (auto simp: reg_write_def)

lemma probe_reg_addrs: "REG_ADDR ''cl/ctrl'' 1 = 0x4" "REG_ADDR ''me/valid'' 0 = 0x2000"
  by code_simp+

text \<open>The sixteen \<open>me_start\<close> registers.\<close>

definition me_start_regs :: "u32 list" where
  "me_start_regs = map (REG_ADDR ''me/start'') [0..<UMATCH_RULESETS * UMATCH_ENTRIES]"

lemma me_start_regs_not:
  "4 \<notin> set me_start_regs" "0x2000 \<notin> set me_start_regs" "0x3000 \<notin> set me_start_regs"
  by code_simp+

lemma probe_regs:
  "regs (probe_start (probe_app a)) off =
     (if off = 0x2000 then 1 else if off \<in> set me_start_regs then htonl 1
      else if off = 4 then 0 else regs a off)"
proof -
  have "regs (reset_me_bypass b) off = (if off \<in> set me_start_regs then htonl 1 else regs b off)" for b
    unfolding reset_me_bypass_def regs_fold_write me_start_regs_def set_map ..
  then show ?thesis
    by (simp only: probe_start_def Let_def probe_reg_addrs) (simp add: reg_write_def probe_app_def)
qed

lemma probe_flags:
  "in_reset (probe_start (probe_app a)) = False" "in_me_conf (probe_start (probe_app a)) = False"
  "in_her_conf (probe_start (probe_app a)) = True"
  by (simp_all add: probe_start_def Let_def reg_write_def reset_me_bypass_frame probe_app_def)

lemma flags_mirror_init: "regs a 0x3000 = 0 \<Longrightarrow> flags_mirror (d_app (driver_init a))"
  by (simp add: flags_mirror_def driver_init_def probe_regs probe_flags me_start_regs_not)

lemma dma_inv_init: "regs a 0x3000 = 0 \<Longrightarrow> dma_inv (driver_init a)"
  using flags_mirror_init driver_inv_init
  by (simp add: dma_inv_def her_safe_def driver_init_def probe_flags)

text \<open>
  Property C13. Host DMA safety: if the device powers up with the HER generator off, processes map
  host memory only while it is off (which the driver does not enforce), and no context with
  \<open>INT_MAX\<close> mappings has one duplicated, then whenever it is on, the host memory window that is
  programmed for a context with an enabled area is exactly the buffer that the driver allocated
  for it, in address and size, and that buffer is still allocated.
\<close>

theorem host_dma_confined:
  assumes "regs a 0x3000 = 0" "reach driver_exec mmap_in_conf (driver_init a) d"
    and "regs (d_app d) 0x3000 \<noteq> 0" "i < HER_NUM_HANDLER_CTX" "enabled (dma_areas (d_app d) ! i)"
  shows "hostdma_addr (d_app d) i = dma_handle (dma_areas (d_app d) ! i)
    \<and> hostdma_size (d_app d) i = dma_size (dma_areas (d_app d) ! i)
    \<and> (\<exists>cpu. (cpu, hostdma_addr (d_app d) i, hostdma_size (d_app d) i) \<in> set (d_live d))"
proof -
  have inv: "dma_inv d" by (rule dma_sys.reach_inv [OF assms(2) dma_inv_init [OF assms(1)]])
  then have "\<not> in_her_conf (d_app d)" "her_safe (d_app d)" "driver_inv d"
    using assms(3) by (auto simp: dma_inv_def flags_mirror_def)
  then show ?thesis
    using assms(4,5) live_buf_mem [of d i]
    by (auto simp: her_safe_def hostdma_ok_def Let_def area_buf_def)
qed

definition confined_events :: "driver_event list" where
  "confined_events = [example_mmap, EvStore 91 ''4096'', EvStore 99 ''8192'', EvStore 77 ''1'']"

definition example_confined :: driver where
  "example_confined = the (run driver_exec mmap_in_conf confined_events (driver_init example_app))"

theorem host_dma_confined_witness:
  "reach driver_exec mmap_in_conf (driver_init example_app) example_confined
   \<and> regs (d_app example_confined) 0x3000 \<noteq> 0 \<and> enabled (dma_areas (d_app example_confined) ! 1)
   \<and> hostdma_addr (d_app example_confined) 1 = dma_handle (dma_areas (d_app example_confined) ! 1)"
proof -
  have z: "regs example_app 0x3000 = 0" by (simp add: example_app_def)
  have r: "reach driver_exec mmap_in_conf (driver_init example_app) example_confined"
    unfolding example_confined_def by (rule run_reach_the) code_simp
  have on: "regs (d_app example_confined) 0x3000 \<noteq> 0" by code_simp
  have i: "1 < HER_NUM_HANDLER_CTX" by (simp add: HER_NUM_HANDLER_CTX_def)
  have en: "enabled (dma_areas (d_app example_confined) ! 1)" by code_simp
  show ?thesis using host_dma_confined [OF z r on i en] r on en by simp
qed

text \<open>
  The order matters: when a process maps a context after the generator is enabled, the check of
  \<open>check_her_en\<close> is past and the programmed window is not the allocated buffer.
\<close>

definition unconfined_events :: "driver_event list" where
  "unconfined_events = [EvStore 77 ''1'', example_mmap]"

lemma mmap_after_enable_unconfined:
  "\<exists>d. reach driver_exec (\<lambda>_ _. True) (driver_init example_app) d \<and> regs (d_app d) 0x3000 \<noteq> 0
     \<and> enabled (dma_areas (d_app d) ! 1) \<and> hostdma_addr (d_app d) 1 \<noteq> dma_handle (dma_areas (d_app d) ! 1)"
proof -
  let ?r = "run driver_exec (\<lambda>_ _. True) unconfined_events (driver_init example_app)"
  have "reach driver_exec (\<lambda>_ _. True) (driver_init example_app) (the ?r)"
    by (rule run_reach_the) code_simp
  moreover have "regs (d_app (the ?r)) 0x3000 \<noteq> 0" "enabled (dma_areas (d_app (the ?r)) ! 1)"
    "hostdma_addr (d_app (the ?r)) 1 \<noteq> dma_handle (dma_areas (d_app (the ?r)) ! 1)"
    by code_simp+
  ultimately show ?thesis by blast
qed

section \<open>Probe and removal\<close>

lemma destroy_devices:
  "m_region (fold pspin_destroy_device is m) = m_region m" "m_class (fold pspin_destroy_device is m) = m_class m"
  "m_groups (fold pspin_destroy_device is m) = m_groups m"
  "m_devices (fold pspin_destroy_device is m) = filter (\<lambda>i. i \<notin> set is) (m_devices m)"
  by (induction "is" arbitrary: m)
    (simp_all add: pspin_destroy_device_def removeAll_filter_not_eq conj_commute eq_commute)

lemma cleanup_chrdev:
  "m_cdevs m \<noteq> [] \<Longrightarrow> m_devices (pspin_cleanup_chrdev n m) = filter (\<lambda>i. \<not> i < n) (m_devices m)"
  "m_devices m = [] \<Longrightarrow> m_devices (pspin_cleanup_chrdev n m) = []"
  "\<not> m_region (pspin_cleanup_chrdev n m)" "\<not> m_class (pspin_cleanup_chrdev n m)"
  "m_groups (pspin_cleanup_chrdev n m) = m_groups m"
  by (simp_all add: pspin_cleanup_chrdev_def Let_def destroy_devices)

lemma construct_devices_result:
  assumes "construct_devices env [k..<n] m = (r, k', m')" "m_devices m = [0..<k]" "k \<le> n" "n = pspin_ndevices"
  shows "(case r of Some err \<Rightarrow> m_devices m' = [0..<k'] | None \<Rightarrow> m_devices m' = [0..<n] \<and> k' = n)
    \<and> length (m_cdevs m') = length (m_cdevs m) \<and> m_app m' = m_app m \<and> m_region m' = m_region m
    \<and> m_class m' = m_class m \<and> m_groups m' = m_groups m"
  using assms
proof (induction "n - k" arbitrary: k m)
  case 0
  then show ?case by simp
next
  case (Suc d)
  then have k: "[k..<n] = k # [Suc k..<n]" "k < n" by (simp_all add: upt_conv_Cons)
  obtain e m1 where c: "pspin_construct_device env k m = (e, m1)" by fastforce
  then have m1: "length (m_cdevs m1) = length (m_cdevs m)" "m_app m1 = m_app m" "m_region m1 = m_region m"
    "m_class m1 = m_class m" "m_groups m1 = m_groups m"
    "m_devices m1 = (if e = None then m_devices m @ [k] else m_devices m)"
    by (auto simp: pspin_construct_device_def Let_def split: option.splits)
  show ?case
  proof (cases e)
    case None
    with Suc.prems c k have "construct_devices env [Suc k..<n] m1 = (r, k', m')" by simp
    with Suc.hyps(1) [of "Suc k" m1] Suc.hyps(2) Suc.prems m1 None k show ?thesis by simp
  next
    case (Some err)
    with Suc.prems c k m1 show ?thesis by (auto split: option.splits)
  qed
qed

lemma create_groups_ok: "create_groups create gs made = (0, made') \<Longrightarrow> made' = made @ gs"
  by (induction gs arbitrary: made) (fastforce simp: Let_def split: if_splits)+

lemma init_pspin_sysfs_ok: "init_pspin_sysfs create add_action = (0, made) \<Longrightarrow> made = reg_groups"
  using create_groups_ok [of create reg_groups "[]"]
  by (auto simp: init_pspin_sysfs_def Let_def split: prod.splits if_splits)

text \<open>
  Property C14. Probe is all or nothing for the kernel objects of the character devices: when it
  fails, at whatever point, the device region, the class and every device made so far are given
  back; when it succeeds, they exist for both minors, every register group is published, the cluster
  is out of reset and the flags mirror the registers; and removal gives back what a probe took.
\<close>

theorem probe_all_or_nothing:
  assumes "mqnic_app_pspin_probe env m = (r, m')"
    and "\<not> m_region m" "\<not> m_class m" "m_devices m = []" "regs (m_app m) 0x3000 = 0"
  shows "case r of
      Some err \<Rightarrow> \<not> m_region m' \<and> \<not> m_class m' \<and> m_devices m' = []
    | None \<Rightarrow> m_region m' \<and> m_class m' \<and> m_devices m' = [0, 1] \<and> m_groups m' = reg_groups
        \<and> \<not> in_reset (m_app m') \<and> flags_mirror (m_app m') \<and> m_app m' = d_app (driver_init (m_app m))
        \<and> \<not> m_region (mqnic_app_pspin_remove m') \<and> \<not> m_class (mqnic_app_pspin_remove m')
        \<and> m_devices (mqnic_app_pspin_remove m') = []"
proof (cases "pe_regions_present env \<and> pe_kzalloc_app env \<and> pe_chrdev env = None \<and> pe_class env = None
    \<and> pe_kzalloc_cdevs env")
  case False
  then show ?thesis
    using assms(1-4) cleanup_chrdev(2,3,4)
    by (auto simp: mqnic_app_pspin_probe_def Let_def split: if_splits option.splits)
next
  case True
  define m0 where "m0 = m\<lparr>m_app := probe_app (m_app m), m_region := True, m_class := True,
    m_cdevs := replicate pspin_ndevices zero_cdev\<rparr>"
  obtain e k m1 where c: "construct_devices env [0..<pspin_ndevices] m0 = (e, k, m1)" by (metis prod_cases3)
  obtain err made where g: "init_pspin_sysfs (pe_sysfs_create env) (pe_add_action env) = (err, made)" by fastforce
  have m1: "case e of Some err \<Rightarrow> m_devices m1 = [0..<k] | None \<Rightarrow> m_devices m1 = [0..<pspin_ndevices] \<and> k = pspin_ndevices"
    "m_cdevs m1 \<noteq> []" "m_app m1 = probe_app (m_app m)" "m_region m1" "m_class m1"
    using construct_devices_result [OF c] assms(4) by (auto simp: m0_def pspin_ndevices_def)
  have probe: "(r, m') = (case e of Some err \<Rightarrow> (Some err, pspin_cleanup_chrdev k m1)
     | None \<Rightarrow> (let m = m1\<lparr>m_groups := made\<rparr> in
         if err \<noteq> 0 then (Some (EOTHER err), pspin_cleanup_chrdev k m)
         else (None, m\<lparr>m_app := probe_start (m_app m)\<rparr>)))"
    using assms(1) True c g
    by (auto simp: mqnic_app_pspin_probe_def Let_def m0_def split: option.splits prod.splits)
  show ?thesis
  proof (cases "e = None \<and> err = 0")
    case True
    then have "r = None" and m': "m' = m1\<lparr>m_groups := reg_groups, m_app := probe_start (probe_app (m_app m))\<rparr>"
      using probe m1(3) g init_pspin_sysfs_ok by (auto simp: Let_def)
    with True m1 flags_mirror_init [OF assms(5)] cleanup_chrdev probe_flags show ?thesis
      by (auto simp: driver_init_def mqnic_app_pspin_remove_def pspin_ndevices_def numeral_2_eq_2)
  next
    case False
    with probe m1 cleanup_chrdev show ?thesis by (auto simp: Let_def split: option.splits if_splits)
  qed
qed

definition example_module :: pspin_module where
  "example_module = \<lparr>m_app = example_app, m_cdevs = [], m_region = False, m_class = False,
     m_devices = [], m_groups = []\<rparr>"

definition example_probe :: probe_env where
  "example_probe = \<lparr>pe_regions_present = True, pe_kzalloc_app = True, pe_chrdev = None, pe_class = None,
     pe_kzalloc_cdevs = True, pe_cdev_add = (\<lambda>_. None),
     pe_device_create = (\<lambda>i. if i = 1 then Some ENOMEM else None),
     pe_sysfs_create = (\<lambda>_. 0), pe_add_action = 0\<rparr>"

theorem probe_all_or_nothing_witness:
  "fst (mqnic_app_pspin_probe example_probe example_module) = Some ENOMEM
   \<and> m_devices (snd (mqnic_app_pspin_probe example_probe example_module)) = []"
proof -
  have r: "fst (mqnic_app_pspin_probe example_probe example_module) = Some ENOMEM" by code_simp
  have m: "\<not> m_region example_module" "\<not> m_class example_module" "m_devices example_module = []"
    "regs (m_app example_module) 0x3000 = 0"
    by (simp_all add: example_module_def example_app_def)
  show ?thesis
    using probe_all_or_nothing [OF prod.collapse [symmetric] m, of example_probe] r by simp
qed

text \<open>
  The sysfs groups are outside that guarantee: when the creation of a group fails, the groups made
  before it stay behind.
\<close>

lemma probe_failure_leaves_groups:
  "let env = example_probe\<lparr>pe_device_create := (\<lambda>_. None),
         pe_sysfs_create := (\<lambda>g. if rg_name g = ''fifo'' then - 12 else 0)\<rparr>
   in m_groups (snd (mqnic_app_pspin_probe env example_module)) = [rw_group ''cl'' ''ctrl'' 2 0x0 check_cl_ctrl_id]"
  by code_simp

end
