(* ===== verification/Match_Rules.thy ===== *)
theory Match_Rules
  imports Pspin_Cdev
begin

text \<open>
  The packet matching engine: the rules of \<open>fpspin.h\<close>, the rulesets that \<open>loader.c\<close> builds from
  them, and the combinational part of \<open>pspin_pkt_match.v\<close>, which decides from the engine's registers
  and the first bytes of a packet whether the packet goes to PsPIN, under which ruleset, and
  whether it ends a message. A rule compares one 32-bit word of the packet, read little-endian as
  the matcher holds it, after a mask, with a closed interval.
\<close>

unbundle bit_operations_syntax

section \<open>Rules and rulesets\<close>

record fpspin_rule =
  r_idx :: s32
  r_mask :: u32
  r_start :: u32
  r_end :: u32

datatype fpspin_mode = FPSPIN_MODE_AND | FPSPIN_MODE_OR

record fpspin_ruleset =
  rs_r :: "fpspin_rule list"
  rs_mode :: fpspin_mode

definition NUM_RULES_PER_RULESET :: nat where "NUM_RULES_PER_RULESET = 4"
definition NUM_RULESETS :: nat where "NUM_RULESETS = 4"

definition FPSPIN_RULE_FALSE :: fpspin_rule where
  "FPSPIN_RULE_FALSE = \<lparr>r_idx = 0, r_mask = 0, r_start = 1, r_end = 0\<rparr>"

definition FPSPIN_RULE_EMPTY :: fpspin_rule where
  "FPSPIN_RULE_EMPTY = \<lparr>r_idx = 0, r_mask = 0, r_start = 0, r_end = 0\<rparr>"

definition FPSPIN_RULE_IP :: fpspin_rule where
  "FPSPIN_RULE_IP = \<lparr>r_idx = 3, r_mask = 0xffff0000, r_start = 0x08000000, r_end = 0x08000000\<rparr>"

definition FPSPIN_RULE_IP_PROTO :: "u32 \<Rightarrow> fpspin_rule" where
  "FPSPIN_RULE_IP_PROTO num = \<lparr>r_idx = 5, r_mask = 0xff, r_start = num, r_end = num\<rparr>"

definition FPSPIN_RULE_UDP_SPORT :: "u16 \<Rightarrow> fpspin_rule" where
  "FPSPIN_RULE_UDP_SPORT num =
     \<lparr>r_idx = 8, r_mask = 0xffff, r_start = ucast (htons num), r_end = ucast (htons num)\<rparr>"

definition FPSPIN_RULE_UDP_DPORT :: "u32 \<Rightarrow> fpspin_rule" where
  "FPSPIN_RULE_UDP_DPORT num =
     \<lparr>r_idx = 9, r_mask = 0xffff0000, r_start = push_bit 16 num, r_end = push_bit 16 num\<rparr>"

definition fpspin_ruleset_bypass :: fpspin_ruleset where
  "fpspin_ruleset_bypass =
     \<lparr>rs_r = replicate NUM_RULES_PER_RULESET FPSPIN_RULE_FALSE, rs_mode = FPSPIN_MODE_AND\<rparr>"

definition fpspin_ruleset_match :: fpspin_ruleset where
  "fpspin_ruleset_match =
     \<lparr>rs_r = replicate NUM_RULES_PER_RULESET FPSPIN_RULE_EMPTY, rs_mode = FPSPIN_MODE_AND\<rparr>"

definition fpspin_ruleset_udp :: fpspin_ruleset where
  "fpspin_ruleset_udp =
     \<lparr>rs_r = [FPSPIN_RULE_IP, FPSPIN_RULE_IP_PROTO 17, FPSPIN_RULE_EMPTY, FPSPIN_RULE_FALSE],
      rs_mode = FPSPIN_MODE_AND\<rparr>"

definition fpspin_ruleset_slmp :: fpspin_ruleset where
  "fpspin_ruleset_slmp =
     \<lparr>rs_r = [FPSPIN_RULE_IP, FPSPIN_RULE_IP_PROTO 17, FPSPIN_RULE_UDP_DPORT 9330,
        \<lparr>r_idx = 10, r_mask = 0x8000, r_start = 0x8000, r_end = 0x8000\<rparr>],
      rs_mode = FPSPIN_MODE_AND\<rparr>"

section \<open>The matching engine\<close>

text \<open>The matcher register holds the first bytes of the packet, zero beyond its end.\<close>

definition pkt_byte :: "u8 list \<Rightarrow> nat \<Rightarrow> u8" where
  "pkt_byte pkt i = (if i < length pkt then pkt ! i else 0)"

definition matcher_word :: "u8 list \<Rightarrow> nat \<Rightarrow> u32" where
  "matcher_word pkt i =
     le32 (pkt_byte pkt (4 * i)) (pkt_byte pkt (4 * i + 1)) (pkt_byte pkt (4 * i + 2)) (pkt_byte pkt (4 * i + 3))"

text \<open>One matching unit as the engine stores it.\<close>

record match_unit =
  mu_idx :: u32
  mu_mask :: u32
  mu_start :: u32
  mu_end :: u32

text \<open>\<open>UMATCH_MATCHER_LEN = 66\<close> gives two beats of 64 bytes, that is 32 words and a 5-bit index.\<close>

definition MATCHER_IDX_WIDTH :: nat where "MATCHER_IDX_WIDTH = 5"

definition me_reg :: "string \<Rightarrow> nat \<Rightarrow> u32" where
  "me_reg name n =
     (if name = ''idx'' then 0x2014 else if name = ''mask'' then 0x2054
      else if name = ''start'' then 0x2094 else if name = ''end'' then 0x20d4 else 0x2004)
     + of_nat n * 4"

definition me_valid :: "app \<Rightarrow> bool" where
  "me_valid a \<longleftrightarrow> regs a 0x2000 AND 1 = 1"

definition store_unit :: "app \<Rightarrow> nat \<Rightarrow> match_unit" where
  "store_unit a n =
     (if me_valid a
      then \<lparr>mu_idx = regs a (me_reg ''idx'' n), mu_mask = regs a (me_reg ''mask'' n),
            mu_start = regs a (me_reg ''start'' n), mu_end = regs a (me_reg ''end'' n)\<rparr>
      else \<lparr>mu_idx = 0, mu_mask = 0, mu_start = 1, mu_end = 0\<rparr>)"

definition store_mode_or :: "app \<Rightarrow> nat \<Rightarrow> bool" where
  "store_mode_or a j \<longleftrightarrow> me_valid a \<and> regs a (me_reg ''mode'' j) AND 1 = 1"

definition unit_matched :: "match_unit \<Rightarrow> u8 list \<Rightarrow> bool" where
  "unit_matched u pkt \<longleftrightarrow>
     (let mu_data = matcher_word pkt (unat (mu_idx u) mod 2 ^ MATCHER_IDX_WIDTH) AND mu_mask u
      in mu_start u \<le> mu_data \<and> mu_end u \<ge> mu_data)"

definition mu_matched :: "app \<Rightarrow> u8 list \<Rightarrow> nat \<Rightarrow> nat \<Rightarrow> bool" where
  "mu_matched a pkt j i = unit_matched (store_unit a (j * UMATCH_RULESETS + i)) pkt"

definition ruleset_matched :: "app \<Rightarrow> u8 list \<Rightarrow> nat \<Rightarrow> bool" where
  "ruleset_matched a pkt j =
     (if store_mode_or a j
      then list_ex (mu_matched a pkt j) [0..<UMATCH_ENTRIES - 1]
      else list_all (mu_matched a pkt j) [0..<UMATCH_ENTRIES - 1])"

definition ruleset_eom :: "app \<Rightarrow> u8 list \<Rightarrow> nat \<Rightarrow> bool" where
  "ruleset_eom a pkt j = mu_matched a pkt j (UMATCH_ENTRIES - 1)"

text \<open>
  The priority encoder: the loop runs from the last ruleset down, so the lowest one that matches
  stays. The result is the tag of the packet: message id, end of message, ruleset. The message id
  is \<open>MSG_ID_WIDTH\<close> = 16 bits wide, so it keeps only the low half of the eleventh word.
\<close>

record match_tag =
  tag_msg_id :: u16
  tag_eom :: bool
  tag_ruleset :: nat

definition match_packet :: "app \<Rightarrow> u8 list \<Rightarrow> match_tag option" where
  "match_packet a pkt =
     fold (\<lambda>j m. if ruleset_matched a pkt j
             then Some \<lparr>tag_msg_id = ucast (matcher_word pkt 11), tag_eom = ruleset_eom a pkt j, tag_ruleset = j\<rparr>
             else m) (rev [0..<UMATCH_RULESETS]) None"

text \<open>What the loader writes for a rule: the index as it is, the rest in network byte order.\<close>

definition rule_unit :: "fpspin_rule \<Rightarrow> match_unit" where
  "rule_unit ru = \<lparr>mu_idx = r_idx ru, mu_mask = htonl (r_mask ru), mu_start = htonl (r_start ru),
     mu_end = htonl (r_end ru)\<rparr>"

section \<open>What the rules match\<close>

lemma le32_inject: "le32 a b c d = le32 a' b' c' d' \<longleftrightarrow> a = a' \<and> b = b' \<and> c = c' \<and> d = d'"
proof
  assume "le32 a b c d = le32 a' b' c' d'"
  then have "bytes32 (le32 a b c d) = bytes32 (le32 a' b' c' d')" by (rule arg_cong)
  then show "a = a' \<and> b = b' \<and> c = c' \<and> d = d'" by simp
qed simp

lemma le32_and: "le32 a b c d AND le32 a' b' c' d' = le32 (a AND a') (b AND b') (c AND c') (d AND d')"
  by (rule bit_word_eqI) (auto simp: le32_def bit_simps)

lemma unit_matched_eq:
  assumes "mu_start u = mu_end u"
  shows "unit_matched u pkt \<longleftrightarrow> matcher_word pkt (unat (mu_idx u) mod 32) AND mu_mask u = mu_end u"
  using assms by (auto simp: unit_matched_def Let_def MATCHER_IDX_WIDTH_def)

lemma u8_and_ff [simp]: "(x :: u8) AND 0xff = x"
proof -
  have m: "(0xff :: u8) = mask 8" by (simp add: mask_eq_exp_minus_1)
  show ?thesis unfolding m by (rule bit_word_eqI) (simp add: bit_simps)
qed

lemma u8_and_zero [simp]: "(x :: u8) AND 0 = 0"
  by (rule bit_word_eqI) (simp add: bit_simps)

lemma unit_matched_bytes:
  assumes "mu_start u = mu_end u" "mu_mask u = le32 m0 m1 m2 m3" "mu_end u = le32 e0 e1 e2 e3"
    "unat (mu_idx u) = k" "k < 32"
  shows "unit_matched u pkt \<longleftrightarrow> pkt_byte pkt (4 * k) AND m0 = e0 \<and> pkt_byte pkt (4 * k + 1) AND m1 = e1
    \<and> pkt_byte pkt (4 * k + 2) AND m2 = e2 \<and> pkt_byte pkt (4 * k + 3) AND m3 = e3"
proof -
  have "unat (mu_idx u) mod 32 = k" using assms(4,5) by simp
  then have "unit_matched u pkt \<longleftrightarrow> matcher_word pkt k AND mu_mask u = mu_end u"
    by (simp only: unit_matched_eq [OF assms(1)])
  then show ?thesis by (simp only: matcher_word_def assms(2,3) le32_and le32_inject)
qed

lemma rule_ip_matches:
  "unit_matched (rule_unit FPSPIN_RULE_IP) pkt \<longleftrightarrow> pkt_byte pkt 12 = 0x08 \<and> pkt_byte pkt 13 = 0x00"
proof -
  have "htonl 0xffff0000 = le32 0xff 0xff 0 0" "htonl 0x08000000 = le32 0x08 0x00 0 0" by code_simp+
  then show ?thesis
    using unit_matched_bytes [of "rule_unit FPSPIN_RULE_IP" "0xff" "0xff" 0 0 "0x08" "0x00" 0 0 3 pkt]
    by (simp add: rule_unit_def FPSPIN_RULE_IP_def)
qed

lemma rule_ip_proto_matches:
  "unit_matched (rule_unit (FPSPIN_RULE_IP_PROTO 17)) pkt \<longleftrightarrow> pkt_byte pkt 23 = 17"
proof -
  have "htonl 0xff = le32 0 0 0 0xff" "htonl 17 = le32 0 0 0 17" by code_simp+
  then show ?thesis
    using unit_matched_bytes [of "rule_unit (FPSPIN_RULE_IP_PROTO 17)" 0 0 0 "0xff" 0 0 0 17 5 pkt]
    by (simp add: rule_unit_def FPSPIN_RULE_IP_PROTO_def)
qed

lemma bswap_16_mask: "bswap_16 v = push_bit 8 (v AND mask 8) OR drop_bit 8 v"
  by (simp add: bswap_16_def mask_eq_exp_minus_1)

lemma bytes32_htonl: "bytes32 (htonl v) = rev (bytes32 v)"
proof -
  have "(ucast (htonl v) :: u8) = ucast (drop_bit 24 v)"
    by (rule bit_word_eqI) (auto simp: bswap_32_def bswap_16_mask bit_simps)
  moreover have "(ucast (drop_bit 8 (htonl v)) :: u8) = ucast (drop_bit 16 v)"
    by (rule bit_word_eqI) (auto simp: bswap_32_def bswap_16_mask bit_simps)
  moreover have "(ucast (drop_bit 16 (htonl v)) :: u8) = ucast (drop_bit 8 v)"
    by (rule bit_word_eqI) (auto simp: bswap_32_def bswap_16_mask bit_simps)
  moreover have "(ucast (drop_bit 24 (htonl v)) :: u8) = ucast v"
    by (rule bit_word_eqI) (auto simp: bswap_32_def bswap_16_mask bit_simps)
  ultimately show ?thesis by (simp add: bytes32_def)
qed

lemma htonl_bytes: "htonl (le32 a b c d) = le32 d c b a"
  by (rule bytes32_inject) (simp add: bytes32_htonl)

lemma u8_and_80: "(x :: u8) AND 0x80 = 0x80 \<longleftrightarrow> bit x 7"
proof
  have "bit (0x80 :: u8) 7" by code_simp
  moreover assume "x AND 0x80 = 0x80"
  ultimately have "bit (x AND 0x80) 7" by simp
  then show "bit x 7" by (simp add: bit_and_iff)
next
  have "list_all (\<lambda>n. bit (0x80 :: u8) n \<longrightarrow> n = 7) [0..<8]" by code_simp
  then have "bit (0x80 :: u8) n \<Longrightarrow> n < 8 \<Longrightarrow> n = 7" for n by (auto simp: list_all_iff)
  moreover assume "bit x 7"
  ultimately show "x AND 0x80 = 0x80" by (intro bit_word_eqI) (auto simp: bit_and_iff)
qed

lemma rule_slmp_port_matches:
  "unit_matched (rule_unit (FPSPIN_RULE_UDP_DPORT 9330)) pkt \<longleftrightarrow> pkt_byte pkt 36 = 0x24 \<and> pkt_byte pkt 37 = 0x72"
proof -
  have "htonl 0xffff0000 = le32 0xff 0xff 0 0" "htonl (push_bit 16 9330) = le32 0x24 0x72 0 0" by code_simp+
  then show ?thesis
    using unit_matched_bytes [of "rule_unit (FPSPIN_RULE_UDP_DPORT 9330)" "0xff" "0xff" 0 0 "0x24" "0x72" 0 0 9 pkt]
    by (simp add: rule_unit_def FPSPIN_RULE_UDP_DPORT_def)
qed

lemma rule_slmp_eom_matches:
  "unit_matched (rule_unit \<lparr>r_idx = 10, r_mask = 0x8000, r_start = 0x8000, r_end = 0x8000\<rparr>) pkt
    \<longleftrightarrow> bit (pkt_byte pkt 42) 7"
proof -
  have "htonl 0x8000 = le32 0 0 0x80 0" by code_simp
  then show ?thesis
    using unit_matched_bytes [of "rule_unit \<lparr>r_idx = 10, r_mask = 0x8000, r_start = 0x8000, r_end = 0x8000\<rparr>"
        0 0 "0x80" 0 0 0 "0x80" 0 10 pkt]
    by (simp add: rule_unit_def u8_and_80)
qed

lemma rule_empty_matches: "unit_matched (rule_unit FPSPIN_RULE_EMPTY) pkt"
proof -
  have "htonl 0 = 0" by code_simp
  then show ?thesis by (simp add: unit_matched_def rule_unit_def FPSPIN_RULE_EMPTY_def Let_def)
qed

lemma rule_false_matches: "\<not> unit_matched (rule_unit FPSPIN_RULE_FALSE) pkt"
proof -
  have "htonl 0 = 0" "htonl 1 = 0x01000000" by code_simp+
  then show ?thesis by (simp add: unit_matched_def rule_unit_def FPSPIN_RULE_FALSE_def Let_def)
qed

text \<open>
  The source port rule swaps the port twice: it matches packets whose source port, in network byte
  order, is the byte-swapped number.
\<close>

lemma rule_udp_sport_swapped:
  "unit_matched (rule_unit (FPSPIN_RULE_UDP_SPORT num)) pkt
    \<longleftrightarrow> pkt_byte pkt 34 = ucast num \<and> pkt_byte pkt 35 = ucast (drop_bit 8 num)"
proof -
  have m: "htonl 0xffff = le32 0 0 0xff 0xff" by code_simp
  have "ucast (htons num) = le32 (ucast (drop_bit 8 num)) (ucast num) 0 0"
    by (rule bit_word_eqI) (auto simp: le32_def bswap_16_mask bit_simps dest: bit_imp_le_length)
  then have e: "htonl (ucast (htons num)) = le32 0 0 (ucast num) (ucast (drop_bit 8 num))"
    by (simp add: htonl_bytes)
  show ?thesis
    using unit_matched_bytes [of "rule_unit (FPSPIN_RULE_UDP_SPORT num)" 0 0 "0xff" "0xff" 0 0
        "ucast num" "ucast (drop_bit 8 num)" 8 pkt] m e
    by (simp add: rule_unit_def FPSPIN_RULE_UDP_SPORT_def)
qed

section \<open>Matching with a programmed engine\<close>

text \<open>The engine registers of ruleset j hold the rules of \<open>rs\<close>.\<close>

definition ruleset_loaded :: "app \<Rightarrow> nat \<Rightarrow> fpspin_ruleset \<Rightarrow> bool" where
  "ruleset_loaded a j rs \<longleftrightarrow>
     (\<forall>i < NUM_RULES_PER_RULESET. store_unit a (j * NUM_RULES_PER_RULESET + i) = rule_unit (rs_r rs ! i))"

lemma upt_3: "[0..<3] = [0, 1, 2 :: nat]"
  by (simp add: numeral_eq_Suc)

lemma ruleset_matched_loaded:
  assumes "ruleset_loaded a j rs" "\<not> store_mode_or a j"
  shows "ruleset_matched a pkt j \<longleftrightarrow> unit_matched (rule_unit (rs_r rs ! 0)) pkt
      \<and> unit_matched (rule_unit (rs_r rs ! 1)) pkt \<and> unit_matched (rule_unit (rs_r rs ! 2)) pkt"
    and "ruleset_eom a pkt j \<longleftrightarrow> unit_matched (rule_unit (rs_r rs ! 3)) pkt"
proof -
  have u: "store_unit a (j * 4 + i) = rule_unit (rs_r rs ! i)" if "i < 4" for i
    using assms(1) that by (simp add: ruleset_loaded_def NUM_RULES_PER_RULESET_def)
  then show "ruleset_matched a pkt j \<longleftrightarrow> unit_matched (rule_unit (rs_r rs ! 0)) pkt
      \<and> unit_matched (rule_unit (rs_r rs ! 1)) pkt \<and> unit_matched (rule_unit (rs_r rs ! 2)) pkt"
    "ruleset_eom a pkt j \<longleftrightarrow> unit_matched (rule_unit (rs_r rs ! 3)) pkt"
    using assms(2) u [of 0] u [of 1] u [of 2] u [of 3]
    by (simp_all add: ruleset_matched_def ruleset_eom_def mu_matched_def UMATCH_ENTRIES_def
        UMATCH_RULESETS_def upt_3)
qed

text \<open>An SLMP packet: IPv4, UDP, destination port 9330; the first flag bit ends the message.\<close>

definition is_slmp :: "u8 list \<Rightarrow> bool" where
  "is_slmp pkt \<longleftrightarrow> pkt_byte pkt 12 = 0x08 \<and> pkt_byte pkt 13 = 0x00 \<and> pkt_byte pkt 23 = 17
     \<and> pkt_byte pkt 36 = 0x24 \<and> pkt_byte pkt 37 = 0x72"

lemma slmp_ruleset_matches:
  assumes "ruleset_loaded a j fpspin_ruleset_slmp" "\<not> store_mode_or a j"
  shows "ruleset_matched a pkt j \<longleftrightarrow> is_slmp pkt" "ruleset_eom a pkt j \<longleftrightarrow> bit (pkt_byte pkt 42) 7"
  using ruleset_matched_loaded [OF assms, of pkt] rule_ip_matches [of pkt] rule_ip_proto_matches [of pkt]
    rule_slmp_port_matches [of pkt] rule_slmp_eom_matches [of pkt]
  by (simp_all add: fpspin_ruleset_slmp_def is_slmp_def)

lemma bypass_ruleset_matches:
  assumes "ruleset_loaded a j fpspin_ruleset_bypass" "\<not> store_mode_or a j"
  shows "\<not> ruleset_matched a pkt j"
  using ruleset_matched_loaded [OF assms, of pkt] rule_false_matches [of pkt]
  by (simp add: fpspin_ruleset_bypass_def NUM_RULES_PER_RULESET_def)

lemma udp_ruleset_matches:
  assumes "ruleset_loaded a j fpspin_ruleset_udp" "\<not> store_mode_or a j"
  shows "ruleset_matched a pkt j \<longleftrightarrow> pkt_byte pkt 12 = 0x08 \<and> pkt_byte pkt 13 = 0x00 \<and> pkt_byte pkt 23 = 17"
    "\<not> ruleset_eom a pkt j"
  using ruleset_matched_loaded [OF assms, of pkt] rule_ip_matches [of pkt] rule_ip_proto_matches [of pkt]
    rule_empty_matches [of pkt] rule_false_matches [of pkt]
  by (simp_all add: fpspin_ruleset_udp_def)

lemma match_packet_first:
  "match_packet a pkt =
     (if ruleset_matched a pkt 0 then Some \<lparr>tag_msg_id = ucast (matcher_word pkt 11), tag_eom = ruleset_eom a pkt 0, tag_ruleset = 0\<rparr>
      else if ruleset_matched a pkt 1 then Some \<lparr>tag_msg_id = ucast (matcher_word pkt 11), tag_eom = ruleset_eom a pkt 1, tag_ruleset = 1\<rparr>
      else if ruleset_matched a pkt 2 then Some \<lparr>tag_msg_id = ucast (matcher_word pkt 11), tag_eom = ruleset_eom a pkt 2, tag_ruleset = 2\<rparr>
      else if ruleset_matched a pkt 3 then Some \<lparr>tag_msg_id = ucast (matcher_word pkt 11), tag_eom = ruleset_eom a pkt 3, tag_ruleset = 3\<rparr>
      else None)"
proof -
  have "rev [0..<UMATCH_RULESETS] = [3, 2, 1, 0]" by code_simp
  then show ?thesis by (simp add: match_packet_def)
qed

text \<open>
  The low half of the word holds the first two bytes of the field, and the sender writes the
  message id in network byte order: the tag is made of its upper half, and two messages whose ids
  agree there get the same tag.
\<close>

lemma msg_id_tag_bytes:
  "(ucast (matcher_word pkt 11) :: u16) = ucast (pkt_byte pkt 44) OR push_bit 8 (ucast (pkt_byte pkt 45))"
  by (rule bit_word_eqI) (auto simp: matcher_word_def le32_def bit_simps dest: bit_imp_le_length)

lemma msg_id_tag_upper_half:
  assumes "map (pkt_byte pkt) [44, 45, 46, 47] = bytes32 (htonl msgid)"
    and "map (pkt_byte pkt') [44, 45, 46, 47] = bytes32 (htonl msgid')" "drop_bit 16 msgid = drop_bit 16 msgid'"
  shows "(ucast (matcher_word pkt 11) :: u16) = ucast (matcher_word pkt' 11)"
proof -
  have b: "pkt_byte pkt 44 = ucast (drop_bit 8 (drop_bit 16 msgid)) \<and> pkt_byte pkt 45 = ucast (drop_bit 16 msgid)"
    if "map (pkt_byte pkt) [44, 45, 46, 47] = bytes32 (htonl msgid)" for pkt msgid
    using that by (simp add: bytes32_htonl) (simp add: bytes32_def)
  from b [OF assms(1)] b [OF assms(2)]
  have "pkt_byte pkt 44 = pkt_byte pkt' 44" "pkt_byte pkt 45 = pkt_byte pkt' 45"
    by (simp_all only: assms(3))
  then show ?thesis by (simp only: msg_id_tag_bytes)
qed

end
