(* ===== verification/Fpspin_Loader.thy ===== *)
theory Fpspin_Loader
  imports Match_Rules
begin

text \<open>
  The host library's loader (\<open>lib/fpspin/loader.c\<close>): register writes through the sysfs files of the
  kernel module, the matching engine set-up, copying of program sections into NIC memory, and
  loading and unloading of a handler image. The library acts on the driver model of the kernel
  module; what \<open>objcopy\<close>, \<open>nm\<close> and \<open>readelf\<close> report of the image is a parameter.
\<close>

unbundle bit_operations_syntax

section \<open>Process state\<close>

record mem_area =
  ma_addr :: u32
  ma_size :: u32

text \<open>The part of \<open>fpspin_ctx_t\<close> that the loader and the runtime use.\<close>

record fpspin_ctx =
  c_ctx_id :: s32
  c_mmap_len :: u64
  c_dma_idx :: "u8 list"
  c_host_data_ptr :: u64
  c_hh :: mem_area
  c_ph :: mem_area
  c_th :: mem_area
  c_handler_mem :: mem_area

text \<open>The open device with its position, the kernel module behind it, and the context.\<close>

record sys =
  s_dev :: pspin_cdev
  s_app :: app
  s_pos :: u64
  s_ctx :: fpspin_ctx

text \<open>A library call returns, ends the process with \<open>exit(EXIT_FAILURE)\<close>, or does not return.\<close>

datatype outcome = Running sys | Exited sys | Hangs

type_synonym io = "sys \<Rightarrow> outcome"

definition then_io :: "io \<Rightarrow> io \<Rightarrow> io" where
  "then_io m k s = (case m s of Running s' \<Rightarrow> k s' | Exited s' \<Rightarrow> Exited s' | Hangs \<Rightarrow> Hangs)"

fun seq_io :: "io list \<Rightarrow> io" where
  "seq_io [] s = Running s"
| "seq_io (m # ms) s = then_io m (seq_io ms) s"

section \<open>Registers\<close>

text \<open>
  \<open>write_reg\<close>: opening the file fails when there is no such register or it cannot be written; the
  value is printed in decimal and reaches the driver when the file is closed.
\<close>

definition write_reg :: "string \<Rightarrow> int \<Rightarrow> u32 \<Rightarrow> io" where
  "write_reg name i val s =
     (case (if i < 0 then None else find_attr name (nat i)) of
        None \<Rightarrow> Exited s
      | Some attr \<Rightarrow>
          if \<not> pa_store attr then Exited s
          else (case pspin_reg_store attr (print_u (unat val)) (s_app s) of
                  (Inl e, a) \<Rightarrow> Exited (s\<lparr>s_app := a\<rparr>)
                | (Inr n, a) \<Rightarrow> Running (s\<lparr>s_app := a\<rparr>)))"

definition NUM_CLUSTERS :: nat where "NUM_CLUSTERS = 2"

definition cycle_reset :: io where
  "cycle_reset = seq_io [write_reg ''cl/ctrl'' 1 1, write_reg ''cl/ctrl'' 1 0]"

definition fetch_on :: io where "fetch_on = write_reg ''cl/ctrl'' 0 (push_bit NUM_CLUSTERS 1 - 1)"
definition fetch_off :: io where "fetch_off = write_reg ''cl/ctrl'' 0 0"
definition me_on :: io where "me_on = write_reg ''me/valid'' 0 1"
definition me_off :: io where "me_off = write_reg ''me/valid'' 0 0"
definition her_on :: io where "her_on = write_reg ''her/valid'' 0 1"
definition her_off :: io where "her_off = write_reg ''her/valid'' 0 0"

section \<open>Matching engine\<close>

definition set_me_rule :: "int \<Rightarrow> nat \<Rightarrow> fpspin_rule \<Rightarrow> io" where
  "set_me_rule ctx_id rid ru =
     (let reg_id = ctx_id * int NUM_RULES_PER_RULESET + int rid
      in seq_io [write_reg ''me/idx'' reg_id (r_idx ru),
                 write_reg ''me/mask'' reg_id (htonl (r_mask ru)),
                 write_reg ''me/start'' reg_id (htonl (r_start ru)),
                 write_reg ''me/end'' reg_id (htonl (r_end ru))])"

definition fpspin_set_me_ruleset :: "int \<Rightarrow> fpspin_ruleset \<Rightarrow> io" where
  "fpspin_set_me_ruleset ctx_id rs =
     seq_io (map (\<lambda>i. set_me_rule ctx_id i (rs_r rs ! i)) [0..<NUM_RULES_PER_RULESET])"

definition fpspin_prog_me :: "fpspin_ruleset list \<Rightarrow> io" where
  "fpspin_prog_me rs s =
     (if length rs > NUM_RULESETS then Exited s
      else seq_io ([me_off]
             @ map (\<lambda>i. fpspin_set_me_ruleset (int i)
                      (if i \<ge> length rs then fpspin_ruleset_bypass else rs ! i)) [0..<NUM_RULESETS]
             @ [me_on]) s)"

section \<open>NIC memory\<close>

text \<open>
  The loop of \<open>fpspin_write_memory\<close>. \<open>write\<close> returns -1 on error, which is the largest \<open>size_t\<close>, so
  the test for a negative count never holds. The kernel passes at most \<open>MAX_RW_COUNT\<close> bytes on.
\<close>

partial_function (option) write_loop :: "(u64 \<Rightarrow> u8) \<Rightarrow> u64 \<Rightarrow> u64 \<Rightarrow> sys \<Rightarrow> sys option" where
  "write_loop mem host_addr len s =
     (let cnt = min len MAX_RW_COUNT;
          buf = map (\<lambda>i. mem (host_addr + of_nat i)) [0..<unat cnt]
      in case pspin_write True True (s_dev s) (s_app s) buf cnt (s_pos s) of
           None \<Rightarrow> None
         | Some (r, dev, a, f_pos) \<Rightarrow>
             (let bytes_written = (case r of Inl e \<Rightarrow> - 1 | Inr n \<Rightarrow> n);
                  s = s\<lparr>s_dev := dev, s_app := a, s_pos := f_pos\<rparr>;
                  len = len - bytes_written;
                  host_addr = host_addr + bytes_written
              in if len = 0 then Some s else write_loop mem host_addr len s))"

definition fpspin_write_memory :: "u32 \<Rightarrow> (u64 \<Rightarrow> u8) \<Rightarrow> u64 \<Rightarrow> u64 \<Rightarrow> io" where
  "fpspin_write_memory pspin_addr mem host_addr len s =
     (case pspin_llseek (s_dev s) (s_app s) (ucast pspin_addr) SEEK_SET (s_pos s) of
        (Inl e, f_pos) \<Rightarrow> Exited (s\<lparr>s_pos := f_pos\<rparr>)
      | (Inr p, f_pos) \<Rightarrow>
          (case write_loop mem host_addr len (s\<lparr>s_pos := f_pos\<rparr>) of
             None \<Rightarrow> Hangs
           | Some s \<Rightarrow> Running s))"

text \<open>The image as the binary tools show it: section contents, symbols, and the data section.\<close>

record image =
  img_section :: "string \<Rightarrow> u8 list"
  img_symbol :: "string \<Rightarrow> u32 option"
  img_l2_data :: "u32 \<times> u32"

text \<open>
  The loop of \<open>write_section\<close> over the section's bytes, 4096 at a time; the last iteration reads
  nothing and still calls \<open>fpspin_write_memory\<close>.
\<close>

function write_chunks :: "u64 \<Rightarrow> u8 list \<Rightarrow> io" where
  "write_chunks addr bytes s =
     (let bin_buf = take 4096 bytes
      in case fpspin_write_memory (ucast addr) (\<lambda>i. bin_buf ! unat i) 0 (of_nat (length bin_buf)) s of
           Running s \<Rightarrow>
             if bin_buf = [] then Running s
             else write_chunks (addr + of_nat (length bin_buf)) (drop 4096 bytes) s
         | Exited s \<Rightarrow> Exited s
         | Hangs \<Rightarrow> Hangs)"
  by pat_completeness auto
termination by (relation "measure (\<lambda>(addr, bytes, s). length bytes)") auto

declare write_chunks.simps [simp del]

definition write_section :: "image \<Rightarrow> string \<Rightarrow> u64 \<Rightarrow> io" where
  "write_section img section addr = write_chunks addr (img_section img section)"

section \<open>Loading and unloading\<close>

definition set_handler :: "image \<Rightarrow> string \<Rightarrow> (mem_area \<Rightarrow> fpspin_ctx \<Rightarrow> fpspin_ctx) \<Rightarrow> io" where
  "set_handler img handler out_area s =
     (let (haddr, hsize) = (case img_symbol img handler of None \<Rightarrow> (0, 0) | Some x \<Rightarrow> (x, 4096));
          ctx_id = sint (c_ctx_id (s_ctx s));
          s = s\<lparr>s_ctx := out_area \<lparr>ma_addr = haddr, ma_size = hsize\<rparr> (s_ctx s)\<rparr>
      in seq_io [write_reg (''her_meta/'' @ handler @ ''_addr'') ctx_id haddr,
                 write_reg (''her_meta/'' @ handler @ ''_size'') ctx_id hsize] s)"

definition L2_END :: u64 where "L2_END = 0x1c100000"

definition set_handler_mem :: "image \<Rightarrow> io" where
  "set_handler_mem img s =
     (let (l2_daddr, l2_dsize) = img_l2_data img;
          mem_addr = l2_daddr + l2_dsize;
          mem_size = ucast (L2_END - ucast l2_daddr);
          ctx_id = sint (c_ctx_id (s_ctx s));
          s = s\<lparr>s_ctx := (s_ctx s)\<lparr>c_handler_mem := \<lparr>ma_addr = mem_addr, ma_size = mem_size\<rparr>\<rparr>\<rparr>
      in seq_io [write_reg ''her_meta/handler_mem_addr'' ctx_id mem_addr,
                 write_reg ''her_meta/handler_mem_size'' ctx_id mem_size] s)"

definition load_sections :: "image \<Rightarrow> io" where
  "load_sections img =
     seq_io [write_section img ''.rodata'' 0x1c000000, write_section img ''.l2_handler_data'' 0x1c0c0000,
             write_section img ''.vectors'' 0x1d000000, write_section img ''.text'' 0x1d000100]"

definition load_her :: "int \<Rightarrow> u64 \<Rightarrow> u32 \<Rightarrow> io" where
  "load_her ctx_id hostmem_ptr hostmem_size =
     seq_io [write_reg ''her_meta/host_mem_addr_1'' ctx_id (ucast (drop_bit 32 hostmem_ptr)),
             write_reg ''her_meta/host_mem_addr_0'' ctx_id (ucast hostmem_ptr),
             write_reg ''her_meta/host_mem_size'' ctx_id hostmem_size,
             write_reg ''her_meta/scratchpad_0_size'' ctx_id 4096,
             write_reg ''her_meta/scratchpad_1_size'' ctx_id 4096,
             write_reg ''her/ctx_enabled'' ctx_id 1,
             her_on]"

definition fpspin_load :: "image \<Rightarrow> u64 \<Rightarrow> u32 \<Rightarrow> io" where
  "fpspin_load img hostmem_ptr hostmem_size s =
     seq_io [fetch_off, cycle_reset, load_sections img, fetch_on, her_off,
             set_handler img ''hh'' (\<lambda>m c. c\<lparr>c_hh := m\<rparr>), set_handler img ''ph'' (\<lambda>m c. c\<lparr>c_ph := m\<rparr>),
             set_handler img ''th'' (\<lambda>m c. c\<lparr>c_th := m\<rparr>), set_handler_mem img,
             load_her (sint (c_ctx_id (s_ctx s))) hostmem_ptr hostmem_size] s"

definition fpspin_unload :: io where
  "fpspin_unload s =
     seq_io [fetch_off, cycle_reset, me_off,
             fpspin_set_me_ruleset (sint (c_ctx_id (s_ctx s))) fpspin_ruleset_bypass, me_on] s"

section \<open>Register writes that the driver accepts\<close>

lemma write_reg_ok:
  assumes "find_attr name n = Some attr" "pa_store attr" "pa_check attr = Some c"
    "check_func c (pa_idx attr) val (s_app s) = (True, a')"
  shows "write_reg name (int n) val s = Running (s\<lparr>s_app := reg_write val (ATTR_REG_ADDR attr) a'\<rparr>)"
proof -
  have "sscanf_u (print_u (unat val)) 0 = val" using sscanf_print_u [of "[]" val] by simp
  with assms show ?thesis by (simp add: write_reg_def pspin_reg_store_def Let_def)
qed

text \<open>A register of the table: where it is and which check guards it.\<close>

definition has_reg :: "string \<Rightarrow> nat \<Rightarrow> check_id \<Rightarrow> u32 \<Rightarrow> bool" where
  "has_reg name n c addr =
     (case find_attr name n of
        None \<Rightarrow> False
      | Some attr \<Rightarrow> pa_store attr \<and> pa_check attr = Some c \<and> pa_idx attr = of_nat n \<and> ATTR_REG_ADDR attr = addr)"

lemma write_reg_has_reg:
  assumes "has_reg name n c addr" "check_func c (of_nat n) val (s_app s) = (True, a')"
  shows "write_reg name (int n) val s = Running (s\<lparr>s_app := reg_write val addr a'\<rparr>)"
  using assms by (auto simp: has_reg_def intro!: write_reg_ok split: option.splits)

lemma me_conf_regs:
  "list_all (\<lambda>n. has_reg ''me/idx'' n check_me_in_conf_id (me_reg ''idx'' n)
     \<and> has_reg ''me/mask'' n check_me_in_conf_id (me_reg ''mask'' n)
     \<and> has_reg ''me/start'' n check_me_in_conf_id (me_reg ''start'' n)
     \<and> has_reg ''me/end'' n check_me_in_conf_id (me_reg ''end'' n)) [0..<16]"
  by code_simp

lemma her_conf_regs:
  "list_all (\<lambda>name. list_all (\<lambda>n. has_reg (''her_meta/'' @ fst name) n check_her_in_conf_id (snd name + of_nat n * 4)) [0..<4])
     [(''handler_mem_addr'', 0x4000), (''handler_mem_size'', 0x4010), (''host_mem_addr_0'', 0x4020),
      (''host_mem_addr_1'', 0x4030), (''host_mem_size'', 0x4040), (''hh_addr'', 0x4050), (''hh_size'', 0x4060),
      (''ph_addr'', 0x4070), (''ph_size'', 0x4080), (''th_addr'', 0x4090), (''th_size'', 0x40a0),
      (''scratchpad_0_size'', 0x40c0), (''scratchpad_1_size'', 0x40e0)]"
  "list_all (\<lambda>n. has_reg ''her/ctx_enabled'' n check_her_in_conf_id (0x3004 + of_nat n * 4)) [0..<4]"
  by code_simp+

lemma enable_regs:
  "has_reg ''cl/ctrl'' 0 check_cl_ctrl_id 0x0" "has_reg ''cl/ctrl'' 1 check_cl_ctrl_id 0x4"
  "has_reg ''me/valid'' 0 check_me_en_id 0x2000" "has_reg ''her/valid'' 0 check_her_en_id 0x3000"
  by code_simp+

lemma me_conf_write:
  assumes "in_me_conf (s_app s)" "n < 16"
  shows "write_reg ''me/idx'' (int n) v s = Running (s\<lparr>s_app := reg_write v (me_reg ''idx'' n) (s_app s)\<rparr>)"
    "write_reg ''me/mask'' (int n) v s = Running (s\<lparr>s_app := reg_write v (me_reg ''mask'' n) (s_app s)\<rparr>)"
    "write_reg ''me/start'' (int n) v s = Running (s\<lparr>s_app := reg_write v (me_reg ''start'' n) (s_app s)\<rparr>)"
    "write_reg ''me/end'' (int n) v s = Running (s\<lparr>s_app := reg_write v (me_reg ''end'' n) (s_app s)\<rparr>)"
proof -
  have "check_func check_me_in_conf_id (of_nat n) v (s_app s) = (True, s_app s)"
    using assms(1) by (simp add: check_me_in_conf_def)
  moreover have "has_reg ''me/idx'' n check_me_in_conf_id (me_reg ''idx'' n)"
    "has_reg ''me/mask'' n check_me_in_conf_id (me_reg ''mask'' n)"
    "has_reg ''me/start'' n check_me_in_conf_id (me_reg ''start'' n)"
    "has_reg ''me/end'' n check_me_in_conf_id (me_reg ''end'' n)"
    using me_conf_regs assms(2) by (simp_all add: list_all_iff)
  ultimately show
    "write_reg ''me/idx'' (int n) v s = Running (s\<lparr>s_app := reg_write v (me_reg ''idx'' n) (s_app s)\<rparr>)"
    "write_reg ''me/mask'' (int n) v s = Running (s\<lparr>s_app := reg_write v (me_reg ''mask'' n) (s_app s)\<rparr>)"
    "write_reg ''me/start'' (int n) v s = Running (s\<lparr>s_app := reg_write v (me_reg ''start'' n) (s_app s)\<rparr>)"
    "write_reg ''me/end'' (int n) v s = Running (s\<lparr>s_app := reg_write v (me_reg ''end'' n) (s_app s)\<rparr>)"
    by (blast intro: write_reg_has_reg)+
qed

section \<open>Programming the matching engine\<close>

definition put_rule :: "nat \<Rightarrow> fpspin_rule \<Rightarrow> app \<Rightarrow> app" where
  "put_rule n ru a =
     reg_write (htonl (r_end ru)) (me_reg ''end'' n) (reg_write (htonl (r_start ru)) (me_reg ''start'' n)
       (reg_write (htonl (r_mask ru)) (me_reg ''mask'' n) (reg_write (r_idx ru) (me_reg ''idx'' n) a)))"

definition me_unit :: "app \<Rightarrow> nat \<Rightarrow> match_unit" where
  "me_unit a n = \<lparr>mu_idx = regs a (me_reg ''idx'' n), mu_mask = regs a (me_reg ''mask'' n),
     mu_start = regs a (me_reg ''start'' n), mu_end = regs a (me_reg ''end'' n)\<rparr>"

lemma unat_me_reg:
  assumes "n < 16"
  shows "unat (me_reg ''idx'' n) = 0x2014 + 4 * n" "unat (me_reg ''mask'' n) = 0x2054 + 4 * n"
    "unat (me_reg ''start'' n) = 0x2094 + 4 * n" "unat (me_reg ''end'' n) = 0x20d4 + 4 * n"
    "unat (me_reg ''mode'' n) = 0x2004 + 4 * n"
proof -
  have "unat (of_nat n * 4 :: u32) = 4 * n" using assms by (simp add: unat_word_ariths unat_of_nat)
  then show "unat (me_reg ''idx'' n) = 0x2014 + 4 * n" "unat (me_reg ''mask'' n) = 0x2054 + 4 * n"
    "unat (me_reg ''start'' n) = 0x2094 + 4 * n" "unat (me_reg ''end'' n) = 0x20d4 + 4 * n"
    "unat (me_reg ''mode'' n) = 0x2004 + 4 * n"
    using assms by (simp_all add: me_reg_def unat_add_u32)
qed

lemma me_unit_put_rule:
  assumes "n < 16" "m < 16"
  shows "me_unit (put_rule n ru a) m = (if m = n then rule_unit ru else me_unit a m)"
  using assms by (auto simp: me_unit_def put_rule_def reg_write_def rule_unit_def word_unat_eq_iff unat_me_reg)

lemma put_rule_frame:
  assumes "n < 16" "unat off < 0x2014 \<or> 0x2114 \<le> unat off"
  shows "regs (put_rule n ru a) off = regs a off"
  using assms by (auto simp: put_rule_def reg_write_def word_unat_eq_iff unat_me_reg)

lemma put_rule_app:
  "\<exists>r. put_rule n ru a = a\<lparr>regs := r\<rparr>"
  by (auto simp: put_rule_def reg_write_def)

lemma set_me_rule_ok:
  assumes "in_me_conf (s_app s)" "c < 4" "i < 4"
  shows "set_me_rule (int c) i ru s = Running (s\<lparr>s_app := put_rule (c * 4 + i) ru (s_app s)\<rparr>)"
proof -
  define n where "n = c * 4 + i"
  have n: "n < 16" and e: "int c * int NUM_RULES_PER_RULESET + int i = int n"
    using assms(2,3) by (simp_all add: NUM_RULES_PER_RULESET_def n_def)
  show ?thesis
    unfolding set_me_rule_def Let_def e n_def [symmetric]
    using assms(1) by (simp add: then_io_def me_conf_write [OF _ n] put_rule_def reg_write_def)
qed

text \<open>A sequence of calls that each change only the device.\<close>

lemma seq_io_map:
  assumes "\<And>x s. x \<in> set xs \<Longrightarrow> P (s_app s) \<Longrightarrow> f x s = Running (s\<lparr>s_app := g x (s_app s)\<rparr>)"
    "\<And>x a. x \<in> set xs \<Longrightarrow> P a \<Longrightarrow> P (g x a)" "P (s_app s)"
  shows "seq_io (map f xs) s = Running (s\<lparr>s_app := fold g xs (s_app s)\<rparr>)"
  using assms
proof (induction xs arbitrary: s)
  case (Cons x xs)
  then have "f x s = Running (s\<lparr>s_app := g x (s_app s)\<rparr>)" "P (g x (s_app s))" by simp_all
  with Cons show ?case by (simp add: then_io_def)
qed simp

lemma seq_io_append: "seq_io (ms @ ms') s = then_io (seq_io ms) (seq_io ms') s"
  by (induction ms arbitrary: s) (simp_all add: then_io_def split: outcome.splits)

definition put_ruleset :: "nat \<Rightarrow> fpspin_ruleset \<Rightarrow> app \<Rightarrow> app" where
  "put_ruleset c rs a = fold (\<lambda>i. put_rule (c * 4 + i) (rs_r rs ! i)) [0..<4] a"

lemma fold_put_rule_app: "\<exists>r. fold (\<lambda>i. put_rule (f i) (g i)) is a = a\<lparr>regs := r\<rparr>"
proof (induction "is" arbitrary: a)
  case Nil
  show ?case by (rule exI [of _ "regs a"]) simp
next
  case (Cons i "is")
  obtain r where "put_rule (f i) (g i) a = a\<lparr>regs := r\<rparr>" using put_rule_app by blast
  with Cons [of "a\<lparr>regs := r\<rparr>"] show ?case by auto
qed

lemma set_me_ruleset_ok:
  assumes "in_me_conf (s_app s)" "c < 4"
  shows "fpspin_set_me_ruleset (int c) rs s = Running (s\<lparr>s_app := put_ruleset c rs (s_app s)\<rparr>)"
  unfolding fpspin_set_me_ruleset_def put_ruleset_def NUM_RULES_PER_RULESET_def
proof (rule seq_io_map [where P = in_me_conf])
  show "set_me_rule (int c) i (rs_r rs ! i) s' = Running (s'\<lparr>s_app := put_rule (c * 4 + i) (rs_r rs ! i) (s_app s')\<rparr>)"
    if "i \<in> set [0..<4]" "in_me_conf (s_app s')" for i s'
    using set_me_rule_ok [OF that(2) assms(2)] that(1) by simp
  show "in_me_conf (put_rule (c * 4 + i) (rs_r rs ! i) a)" if "in_me_conf a" for i a
    using that put_rule_app [of "c * 4 + i" "rs_r rs ! i" a] by auto
qed (rule assms(1))

lemma put_ruleset_app: "\<exists>r. put_ruleset c rs a = a\<lparr>regs := r\<rparr>"
  unfolding put_ruleset_def by (rule fold_put_rule_app)

lemma fold_put_rule_unit:
  assumes "m < 16" "distinct is" "\<forall>i \<in> set is. c * 4 + i < 16"
  shows "me_unit (fold (\<lambda>i. put_rule (c * 4 + i) (g i)) is a) m =
    (if \<exists>i \<in> set is. m = c * 4 + i then rule_unit (g (m - c * 4)) else me_unit a m)"
  using assms
proof (induction "is" arbitrary: a)
  case (Cons i "is")
  then show ?case by (auto simp: me_unit_put_rule)
qed simp

lemma put_ruleset_unit:
  assumes "c < 4" "m < 16"
  shows "me_unit (put_ruleset c rs a) m =
    (if m div 4 = c then rule_unit (rs_r rs ! (m mod 4)) else me_unit a m)"
proof -
  have "(\<exists>i \<in> set [0..<4]. m = c * 4 + i) \<longleftrightarrow> m div 4 = c" by (auto intro!: bexI [of _ "m mod 4"])
  moreover have "m - c * 4 = m mod 4" if "m div 4 = c" using that by (simp add: modulo_nat_def)
  ultimately show ?thesis
    using fold_put_rule_unit [of m "[0..<4]" c "\<lambda>i. rs_r rs ! i" a] assms
    by (auto simp: put_ruleset_def)
qed

lemma put_ruleset_frame:
  assumes "c < 4" "unat off < 0x2014 \<or> 0x2114 \<le> unat off"
  shows "regs (put_ruleset c rs a) off = regs a off"
proof -
  have "regs (fold (\<lambda>i. put_rule (c * 4 + i) (rs_r rs ! i)) is a) off = regs a off"
    if "\<forall>i \<in> set is. i < 4" for "is"
    using that
  proof (induction "is" arbitrary: a)
    case (Cons i "is")
    then show ?case using put_rule_frame [OF _ assms(2), of "c * 4 + i"] assms(1) by simp
  qed simp
  then show ?thesis by (simp add: put_ruleset_def)
qed

lemma me_enable_write:
  "me_off s = Running (s\<lparr>s_app := reg_write 0 0x2000 ((s_app s)\<lparr>in_me_conf := True\<rparr>)\<rparr>)"
  "me_on s = Running (s\<lparr>s_app := reg_write 1 0x2000 ((s_app s)\<lparr>in_me_conf := False\<rparr>)\<rparr>)"
  unfolding me_off_def me_on_def
  using write_reg_has_reg [OF enable_regs(3), of 0 s] write_reg_has_reg [OF enable_regs(3), of 1 s]
  by (simp_all add: check_me_en_def)

definition prog_rulesets :: "fpspin_ruleset list \<Rightarrow> app \<Rightarrow> app" where
  "prog_rulesets rs a =
     fold (\<lambda>i. put_ruleset i (if i \<ge> length rs then fpspin_ruleset_bypass else rs ! i)) [0..<4] a"

lemma fold_put_ruleset_app: "\<exists>r. fold (\<lambda>i. put_ruleset i (g i)) is a = a\<lparr>regs := r\<rparr>"
proof (induction "is" arbitrary: a)
  case Nil
  show ?case by (rule exI [of _ "regs a"]) simp
next
  case (Cons i "is")
  obtain r where "put_ruleset i (g i) a = a\<lparr>regs := r\<rparr>" using put_ruleset_app by blast
  with Cons [of "a\<lparr>regs := r\<rparr>"] show ?case by auto
qed

lemma fold_put_ruleset_unit:
  assumes "m < 16" "distinct is" "\<forall>i \<in> set is. i < 4"
  shows "me_unit (fold (\<lambda>i. put_ruleset i (g i)) is a) m =
    (if m div 4 \<in> set is then rule_unit (rs_r (g (m div 4)) ! (m mod 4)) else me_unit a m)"
  using assms
proof (induction "is" arbitrary: a)
  case (Cons i "is")
  then show ?case by (auto simp: put_ruleset_unit)
qed simp

lemma prog_rulesets_unit:
  "c < 4 \<Longrightarrow> i < 4 \<Longrightarrow> me_unit (prog_rulesets rs a) (c * 4 + i)
    = rule_unit (rs_r (if c < length rs then rs ! c else fpspin_ruleset_bypass) ! i)"
  using fold_put_ruleset_unit [of "c * 4 + i" "[0..<4]"] by (simp add: prog_rulesets_def)

lemma prog_rulesets_app: "\<exists>r. prog_rulesets rs a = a\<lparr>regs := r\<rparr>"
  unfolding prog_rulesets_def by (rule fold_put_ruleset_app)

lemma prog_rulesets_frame:
  assumes "unat off < 0x2014 \<or> 0x2114 \<le> unat off"
  shows "regs (prog_rulesets rs a) off = regs a off"
proof -
  have "regs (fold (\<lambda>i. put_ruleset i (g i)) is a) off = regs a off" if "\<forall>i \<in> set is. i < 4" for "is" g
    using that
  proof (induction "is" arbitrary: a)
    case (Cons i "is")
    then show ?case using put_ruleset_frame [OF _ assms, of i] by simp
  qed simp
  then show ?thesis by (simp add: prog_rulesets_def)
qed

lemma prog_me_ok:
  assumes "length rs \<le> 4"
  shows "fpspin_prog_me rs s = Running (s\<lparr>s_app := reg_write 1 0x2000
    ((prog_rulesets rs (reg_write 0 0x2000 ((s_app s)\<lparr>in_me_conf := True\<rparr>)))\<lparr>in_me_conf := False\<rparr>)\<rparr>)"
proof -
  let ?g = "\<lambda>i. if i \<ge> length rs then fpspin_ruleset_bypass else rs ! i"
  let ?s = "s\<lparr>s_app := reg_write 0 0x2000 ((s_app s)\<lparr>in_me_conf := True\<rparr>)\<rparr>"
  have "seq_io (map (\<lambda>i. fpspin_set_me_ruleset (int i) (?g i)) [0..<4]) ?s
      = Running (?s\<lparr>s_app := prog_rulesets rs (s_app ?s)\<rparr>)"
    unfolding prog_rulesets_def
  proof (rule seq_io_map [where P = in_me_conf])
    show "fpspin_set_me_ruleset (int i) (?g i) s' = Running (s'\<lparr>s_app := put_ruleset i (?g i) (s_app s')\<rparr>)"
      if "i \<in> set [0..<4]" "in_me_conf (s_app s')" for i s'
      using set_me_ruleset_ok [OF that(2)] that(1) by simp
    show "in_me_conf (put_ruleset i (?g i) a)" if "in_me_conf a" for i a
      using that put_ruleset_app [of i "?g i" a] by auto
  qed (simp add: reg_write_def)
  then show ?thesis
    using assms by (simp add: fpspin_prog_me_def NUM_RULESETS_def seq_io_append then_io_def me_enable_write)
qed

text \<open>What \<open>fpspin_prog_me\<close> leaves in the device.\<close>

definition prog_post :: "fpspin_ruleset list \<Rightarrow> app \<Rightarrow> app \<Rightarrow> bool" where
  "prog_post rs a a' \<longleftrightarrow> me_valid a' \<and> \<not> in_me_conf a' \<and> (\<forall>j < 4. \<not> store_mode_or a' j)
     \<and> (\<forall>j < 4. ruleset_loaded a' j (if j < length rs then rs ! j else fpspin_ruleset_bypass))
     \<and> (\<forall>off. unat off < 0x2000 \<or> 0x2114 \<le> unat off \<longrightarrow> regs a' off = regs a off)
     \<and> (\<exists>r. a' = a\<lparr>in_me_conf := False, regs := r\<rparr>)"

text \<open>The registers that no rule is written to: all but the valid bit and the rules of the engine.\<close>

definition not_rule_reg :: "u32 \<Rightarrow> bool" where
  "not_rule_reg off \<longleftrightarrow> unat off < 0x2000 \<or> 0x2000 < unat off \<and> unat off < 0x2014 \<or> 0x2114 \<le> unat off"

lemma prog_me_rules:
  assumes "length rs \<le> 4"
  shows "\<exists>a'. fpspin_prog_me rs s = Running (s\<lparr>s_app := a'\<rparr>) \<and> me_valid a' \<and> \<not> in_me_conf a'
    \<and> (\<forall>j < 4. ruleset_loaded a' j (if j < length rs then rs ! j else fpspin_ruleset_bypass))
    \<and> (\<forall>off. not_rule_reg off \<longrightarrow> regs a' off = regs (s_app s) off)
    \<and> (\<exists>r. a' = (s_app s)\<lparr>in_me_conf := False, regs := r\<rparr>)"
proof -
  let ?b = "reg_write 0 0x2000 ((s_app s)\<lparr>in_me_conf := True\<rparr>)"
  let ?a = "reg_write 1 0x2000 ((prog_rulesets rs ?b)\<lparr>in_me_conf := False\<rparr>)"
  have v: "me_valid ?a" "\<not> in_me_conf ?a" by (simp_all add: me_valid_def reg_write_def)
  have fr: "regs ?a off = regs (s_app s) off" if "not_rule_reg off" for off
    using that prog_rulesets_frame [of off rs ?b] by (auto simp: reg_write_def not_rule_reg_def)
  have loaded: "ruleset_loaded ?a j (if j < length rs then rs ! j else fpspin_ruleset_bypass)" if "j < 4" for j
  proof -
    have "me_unit ?a m = me_unit (prog_rulesets rs ?b) m" if "m < 16" for m
      using that by (auto simp: me_unit_def reg_write_def word_unat_eq_iff unat_me_reg)
    then have "store_unit ?a (j * 4 + i) = me_unit (prog_rulesets rs ?b) (j * 4 + i)" if "i < 4" for i
      using that \<open>j < 4\<close> v(1) by (simp add: store_unit_def me_unit_def)
    with prog_rulesets_unit [OF that] show ?thesis
      by (simp add: ruleset_loaded_def NUM_RULES_PER_RULESET_def)
  qed
  obtain r where "prog_rulesets rs ?b = ?b\<lparr>regs := r\<rparr>"
    using prog_rulesets_app by blast
  then have "\<exists>r. ?a = (s_app s)\<lparr>in_me_conf := False, regs := r\<rparr>" by (auto simp: reg_write_def)
  with prog_me_ok [OF assms(1), of s] v fr loaded show ?thesis by blast
qed

lemma prog_me_result:
  assumes "length rs \<le> 4" "\<forall>j < 4. regs (s_app s) (me_reg ''mode'' j) = 0"
  shows "\<exists>a'. fpspin_prog_me rs s = Running (s\<lparr>s_app := a'\<rparr>) \<and> prog_post rs (s_app s) a'"
proof -
  from prog_me_rules [OF assms(1)] obtain a' where p: "fpspin_prog_me rs s = Running (s\<lparr>s_app := a'\<rparr>)"
    and v: "me_valid a'" "\<not> in_me_conf a'" "\<exists>r. a' = (s_app s)\<lparr>in_me_conf := False, regs := r\<rparr>"
    and l: "\<forall>j < 4. ruleset_loaded a' j (if j < length rs then rs ! j else fpspin_ruleset_bypass)"
    and fr: "not_rule_reg off \<Longrightarrow> regs a' off = regs (s_app s) off" for off by blast
  have "not_rule_reg (me_reg ''mode'' j)" if "j < 4" for j
    using that unat_me_reg(5) [of j] by (simp add: not_rule_reg_def)
  with fr assms(2) have "\<forall>j < 4. \<not> store_mode_or a' j" by (simp add: store_mode_or_def)
  moreover have "not_rule_reg off" if "unat off < 0x2000 \<or> 0x2114 \<le> unat off" for off
    using that by (auto simp: not_rule_reg_def)
  ultimately have "prog_post rs (s_app s) a'" unfolding prog_post_def using v l fr by blast
  with p show ?thesis by blast
qed

text \<open>
  Property C15. Programming at most four rulesets into the matching engine succeeds, whatever state
  the engine was in: all writes are accepted, afterwards the engine is valid and each ruleset unit
  holds exactly the rules that were given, the rest being bypass, and every other register keeps
  its value, those outside the matching engine and also its mode registers.
\<close>

theorem prog_me_loads:
  assumes "length rs \<le> NUM_RULESETS"
  shows "\<exists>a'. fpspin_prog_me rs s = Running (s\<lparr>s_app := a'\<rparr>) \<and> me_valid a' \<and> \<not> in_me_conf a'
    \<and> (\<forall>j < NUM_RULESETS. ruleset_loaded a' j (if j < length rs then rs ! j else fpspin_ruleset_bypass))
    \<and> (\<forall>off. off \<noteq> 0x2000 \<and> \<not> (0x2014 \<le> unat off \<and> unat off < 0x2114)
         \<longrightarrow> regs a' off = regs (s_app s) off)"
proof -
  have n: "not_rule_reg off" if "off \<noteq> 0x2000" "\<not> (0x2014 \<le> unat off \<and> unat off < 0x2114)" for off
    using that by (auto simp: not_rule_reg_def word_unat_eq_iff)
  from assms have "length rs \<le> 4" by (simp add: NUM_RULESETS_def)
  from prog_me_rules [OF this, of s] obtain a' where "fpspin_prog_me rs s = Running (s\<lparr>s_app := a'\<rparr>)"
    "me_valid a'" "\<not> in_me_conf a'"
    "\<forall>j < 4. ruleset_loaded a' j (if j < length rs then rs ! j else fpspin_ruleset_bypass)"
    "\<forall>off. not_rule_reg off \<longrightarrow> regs a' off = regs (s_app s) off" by blast
  with n show ?thesis by (intro exI [of _ a']) (simp add: NUM_RULESETS_def)
qed

definition example_ctx :: fpspin_ctx where
  "example_ctx = \<lparr>c_ctx_id = 0, c_mmap_len = 0x10000, c_dma_idx = replicate 16 0, c_host_data_ptr = 0x1c000000,
     c_hh = \<lparr>ma_addr = 0, ma_size = 0\<rparr>, c_ph = \<lparr>ma_addr = 0, ma_size = 0\<rparr>, c_th = \<lparr>ma_addr = 0, ma_size = 0\<rparr>,
     c_handler_mem = \<lparr>ma_addr = 0, ma_size = 0\<rparr>\<rparr>"

definition example_sys :: sys where
  "example_sys = \<lparr>s_dev = example_dev, s_app = example_app, s_pos = 0, s_ctx = example_ctx\<rparr>"

lemma example_modes: "\<forall>j < NUM_RULESETS. regs (s_app example_sys) (me_reg ''mode'' j) = 0"
  using unat_me_reg(5) by (auto simp: NUM_RULESETS_def example_sys_def example_app_def word_unat_eq_iff)

theorem prog_me_loads_witness:
  "\<exists>a'. fpspin_prog_me [fpspin_ruleset_udp] example_sys = Running (example_sys\<lparr>s_app := a'\<rparr>)
    \<and> ruleset_loaded a' 0 fpspin_ruleset_udp \<and> ruleset_loaded a' 3 fpspin_ruleset_bypass
    \<and> regs a' 0x2004 = regs example_app 0x2004"
proof -
  have l: "length [fpspin_ruleset_udp] \<le> NUM_RULESETS" by (simp add: NUM_RULESETS_def)
  from prog_me_loads [OF l, of example_sys] obtain a'
    where p: "fpspin_prog_me [fpspin_ruleset_udp] example_sys = Running (example_sys\<lparr>s_app := a'\<rparr>)"
    and r: "\<forall>j < NUM_RULESETS. ruleset_loaded a' j
        (if j < length [fpspin_ruleset_udp] then [fpspin_ruleset_udp] ! j else fpspin_ruleset_bypass)"
    and f: "\<forall>off. off \<noteq> 0x2000 \<and> \<not> (0x2014 \<le> unat off \<and> unat off < 0x2114)
        \<longrightarrow> regs a' off = regs (s_app example_sys) off" by blast
  from r [rule_format, of 0] r [rule_format, of 3]
  have "ruleset_loaded a' 0 fpspin_ruleset_udp" "ruleset_loaded a' 3 fpspin_ruleset_bypass"
    by (simp_all add: NUM_RULESETS_def)
  moreover from f have "regs a' 0x2004 = regs example_app 0x2004" by (simp add: example_sys_def)
  ultimately show ?thesis using p by blast
qed

text \<open>
  Property C16. Steering of SLMP traffic end to end, from the rules in the library through the register
  writes to the decision of the hardware: if the mode registers of the engine, which the library
  never writes, hold 0 (AND), then after programming the SLMP ruleset a packet is delivered to PsPIN
  if and only if it is IPv4 and UDP with destination port 9330, it is tagged with the 16 bits that
  the hardware keeps of its SLMP message id (the first two bytes of the field), and it is marked as
  the last of its message exactly when the end-of-message bit of its SLMP flags is set.
\<close>

theorem slmp_steering:
  assumes "\<forall>j < NUM_RULESETS. regs (s_app s) (me_reg ''mode'' j) = 0"
  shows "\<exists>a'. fpspin_prog_me [fpspin_ruleset_slmp] s = Running (s\<lparr>s_app := a'\<rparr>)
    \<and> (\<forall>pkt. match_packet a' pkt =
         (if is_slmp pkt
          then Some \<lparr>tag_msg_id = ucast (matcher_word pkt 11), tag_eom = bit (pkt_byte pkt 42) 7, tag_ruleset = 0\<rparr>
          else None))"
proof -
  have "length [fpspin_ruleset_slmp] \<le> 4" "\<forall>j < 4. regs (s_app s) (me_reg ''mode'' j) = 0"
    using assms by (simp_all add: NUM_RULESETS_def)
  then obtain a' where p: "fpspin_prog_me [fpspin_ruleset_slmp] s = Running (s\<lparr>s_app := a'\<rparr>)"
    and post: "prog_post [fpspin_ruleset_slmp] (s_app s) a'"
    using prog_me_result by blast
  from post have m: "\<not> store_mode_or a' j"
    and l: "ruleset_loaded a' j
      (if j < length [fpspin_ruleset_slmp] then [fpspin_ruleset_slmp] ! j else fpspin_ruleset_bypass)"
    if "j < 4" for j using that unfolding prog_post_def by blast+
  from l [of 0] have l0: "ruleset_loaded a' 0 fpspin_ruleset_slmp" by simp
  have "\<not> ruleset_matched a' pkt j" if "0 < j" "j < 4" for pkt j
    using bypass_ruleset_matches [OF _ m [OF that(2)]] l [OF that(2)] that(1) by simp
  then have "match_packet a' pkt = (if is_slmp pkt
      then Some \<lparr>tag_msg_id = ucast (matcher_word pkt 11), tag_eom = bit (pkt_byte pkt 42) 7, tag_ruleset = 0\<rparr> else None)" for pkt
    using slmp_ruleset_matches [OF l0 m [of 0]] by (simp add: match_packet_first)
  with p show ?thesis by blast
qed

definition example_slmp_pkt :: "u8 list" where
  "example_slmp_pkt = (replicate 48 0)[12 := 0x08, 23 := 17, 36 := 0x24, 37 := 0x72, 42 := 0x80, 44 := 7]"

theorem slmp_steering_witness:
  "\<exists>a'. fpspin_prog_me [fpspin_ruleset_slmp] example_sys = Running (example_sys\<lparr>s_app := a'\<rparr>)
    \<and> match_packet a' example_slmp_pkt = Some \<lparr>tag_msg_id = 7, tag_eom = True, tag_ruleset = 0\<rparr>
    \<and> match_packet a' (replicate 48 0) = None"
proof -
  from slmp_steering [OF example_modes] obtain a'
    where p: "fpspin_prog_me [fpspin_ruleset_slmp] example_sys = Running (example_sys\<lparr>s_app := a'\<rparr>)"
    and m: "\<forall>pkt. match_packet a' pkt = (if is_slmp pkt
        then Some \<lparr>tag_msg_id = ucast (matcher_word pkt 11), tag_eom = bit (pkt_byte pkt 42) 7, tag_ruleset = 0\<rparr> else None)"
    by blast
  have "is_slmp example_slmp_pkt" "\<not> is_slmp (replicate 48 0)" "matcher_word example_slmp_pkt 11 = 7"
    "bit (pkt_byte example_slmp_pkt 42) 7"
    by code_simp+
  with m have "match_packet a' example_slmp_pkt = Some \<lparr>tag_msg_id = 7, tag_eom = True, tag_ruleset = 0\<rparr>"
    "match_packet a' (replicate 48 0) = None" by simp_all
  with p show ?thesis by blast
qed

text \<open>
  The mode of a ruleset never reaches the device: programming a ruleset in OR mode is the same as
  programming it in AND mode.
\<close>

lemma prog_me_ignores_mode:
  "fpspin_prog_me (map (\<lambda>rs. rs\<lparr>rs_mode := m\<rparr>) rss) s = fpspin_prog_me rss s"
proof -
  have "fpspin_set_me_ruleset c (rs\<lparr>rs_mode := m\<rparr>) = fpspin_set_me_ruleset c rs" for c rs
    by (simp add: fpspin_set_me_ruleset_def)
  then have "fpspin_set_me_ruleset (int i) (if i \<ge> length (map (\<lambda>rs. rs\<lparr>rs_mode := m\<rparr>) rss)
        then fpspin_ruleset_bypass else map (\<lambda>rs. rs\<lparr>rs_mode := m\<rparr>) rss ! i)
      = fpspin_set_me_ruleset (int i) (if i \<ge> length rss then fpspin_ruleset_bypass else rss ! i)" for i
    by simp
  then show ?thesis by (simp add: fpspin_prog_me_def cong: map_cong)
qed

section \<open>Copying into NIC memory\<close>

text \<open>The process can write n bytes at its position: the device is open, out of reset, and the range fits.\<close>

definition can_write :: "sys \<Rightarrow> nat \<Rightarrow> bool" where
  "can_write s n \<longleftrightarrow> mem_ready (s_dev s) (s_app s) \<and> unat (s_pos s) < 0x800000
     \<and> unat (s_pos s) + n \<le> 0x800000"

definition host_bytes :: "(u64 \<Rightarrow> u8) \<Rightarrow> u64 \<Rightarrow> nat \<Rightarrow> u8 list" where
  "host_bytes mem h n = map (\<lambda>i. mem (h + of_nat i)) [0..<n]"

lemma host_bytes_split:
  assumes "k \<le> n"
  shows "host_bytes mem h n = host_bytes mem h k @ host_bytes mem (h + of_nat k) (n - k)"
proof -
  have "[0..<n] = [0..<k] @ [k..<n]" using assms by (metis le_add_diff_inverse upt_add_eq_append zero_le)
  moreover have "map (\<lambda>i. mem (h + of_nat i)) [k..<n] = map (\<lambda>i. mem (h + of_nat k + of_nat i)) [0..<n - k]"
    by (rule nth_equalityI) (simp_all add: add.assoc)
  ultimately show ?thesis by (simp add: host_bytes_def)
qed

text \<open>One \<open>write\<close> call of the loop stores the whole words of the first 4096 bytes.\<close>

definition stored :: "(u64 \<Rightarrow> u8) \<Rightarrow> u64 \<Rightarrow> nat \<Rightarrow> pspin_cdev \<Rightarrow> sys \<Rightarrow> sys" where
  "stored mem h k dev s = s\<lparr>s_dev := dev,
     s_app := (s_app s)\<lparr>pmem := put_bytes (pmem (s_app s)) (unat (s_pos s)) (host_bytes mem h k)\<rparr>,
     s_pos := s_pos s + of_nat k\<rparr>"

lemma write_step:
  assumes "can_write s (unat len)"
  defines "k \<equiv> 4 * (min (unat len) 4096 div 4)"
  obtains dev' where
    "pspin_write True True (s_dev s) (s_app s) (host_bytes mem h (unat (min len MAX_RW_COUNT)))
       (min len MAX_RW_COUNT) (s_pos s)
     = Some (Inr (of_nat k), dev', s_app (stored mem h k dev' s), s_pos (stored mem h k dev' s))"
    "mem_ready dev' (s_app (stored mem h k dev' s))"
proof -
  let ?p = "s_pos s" and ?a = "s_app s"
  have r: "mem_ready (s_dev s) ?a" and p: "?p < pspin_mem_size" and sum: "unat ?p + unat len \<le> 0x800000"
    using assms(1) by (auto simp: can_write_def pspin_mem_size_def word_less_nat_alt)
  then have len: "min len MAX_RW_COUNT = len" and le: "len \<le> MAX_RW_COUNT"
    by (auto simp: MAX_RW_COUNT_def min_def word_le_nat_alt)
  have "min (unat len) (min 4096 (0x800000 - unat ?p)) = min (unat len) 4096"
    using sum by linarith
  then have uk: "unat (clamp_count ?p len) = k" using unat_clamp_count [OF p le] by (simp add: k_def)
  have ck: "clamp_count ?p len = of_nat k" unfolding uk [symmetric] by simp
  have kl: "k \<le> unat len" unfolding k_def by (rule order_trans [OF times_div_4_le]) simp
  have take: "take k (host_bytes mem h (unat len)) = host_bytes mem h k"
    using kl by (simp add: host_bytes_def take_map)
  obtain dev' where d: "mem_ready dev' ?a" and w: "pspin_write True True (s_dev s) ?a (host_bytes mem h (unat len)) len ?p
      = Some (Inr (of_nat k), dev', write_words iowrite32 (host_bytes mem h k) (unat ?p) ?a, ?p + of_nat k)"
    using pspin_write_ready [OF r p, of "host_bytes mem h (unat len)" len] take uk ck by auto
  have "4 dvd length (host_bytes mem h k)" by (simp add: host_bytes_def k_def)
  then have "pmem (write_words iowrite32 (host_bytes mem h k) (unat ?p) ?a)
      = put_bytes (pmem ?a) (unat ?p) (host_bytes mem h k)" by (rule nic_port.write_words_view)
  with iowrite_words_frame [of "host_bytes mem h k" "unat ?p" ?a]
  have "write_words iowrite32 (host_bytes mem h k) (unat ?p) ?a
      = ?a\<lparr>pmem := put_bytes (pmem ?a) (unat ?p) (host_bytes mem h k)\<rparr>" by auto
  with w d len that show thesis by (simp add: mem_ready_def stored_def)
qed

lemma write_amount:
  fixes len :: u64
  defines "k \<equiv> 4 * (min (unat len) 4096 div 4)"
  shows "k \<le> unat len" "len - of_nat k = 0 \<longleftrightarrow> unat len = k" "unat (len - of_nat k) = unat len - k"
    "unat (of_nat k :: u64) = k"
proof -
  show k: "k \<le> unat len" unfolding k_def by (rule order_trans [OF times_div_4_le]) simp
  moreover have "unat len < 2 ^ 64" using unsigned_less [of len, where ?'a = nat] by simp
  ultimately show u: "unat (of_nat k :: u64) = k" by (simp add: unat_of_nat take_bit_nat_eq_self)
  with k show "unat (len - of_nat k) = unat len - k" by (simp add: unat_sub word_le_nat_alt)
  show "len - of_nat k = 0 \<longleftrightarrow> unat len = k" using u by auto
qed

lemma can_write_next:
  fixes len :: u64
  assumes "can_write s (unat len)"
  defines "k \<equiv> 4 * (min (unat len) 4096 div 4)"
  assumes "mem_ready dev' (s_app (stored mem h k dev' s))" "unat len \<noteq> k"
  shows "can_write (stored mem h k dev' s) (unat (len - of_nat k))"
    "unat (s_pos (stored mem h k dev' s)) = unat (s_pos s) + k"
proof -
  note w = write_amount [of len, folded k_def]
  have b: "unat (s_pos s) + unat len \<le> 0x800000" using assms(1) by (simp add: can_write_def)
  with w(1,4) show p: "unat (s_pos (stored mem h k dev' s)) = unat (s_pos s) + k"
    by (simp add: stored_def unat_word_ariths)
  with assms(3,4) b w(1,3) show "can_write (stored mem h k dev' s) (unat (len - of_nat k))"
    by (simp add: can_write_def stored_def)
qed

lemma write_loop_ok:
  assumes "can_write s (unat len)" "4 dvd unat len"
  shows "\<exists>dev'. write_loop mem h len s = Some (stored mem h (unat len) dev' s)
    \<and> mem_ready dev' (s_app (stored mem h (unat len) dev' s))"
  using assms
proof (induction "unat len" arbitrary: len h s rule: less_induct)
  case less
  define k where "k = 4 * (min (unat len) 4096 div 4)"
  note w = write_amount [of len, folded k_def]
  obtain dev' where st: "pspin_write True True (s_dev s) (s_app s) (host_bytes mem h (unat (min len MAX_RW_COUNT)))
       (min len MAX_RW_COUNT) (s_pos s)
     = Some (Inr (of_nat k), dev', s_app (stored mem h k dev' s), s_pos (stored mem h k dev' s))"
    and r: "mem_ready dev' (s_app (stored mem h k dev' s))"
    using write_step [OF less.prems(1)] unfolding k_def by blast
  have loop: "write_loop mem h len s = (if unat len = k then Some (stored mem h k dev' s)
      else write_loop mem (h + of_nat k) (len - of_nat k) (stored mem h k dev' s))"
    using st w(2) by (subst write_loop.simps) (simp add: Let_def host_bytes_def [symmetric] stored_def)
  show ?case
  proof (cases "unat len = k")
    case True
    with loop r show ?thesis by auto
  next
    case False
    note nx = can_write_next [OF less.prems(1), folded k_def, OF r False]
    have "0 < k" using less.prems(2) False unfolding k_def by (auto simp: min_def split: if_splits)
    then have lt: "unat (len - of_nat k) < unat len" using w(1,3) by simp
    have "4 dvd unat (len - of_nat k)" using less.prems(2) w(3) by (simp add: k_def dvd_diff_nat)
    from less.hyps [OF lt nx(1) this, of "h + of_nat k"] obtain dev''
      where rec: "write_loop mem (h + of_nat k) (len - of_nat k) (stored mem h k dev' s)
          = Some (stored mem (h + of_nat k) (unat (len - of_nat k)) dev'' (stored mem h k dev' s))"
        and r'': "mem_ready dev'' (s_app (stored mem (h + of_nat k) (unat (len - of_nat k)) dev'' (stored mem h k dev' s)))"
      by blast
    have "stored mem (h + of_nat k) (unat (len - of_nat k)) dev'' (stored mem h k dev' s) = stored mem h (unat len) dev'' s"
      using nx(2) w(1,3) host_bytes_split [OF w(1), of mem h]
      by (simp add: stored_def put_bytes_append) (simp add: host_bytes_def)
    with rec r'' loop False show ?thesis by auto
  qed
qed

lemma write_loop_length:
  assumes "write_loop mem h len s = Some s'" "can_write s (unat len)"
  shows "4 dvd unat len"
proof -
  have "can_write s (unat len) \<longrightarrow> 4 dvd unat len"
  proof (rule write_loop.raw_induct [OF _ assms(1), where P = "\<lambda>mem h len s s'. can_write s (unat len) \<longrightarrow> 4 dvd unat len"],
      rule impI)
    fix f mem h len s s'
    assume IH: "\<And>mem h len s s'. f mem h len s = Some s' \<Longrightarrow> can_write s (unat len) \<longrightarrow> 4 dvd unat len"
      and body: "(let cnt = min len MAX_RW_COUNT; buf = map (\<lambda>i. mem (h + word_of_nat i)) [0..<unat cnt]
        in case pspin_write True True (s_dev s) (s_app s) buf cnt (s_pos s) of
             None \<Rightarrow> None
           | Some (r, dev, a, f_pos) \<Rightarrow>
               let bytes_written = case r of Inl e \<Rightarrow> - 1 | Inr n \<Rightarrow> n;
                   s = s\<lparr>s_dev := dev, s_app := a, s_pos := f_pos\<rparr>; len = len - bytes_written;
                   host_addr = h + bytes_written
               in if len = 0 then Some s else f mem host_addr len s) = Some s'"
      and can: "can_write s (unat len)"
    define k where "k = 4 * (min (unat len) 4096 div 4)"
    note w = write_amount [of len, folded k_def]
    obtain dev' where st: "pspin_write True True (s_dev s) (s_app s) (host_bytes mem h (unat (min len MAX_RW_COUNT)))
         (min len MAX_RW_COUNT) (s_pos s)
       = Some (Inr (of_nat k), dev', s_app (stored mem h k dev' s), s_pos (stored mem h k dev' s))"
      and r: "mem_ready dev' (s_app (stored mem h k dev' s))"
      using write_step [OF can] unfolding k_def by blast
    from body st have step: "(if len - of_nat k = 0 then Some (stored mem h k dev' s)
        else f mem (h + of_nat k) (len - of_nat k) (stored mem h k dev' s)) = Some s'"
      by (simp add: Let_def host_bytes_def [symmetric] stored_def cong: if_cong)
    have kd: "4 dvd k" by (simp add: k_def)
    show "4 dvd unat len"
    proof (cases "unat len = k")
      case True
      with kd show ?thesis by simp
    next
      case False
      with step w(2) have "f mem (h + of_nat k) (len - of_nat k) (stored mem h k dev' s) = Some s'" by simp
      with IH can_write_next(1) [OF can, folded k_def, OF r False] w(3)
      have "4 dvd unat len - k" by fastforce
      with kd w(1) show ?thesis by (metis dvd_add le_add_diff_inverse)
    qed
  qed
  with assms(2) show ?thesis by blast
qed

lemma write_memory_run:
  assumes "mem_ready (s_dev s) (s_app s)" "\<not> sint (pspin_addr_to_corundum (ucast addr)) < 0"
    and "unat (pspin_addr_to_corundum (ucast addr)) + unat len \<le> 0x800000"
  shows "can_write (s\<lparr>s_pos := pspin_addr_to_corundum (ucast addr)\<rparr>) (unat len)"
    "fpspin_write_memory addr mem h len s =
      (case write_loop mem h len (s\<lparr>s_pos := pspin_addr_to_corundum (ucast addr)\<rparr>) of
         None \<Rightarrow> Hangs | Some s \<Rightarrow> Running s)"
proof -
  let ?p = "pspin_addr_to_corundum (ucast addr)"
  have b: "unat ?p < 0x408000" by (rule addr_to_corundum_nonneg [OF assms(2)])
  have seek: "pspin_llseek (s_dev s) (s_app s) (ucast addr) SEEK_SET (s_pos s) = (Inr ?p, ?p)"
    using assms(1,2) b by (auto simp: pspin_llseek_def mem_ready_def seek_bounds_def Let_def
        pspin_mem_size_def word_less_nat_alt)
  show "can_write (s\<lparr>s_pos := ?p\<rparr>) (unat len)" using assms b by (simp add: can_write_def)
  show "fpspin_write_memory addr mem h len s =
      (case write_loop mem h len (s\<lparr>s_pos := ?p\<rparr>) of None \<Rightarrow> Hangs | Some s \<Rightarrow> Running s)"
    by (simp add: fpspin_write_memory_def seek)
qed

lemma write_memory_chunk:
  assumes "mem_ready (s_dev s) (s_app s)" "\<not> sint (pspin_addr_to_corundum (ucast addr)) < 0"
    and "unat (pspin_addr_to_corundum (ucast addr)) + unat len \<le> 0x800000" "4 dvd unat len"
  shows "\<exists>s'. fpspin_write_memory addr mem h len s = Running s'
      \<and> s_app s' = (s_app s)\<lparr>pmem := put_bytes (pmem (s_app s)) (unat (pspin_addr_to_corundum (ucast addr)))
          (host_bytes mem h (unat len))\<rparr>
      \<and> s_ctx s' = s_ctx s \<and> mem_ready (s_dev s') (s_app s')"
  using write_loop_ok [OF write_memory_run(1) [OF assms(1-3)] assms(4), of mem h] write_memory_run(2) [OF assms(1-3)]
  by (auto simp: stored_def)

text \<open>
  Property C17. Copying into NIC memory: when the device is open and out of reset, the PsPIN address
  exists, and the length is a multiple of four that fits the window, \<open>fpspin_write_memory\<close> returns
  and the bytes of the host buffer are at the translated address, nothing else having changed;
  when the length is not a multiple of four it never returns.
\<close>

theorem write_memory_correct:
  assumes "mem_ready (s_dev s) (s_app s)" "\<not> sint (pspin_addr_to_corundum (ucast addr)) < 0"
    and "unat (pspin_addr_to_corundum (ucast addr)) + unat len \<le> 0x800000"
  shows "(4 dvd unat len \<longrightarrow> (\<exists>s'. fpspin_write_memory addr mem h len s = Running s'
      \<and> s_app s' = (s_app s)\<lparr>pmem := put_bytes (pmem (s_app s)) (unat (pspin_addr_to_corundum (ucast addr)))
          (host_bytes mem h (unat len))\<rparr>
      \<and> s_ctx s' = s_ctx s \<and> mem_ready (s_dev s') (s_app s')))
    \<and> (\<not> 4 dvd unat len \<longrightarrow> fpspin_write_memory addr mem h len s = Hangs)"
proof (intro conjI impI)
  assume "4 dvd unat len"
  then show "\<exists>s'. fpspin_write_memory addr mem h len s = Running s'
      \<and> s_app s' = (s_app s)\<lparr>pmem := put_bytes (pmem (s_app s)) (unat (pspin_addr_to_corundum (ucast addr)))
          (host_bytes mem h (unat len))\<rparr>
      \<and> s_ctx s' = s_ctx s \<and> mem_ready (s_dev s') (s_app s')"
    by (rule write_memory_chunk [OF assms])
next
  assume "\<not> 4 dvd unat len"
  with write_loop_length [OF _ write_memory_run(1) [OF assms]]
  have "write_loop mem h len (s\<lparr>s_pos := pspin_addr_to_corundum (ucast addr)\<rparr>) = None"
    by (cases "write_loop mem h len (s\<lparr>s_pos := pspin_addr_to_corundum (ucast addr)\<rparr>)") blast+
  with write_memory_run(2) [OF assms] show "fpspin_write_memory addr mem h len s = Hangs" by simp
qed

theorem write_memory_correct_witness:
  "(\<exists>s'. fpspin_write_memory 0x1c000100 (\<lambda>_. 7) 0 8 example_sys = Running s'
      \<and> get_bytes (pmem (s_app s')) 0x100 8 = replicate 8 7)
   \<and> fpspin_write_memory 0x1c000100 (\<lambda>_. 7) 0 6 example_sys = Hangs"
proof -
  have r: "mem_ready (s_dev example_sys) (s_app example_sys)"
    by (simp add: mem_ready_def example_sys_def example_dev_def example_app_def)
  have p: "pspin_addr_to_corundum (ucast (0x1c000100 :: u32)) = 0x100" by code_simp
  have n: "\<not> sint (pspin_addr_to_corundum (ucast (0x1c000100 :: u32))) < 0" by code_simp
  have l: "unat (pspin_addr_to_corundum (ucast (0x1c000100 :: u32))) + unat (8 :: u64) \<le> 0x800000"
    "unat (pspin_addr_to_corundum (ucast (0x1c000100 :: u32))) + unat (6 :: u64) \<le> 0x800000"
    by (simp_all only: p) simp_all
  have hb: "host_bytes (\<lambda>_. 7) 0 8 = replicate 8 7" by (simp add: host_bytes_def map_replicate_const)
  from write_memory_correct [OF r n l(1), of "\<lambda>_. 7" 0]
  obtain s' where "fpspin_write_memory 0x1c000100 (\<lambda>_. 7) 0 8 example_sys = Running s'"
    "pmem (s_app s') = put_bytes (pmem (s_app example_sys)) 0x100 (replicate 8 7)"
    unfolding p by (auto simp: hb)
  moreover have "get_bytes (put_bytes (pmem (s_app example_sys)) 0x100 (replicate 8 7)) 0x100 8 = replicate 8 7"
    using get_put_bytes [of _ "0x100" "replicate 8 7"] by simp
  moreover have "fpspin_write_memory 0x1c000100 (\<lambda>_. 7) 0 6 example_sys = Hangs"
    using write_memory_correct [OF r n l(2), of "\<lambda>_. 7" 0] by simp
  ultimately show ?thesis by auto
qed

section \<open>Loading an image\<close>

text \<open>The two memory regions of PsPIN, by their bounds and their offset in the device window.\<close>

definition region :: "nat \<Rightarrow> nat \<Rightarrow> nat \<Rightarrow> bool" where
  "region lo hi off \<longleftrightarrow> lo = 0x1d000000 \<and> hi = 0x1d008000 \<and> off = 0x400000
     \<or> lo = 0x1c000000 \<and> hi = 0x1c100000 \<and> off = 0"

lemma region_translate:
  assumes "region lo hi off" "lo \<le> unat x" "unat x < hi"
  shows "unat (pspin_addr_to_corundum x) = unat x - lo + off" "\<not> sint (pspin_addr_to_corundum x) < 0"
    "ucast (ucast x :: u32) = x"
proof -
  show t: "unat (pspin_addr_to_corundum x) = unat x - lo + off"
    using assms by (cases x rule: addr_to_corundum_cases) (auto simp: region_def)
  with assms show "\<not> sint (pspin_addr_to_corundum x) < 0" by (auto simp: sint_neg_iff region_def)
  have "unat x < 2 ^ 32" using assms by (auto simp: region_def)
  then have "unat (ucast x :: u32) = unat x" by (simp add: unsigned_ucast_eq take_bit_nat_eq_self)
  moreover have "unat (ucast (ucast x :: u32) :: u64) = unat (ucast x :: u32)" by (rule unat_ucast_up) simp
  ultimately have "unat (ucast (ucast x :: u32) :: u64) = unat x" by simp
  then show "ucast (ucast x :: u32) = x" by (simp only: word_unat_eq_iff)
qed

lemma host_bytes_nth: "length bs < 2 ^ 64 \<Longrightarrow> host_bytes (\<lambda>i. bs ! unat i) 0 (length bs) = bs"
  by (rule nth_equalityI) (simp_all add: host_bytes_def unat_of_nat take_bit_nat_eq_self)

lemma write_chunks_ok:
  assumes "region lo hi off" "lo \<le> unat addr" "unat addr + length bytes < hi" "4 dvd length bytes"
    and "mem_ready (s_dev s) (s_app s)"
  shows "\<exists>s'. write_chunks addr bytes s = Running s' \<and> s_ctx s' = s_ctx s \<and> mem_ready (s_dev s') (s_app s')
    \<and> s_app s' = (s_app s)\<lparr>pmem := put_bytes (pmem (s_app s)) (unat addr - lo + off) bytes\<rparr>"
  using assms
proof (induction addr bytes s rule: write_chunks.induct)
  case (1 addr bytes s)
  define bin where "bin = take 4096 bytes"
  have len: "length bin \<le> length bytes" "length bin < 2 ^ 64" "4 dvd length bin"
    using "1.prems"(4) by (auto simp: bin_def min_def)
  have u: "unat (of_nat (length bin) :: u64) = length bin" using len(2) by (simp add: unat_of_nat take_bit_nat_eq_self)
  have hi: "hi \<le> 0x1d008000" "off + (hi - lo) \<le> 0x800000" using "1.prems"(1) by (auto simp: region_def)
  have a: "unat addr < hi" using "1.prems"(3) by simp
  note t = region_translate [OF "1.prems"(1,2) a]
  have fits: "unat (pspin_addr_to_corundum (ucast (ucast addr :: u32))) + unat (of_nat (length bin) :: u64) \<le> 0x800000"
    unfolding t(3) t(1) u using hi len(1) "1.prems"(2,3) by linarith
  have neg: "\<not> sint (pspin_addr_to_corundum (ucast (ucast addr :: u32))) < 0" unfolding t(3) by (rule t(2))
  obtain s1 where s1: "fpspin_write_memory (ucast addr) (\<lambda>i. bin ! unat i) 0 (of_nat (length bin)) s = Running s1"
    "s_app s1 = (s_app s)\<lparr>pmem := put_bytes (pmem (s_app s)) (unat addr - lo + off) bin\<rparr>"
    "s_ctx s1 = s_ctx s" "mem_ready (s_dev s1) (s_app s1)"
    using write_memory_chunk [OF "1.prems"(5) neg fits, of "\<lambda>i. bin ! unat i" 0] len u t
      host_bytes_nth [OF len(2)] by auto
  show ?case
  proof (cases "bin = []")
    case True
    then have "bytes = []" by (simp add: bin_def)
    with True s1 show ?thesis by (subst write_chunks.simps) (auto simp: bin_def [symmetric] Let_def)
  next
    case False
    have na: "unat (addr + of_nat (length bin)) = unat addr + length bin"
      using "1.prems"(3) hi(1) len(1) by (simp add: unat_word_ariths u)
    have rest: "length bytes = length bin + length (drop 4096 bytes)" by (simp add: bin_def)
    have next_hyps: "lo \<le> unat (addr + of_nat (length bin))"
      "unat (addr + of_nat (length bin)) + length (drop 4096 bytes) < hi"
      unfolding na using "1.prems"(2,3) rest by linarith+
    have "4 dvd length (drop 4096 bytes)"
      using "1.prems"(4) len(3) unfolding rest by (simp only: dvd_add_right_iff)
    from "1.IH" [OF bin_def s1(1) False "1.prems"(1) next_hyps this s1(4)] obtain s2
      where s2: "write_chunks (addr + of_nat (length bin)) (drop 4096 bytes) s1 = Running s2" "s_ctx s2 = s_ctx s1"
        "mem_ready (s_dev s2) (s_app s2)" "s_app s2 = (s_app s1)\<lparr>pmem := put_bytes (pmem (s_app s1))
          (unat (addr + of_nat (length bin)) - lo + off) (drop 4096 bytes)\<rparr>" by blast
    have "unat (addr + of_nat (length bin)) - lo + off = unat addr - lo + off + length bin"
      using na "1.prems"(2) by simp
    then have "put_bytes (put_bytes (pmem (s_app s)) (unat addr - lo + off) bin)
        (unat (addr + of_nat (length bin)) - lo + off) (drop 4096 bytes) = put_bytes (pmem (s_app s)) (unat addr - lo + off) bytes"
      by (simp only: put_bytes_append [symmetric]) (simp add: bin_def)
    with s1 s2 have "s_app s2 = (s_app s)\<lparr>pmem := put_bytes (pmem (s_app s)) (unat addr - lo + off) bytes\<rparr>"
      by simp
    moreover have "write_chunks addr bytes s = Running s2"
      by (subst write_chunks.simps) (simp only: bin_def [symmetric] Let_def s1(1) outcome.case False if_False s2(1))
    ultimately show ?thesis using s1(3) s2(2,3) by auto
  qed
qed

end
