(* ===== verification/Fpspin_Load.thy ===== *)
theory Fpspin_Load
  imports Fpspin_Loader
begin

text \<open>
  What a successful \<open>fpspin_load\<close> (\<open>lib/fpspin/loader.c\<close>) leaves in NIC memory and in the registers of
  the device: the register writes of the load sequence are accepted by the driver, the sections are in
  place, and the host memory window of the context is the one that was asked for.
\<close>

unbundle bit_operations_syntax

section \<open>Register effects of the load sequence\<close>

lemma her_conf_write:
  assumes "in_her_conf (s_app s)" "c < 4" "list_all (\<lambda>n. has_reg name n check_her_in_conf_id (base + of_nat n * 4)) [0..<4]"
  shows "write_reg name (int c) v s = Running (s\<lparr>s_app := reg_write v (base + of_nat c * 4) (s_app s)\<rparr>)"
proof (rule write_reg_has_reg)
  show "has_reg name c check_her_in_conf_id (base + of_nat c * 4)" using assms(2,3) by (simp add: list_all_iff)
  show "check_func check_her_in_conf_id (of_nat c) v (s_app s) = (True, s_app s)"
    using assms(1) by (simp add: check_her_in_conf_def)
qed

lemma her_meta_regs:
  "list_all (\<lambda>n. has_reg ''her_meta/handler_mem_addr'' n check_her_in_conf_id (0x4000 + of_nat n * 4)) [0..<4]"
  "list_all (\<lambda>n. has_reg ''her_meta/handler_mem_size'' n check_her_in_conf_id (0x4010 + of_nat n * 4)) [0..<4]"
  "list_all (\<lambda>n. has_reg ''her_meta/host_mem_addr_0'' n check_her_in_conf_id (0x4020 + of_nat n * 4)) [0..<4]"
  "list_all (\<lambda>n. has_reg ''her_meta/host_mem_addr_1'' n check_her_in_conf_id (0x4030 + of_nat n * 4)) [0..<4]"
  "list_all (\<lambda>n. has_reg ''her_meta/host_mem_size'' n check_her_in_conf_id (0x4040 + of_nat n * 4)) [0..<4]"
  "list_all (\<lambda>n. has_reg ''her_meta/hh_addr'' n check_her_in_conf_id (0x4050 + of_nat n * 4)) [0..<4]"
  "list_all (\<lambda>n. has_reg ''her_meta/hh_size'' n check_her_in_conf_id (0x4060 + of_nat n * 4)) [0..<4]"
  "list_all (\<lambda>n. has_reg ''her_meta/ph_addr'' n check_her_in_conf_id (0x4070 + of_nat n * 4)) [0..<4]"
  "list_all (\<lambda>n. has_reg ''her_meta/ph_size'' n check_her_in_conf_id (0x4080 + of_nat n * 4)) [0..<4]"
  "list_all (\<lambda>n. has_reg ''her_meta/th_addr'' n check_her_in_conf_id (0x4090 + of_nat n * 4)) [0..<4]"
  "list_all (\<lambda>n. has_reg ''her_meta/th_size'' n check_her_in_conf_id (0x40a0 + of_nat n * 4)) [0..<4]"
  "list_all (\<lambda>n. has_reg ''her_meta/scratchpad_0_size'' n check_her_in_conf_id (0x40c0 + of_nat n * 4)) [0..<4]"
  "list_all (\<lambda>n. has_reg ''her_meta/scratchpad_1_size'' n check_her_in_conf_id (0x40e0 + of_nat n * 4)) [0..<4]"
  "list_all (\<lambda>n. has_reg ''her/ctx_enabled'' n check_her_in_conf_id (0x3004 + of_nat n * 4)) [0..<4]"
  by code_simp+

lemmas her_writes = her_conf_write [OF _ _ her_meta_regs(1)] her_conf_write [OF _ _ her_meta_regs(2)]
  her_conf_write [OF _ _ her_meta_regs(3)] her_conf_write [OF _ _ her_meta_regs(4)]
  her_conf_write [OF _ _ her_meta_regs(5)] her_conf_write [OF _ _ her_meta_regs(6)]
  her_conf_write [OF _ _ her_meta_regs(7)] her_conf_write [OF _ _ her_meta_regs(8)]
  her_conf_write [OF _ _ her_meta_regs(9)] her_conf_write [OF _ _ her_meta_regs(10)]
  her_conf_write [OF _ _ her_meta_regs(11)] her_conf_write [OF _ _ her_meta_regs(12)]
  her_conf_write [OF _ _ her_meta_regs(13)] her_conf_write [OF _ _ her_meta_regs(14)]

text \<open>A list of register writes, in the order they are made.\<close>

definition put_regs :: "(u32 \<times> u32) list \<Rightarrow> app \<Rightarrow> app" where
  "put_regs ws a = fold (\<lambda>(off, v). reg_write v off) ws a"

lemma put_regs_Nil [simp]: "put_regs [] a = a"
  by (simp add: put_regs_def)

lemma put_regs_append: "put_regs vs (put_regs ws a) = put_regs (ws @ vs) a"
  by (simp add: put_regs_def)

lemma reg_write_put_regs: "reg_write v off (put_regs ws a) = put_regs (ws @ [(off, v)]) a"
  by (simp add: put_regs_def)

lemma reg_write_as_put_regs: "reg_write v off a = put_regs [(off, v)] a"
  by (simp add: put_regs_def)

lemma put_regs_app: "\<exists>r. put_regs ws a = a\<lparr>regs := r\<rparr>"
proof (induction ws arbitrary: a)
  case Nil
  show ?case by (rule exI [of _ "regs a"]) simp
next
  case (Cons w ws)
  obtain r where "put_regs ws (reg_write (snd w) (fst w) a) = (reg_write (snd w) (fst w) a)\<lparr>regs := r\<rparr>"
    using Cons by blast
  then show ?case by (auto simp: put_regs_def reg_write_def split_beta)
qed

lemma put_regs_simps [simp]:
  "in_her_conf (put_regs ws a) = in_her_conf a" "in_me_conf (put_regs ws a) = in_me_conf a"
  "in_reset (put_regs ws a) = in_reset a" "dma_areas (put_regs ws a) = dma_areas a" "pmem (put_regs ws a) = pmem a"
  using put_regs_app [of ws a] by auto

lemma put_regs_conf: "(put_regs ws a)\<lparr>in_her_conf := x\<rparr> = put_regs ws (a\<lparr>in_her_conf := x\<rparr>)"
proof (induction ws arbitrary: a)
  case (Cons w ws)
  have "(reg_write v off a)\<lparr>in_her_conf := x\<rparr> = reg_write v off (a\<lparr>in_her_conf := x\<rparr>)" for v off a
    by (cases a) (simp add: reg_write_def)
  with Cons show ?case by (simp add: put_regs_def split_beta)
qed simp

lemma regs_put_regs:
  "regs (put_regs ws a) off = (case map_of (rev ws) off of Some v \<Rightarrow> v | None \<Rightarrow> regs a off)"
proof (induction ws arbitrary: a rule: rev_induct)
  case (snoc w ws)
  obtain o' v where w: "w = (o', v)" by (cases w)
  show ?case using snoc by (simp add: w reg_write_put_regs [symmetric] reg_write_def)
qed simp

lemma cl_writes:
  "fetch_off s = Running (s\<lparr>s_app := put_regs [(0, 0)] (s_app s)\<rparr>)"
  "fetch_on s = Running (s\<lparr>s_app := put_regs [(0, 3)] (s_app s)\<rparr>)"
  "cycle_reset s = Running (s\<lparr>s_app := put_regs [(4, 1), (4, 0)] ((s_app s)\<lparr>in_reset := False\<rparr>)\<rparr>)"
proof -
  have clz: "32 - builtin_clz 3 = 2" "32 - builtin_clz 1 = 1" by code_simp+
  have "write_reg ''cl/ctrl'' (int 0) 0 s = Running (s\<lparr>s_app := reg_write 0 0 (s_app s)\<rparr>)"
    "write_reg ''cl/ctrl'' (int 0) 3 s = Running (s\<lparr>s_app := reg_write 3 0 (s_app s)\<rparr>)"
    by (rule write_reg_has_reg [OF enable_regs(1)], simp add: check_cl_ctrl_def clz PSPIN_NUM_CLUSTERS_def)+
  then show "fetch_off s = Running (s\<lparr>s_app := put_regs [(0, 0)] (s_app s)\<rparr>)"
    "fetch_on s = Running (s\<lparr>s_app := put_regs [(0, 3)] (s_app s)\<rparr>)"
    by (simp_all add: fetch_off_def fetch_on_def NUM_CLUSTERS_def reg_write_as_put_regs)
  have "write_reg ''cl/ctrl'' (int 1) 1 t = Running (t\<lparr>s_app := reg_write 1 4 ((s_app t)\<lparr>in_reset := True\<rparr>)\<rparr>)"
    "write_reg ''cl/ctrl'' (int 1) 0 t = Running (t\<lparr>s_app := reg_write 0 4 ((s_app t)\<lparr>in_reset := False\<rparr>)\<rparr>)" for t
    by (rule write_reg_has_reg [OF enable_regs(2)], simp add: check_cl_ctrl_def clz PSPIN_NUM_CLUSTERS_def)+
  then show "cycle_reset s = Running (s\<lparr>s_app := put_regs [(4, 1), (4, 0)] ((s_app s)\<lparr>in_reset := False\<rparr>)\<rparr>)"
    by (simp add: cycle_reset_def then_io_def put_regs_def reg_write_def)
qed

lemma her_off_write:
  "her_off s = Running (s\<lparr>s_app := put_regs [(0x3000, 0)] ((s_app s)\<lparr>in_her_conf := True\<rparr>)\<rparr>)"
  unfolding her_off_def
  using write_reg_has_reg [OF enable_regs(4), of 0 s] by (simp add: check_her_en_def reg_write_as_put_regs)

lemma her_on_write:
  assumes "\<And>i. i < 4 \<Longrightarrow> hostdma_ok (s_app s) i"
  shows "her_on s = Running (s\<lparr>s_app := put_regs [(0x3000, 1)] ((s_app s)\<lparr>in_her_conf := False\<rparr>)\<rparr>)"
  unfolding her_on_def
  using write_reg_has_reg [OF enable_regs(4), of 1 s] assms
  by (simp add: check_her_en_def reg_write_as_put_regs list_all_iff HER_NUM_HANDLER_CTX_def)

text \<open>The context after the handlers and the handler memory are entered, and the registers written.\<close>

definition handler_val :: "image \<Rightarrow> string \<Rightarrow> u32 \<times> u32" where
  "handler_val img h = (case img_symbol img h of None \<Rightarrow> (0, 0) | Some x \<Rightarrow> (x, 4096))"

definition handler_area :: "image \<Rightarrow> string \<Rightarrow> mem_area" where
  "handler_area img h = \<lparr>ma_addr = fst (handler_val img h), ma_size = snd (handler_val img h)\<rparr>"

definition l2_area :: "image \<Rightarrow> mem_area" where
  "l2_area img = \<lparr>ma_addr = fst (img_l2_data img) + snd (img_l2_data img),
     ma_size = ucast (L2_END - ucast (fst (img_l2_data img)))\<rparr>"

definition load_writes :: "nat \<Rightarrow> image \<Rightarrow> u64 \<Rightarrow> u32 \<Rightarrow> (u32 \<times> u32) list" where
  "load_writes c img ptr sz =
     [(0x4050 + of_nat c * 4, fst (handler_val img ''hh'')), (0x4060 + of_nat c * 4, snd (handler_val img ''hh'')),
      (0x4070 + of_nat c * 4, fst (handler_val img ''ph'')), (0x4080 + of_nat c * 4, snd (handler_val img ''ph'')),
      (0x4090 + of_nat c * 4, fst (handler_val img ''th'')), (0x40a0 + of_nat c * 4, snd (handler_val img ''th'')),
      (0x4000 + of_nat c * 4, ma_addr (l2_area img)), (0x4010 + of_nat c * 4, ma_size (l2_area img)),
      (0x4030 + of_nat c * 4, ucast (drop_bit 32 ptr)), (0x4020 + of_nat c * 4, ucast ptr),
      (0x4040 + of_nat c * 4, sz), (0x40c0 + of_nat c * 4, 4096), (0x40e0 + of_nat c * 4, 4096),
      (0x3004 + of_nat c * 4, 1)]"

definition loaded_ctx :: "image \<Rightarrow> fpspin_ctx \<Rightarrow> fpspin_ctx" where
  "loaded_ctx img ctx = ctx\<lparr>c_hh := handler_area img ''hh'', c_ph := handler_area img ''ph'',
     c_th := handler_area img ''th'', c_handler_mem := l2_area img\<rparr>"

lemma set_handler_writes:
  assumes "in_her_conf (s_app s)" "sint (c_ctx_id (s_ctx s)) = int c" "c < 4"
  shows "set_handler img ''hh'' (\<lambda>m c. c\<lparr>c_hh := m\<rparr>) s = Running (s\<lparr>s_ctx := (s_ctx s)\<lparr>c_hh := handler_area img ''hh''\<rparr>,
      s_app := put_regs [(0x4050 + of_nat c * 4, fst (handler_val img ''hh'')), (0x4060 + of_nat c * 4, snd (handler_val img ''hh''))] (s_app s)\<rparr>)"
    "set_handler img ''ph'' (\<lambda>m c. c\<lparr>c_ph := m\<rparr>) s = Running (s\<lparr>s_ctx := (s_ctx s)\<lparr>c_ph := handler_area img ''ph''\<rparr>,
      s_app := put_regs [(0x4070 + of_nat c * 4, fst (handler_val img ''ph'')), (0x4080 + of_nat c * 4, snd (handler_val img ''ph''))] (s_app s)\<rparr>)"
    "set_handler img ''th'' (\<lambda>m c. c\<lparr>c_th := m\<rparr>) s = Running (s\<lparr>s_ctx := (s_ctx s)\<lparr>c_th := handler_area img ''th''\<rparr>,
      s_app := put_regs [(0x4090 + of_nat c * 4, fst (handler_val img ''th'')), (0x40a0 + of_nat c * 4, snd (handler_val img ''th''))] (s_app s)\<rparr>)"
  using assms
  by (simp_all add: set_handler_def Let_def handler_val_def [symmetric] handler_area_def split_beta then_io_def her_writes
      reg_write_as_put_regs put_regs_append)

lemma set_handler_mem_writes:
  assumes "in_her_conf (s_app s)" "sint (c_ctx_id (s_ctx s)) = int c" "c < 4"
  shows "set_handler_mem img s = Running (s\<lparr>s_ctx := (s_ctx s)\<lparr>c_handler_mem := l2_area img\<rparr>, s_app := put_regs
      [(0x4000 + of_nat c * 4, ma_addr (l2_area img)), (0x4010 + of_nat c * 4, ma_size (l2_area img))] (s_app s)\<rparr>)"
  using assms
  by (simp add: set_handler_mem_def Let_def split_beta l2_area_def then_io_def her_writes
      reg_write_as_put_regs put_regs_append)

lemma hostdma_ok_put_regs:
  assumes "i < 4" "\<And>w. w \<in> set ws \<Longrightarrow> fst w \<noteq> 0x4020 + of_nat i * 4 \<and> fst w \<noteq> 0x4030 + of_nat i * 4
      \<and> fst w \<noteq> 0x4040 + of_nat i * 4"
  shows "hostdma_ok (put_regs ws a) i = hostdma_ok a i"
proof -
  have "map_of (rev ws) x = None" if "\<And>w. w \<in> set ws \<Longrightarrow> fst w \<noteq> x" for x
    using that by (auto simp: map_of_eq_None_iff)
  with assms show ?thesis
    by (simp add: hostdma_ok_def hostdma_addr_def hostdma_size_def reg_read_def host_mem_addr_0_def
        host_mem_addr_1_def host_mem_size_def regs_put_regs)
qed

lemma unat_ctx_reg:
  assumes "c < 4" "unat b + 16 < 2 ^ 32"
  shows "unat (b + of_nat c * 4 :: u32) = unat b + 4 * c"
proof -
  have "unat (of_nat c * 4 :: u32) = 4 * c" using assms(1) by (simp add: unat_word_ariths unat_of_nat)
  with assms show ?thesis by (simp add: unat_word_ariths)
qed

lemma split_hostmem: "ucast (ucast p :: u32) + push_bit 32 (ucast (ucast (drop_bit 32 p) :: u32)) = (p :: u64)"
proof -
  have "(ucast (ucast p :: u32) :: u64) AND push_bit 32 (ucast (ucast (drop_bit 32 p) :: u32)) = 0"
    by (rule bit_word_eqI) (auto simp: bit_simps)
  then have "ucast (ucast p :: u32) + push_bit 32 (ucast (ucast (drop_bit 32 p) :: u32))
      = (ucast (ucast p :: u32) :: u64) OR push_bit 32 (ucast (ucast (drop_bit 32 p) :: u32))"
    by (rule disjunctive_add_eq_or)
  also have "\<dots> = p" by (rule bit_word_eqI) (auto simp: bit_simps)
  finally show ?thesis .
qed

lemma load_writes_window:
  assumes "c < 4"
  shows "hostdma_addr (put_regs (load_writes c img ptr sz) a) c = ptr"
    "hostdma_size (put_regs (load_writes c img ptr sz) a) c = ucast sz"
    "i < 4 \<Longrightarrow> i \<noteq> c \<Longrightarrow> hostdma_ok (put_regs (load_writes c img ptr sz) a) i = hostdma_ok a i"
proof -
  show "hostdma_addr (put_regs (load_writes c img ptr sz) a) c = ptr"
    "hostdma_size (put_regs (load_writes c img ptr sz) a) c = ucast sz"
    using assms
    by (simp_all add: hostdma_addr_def hostdma_size_def reg_read_def host_mem_addr_0_def host_mem_addr_1_def
        host_mem_size_def regs_put_regs load_writes_def split_hostmem)
  show "hostdma_ok (put_regs (load_writes c img ptr sz) a) i = hostdma_ok a i" if "i < 4" "i \<noteq> c"
    by (rule hostdma_ok_put_regs [OF that(1)])
      (use assms that in \<open>auto simp: load_writes_def word_unat_eq_iff unat_ctx_reg\<close>)
qed

section \<open>Loading an image\<close>

text \<open>The image fits the memory layout: whole words, and no section runs into the next one.\<close>

definition image_ok :: "image \<Rightarrow> bool" where
  "image_ok img \<longleftrightarrow>
     4 dvd length (img_section img ''.rodata'') \<and> length (img_section img ''.rodata'') \<le> 0xc0000
     \<and> 4 dvd length (img_section img ''.l2_handler_data'') \<and> length (img_section img ''.l2_handler_data'') < 0x40000
     \<and> 4 dvd length (img_section img ''.vectors'') \<and> length (img_section img ''.vectors'') \<le> 0x100
     \<and> 4 dvd length (img_section img ''.text'') \<and> length (img_section img ''.text'') < 0x7f00"

definition holds_bytes :: "(nat \<Rightarrow> u8) \<Rightarrow> nat \<Rightarrow> u8 list \<Rightarrow> bool" where
  "holds_bytes m p bs \<longleftrightarrow> get_bytes m p (length bs) = bs"

lemma holds_bytes_put [simp]: "holds_bytes (put_bytes m p bs) p bs"
  by (simp add: holds_bytes_def get_put_bytes)

lemma holds_bytes_put_other:
  assumes "holds_bytes m p bs" "p + length bs \<le> q \<or> q + length cs \<le> p"
  shows "holds_bytes (put_bytes m q cs) p bs"
proof -
  have "get_bytes (put_bytes m q cs) p (length bs) = get_bytes m p (length bs)"
    by (rule get_bytes_cong) (use assms(2) in \<open>auto simp: put_bytes_apply\<close>)
  with assms(1) show ?thesis by (simp add: holds_bytes_def)
qed

definition image_in_memory :: "image \<Rightarrow> (nat \<Rightarrow> u8) \<Rightarrow> bool" where
  "image_in_memory img m \<longleftrightarrow> holds_bytes m 0x0 (img_section img ''.rodata'')
     \<and> holds_bytes m 0xc0000 (img_section img ''.l2_handler_data'')
     \<and> holds_bytes m 0x400000 (img_section img ''.vectors'') \<and> holds_bytes m 0x400100 (img_section img ''.text'')"

lemma write_section_ok:
  assumes "region lo hi off" "lo \<le> unat addr" "unat addr + length (img_section img sec) < hi"
    "4 dvd length (img_section img sec)" "mem_ready (s_dev s) (s_app s)"
  obtains s' where "write_section img sec addr s = Running s'" "s_ctx s' = s_ctx s" "mem_ready (s_dev s') (s_app s')"
    "s_app s' = (s_app s)\<lparr>pmem := put_bytes (pmem (s_app s)) (unat addr - lo + off) (img_section img sec)\<rparr>"
  using write_chunks_ok [OF assms] unfolding write_section_def by blast

lemma load_sections_ok:
  assumes "image_ok img" "mem_ready (s_dev s) (s_app s)"
  obtains s' where "load_sections img s = Running s'" "s_ctx s' = s_ctx s" "mem_ready (s_dev s') (s_app s')"
    "\<exists>m. s_app s' = (s_app s)\<lparr>pmem := m\<rparr> \<and> image_in_memory img m"
proof -
  have hnd: "region 0x1c000000 0x1c100000 0" and prog: "region 0x1d000000 0x1d008000 0x400000"
    by (simp_all add: region_def)
  note ok = assms(1) [unfolded image_ok_def]
  obtain s1 where s1: "write_section img ''.rodata'' 0x1c000000 s = Running s1" "s_ctx s1 = s_ctx s"
    "mem_ready (s_dev s1) (s_app s1)"
    "s_app s1 = (s_app s)\<lparr>pmem := put_bytes (pmem (s_app s)) 0 (img_section img ''.rodata'')\<rparr>"
    by (rule write_section_ok [OF hnd, of "0x1c000000" img "''.rodata''" s]) (use ok assms(2) in auto)
  obtain s2 where s2: "write_section img ''.l2_handler_data'' 0x1c0c0000 s1 = Running s2" "s_ctx s2 = s_ctx s1"
    "mem_ready (s_dev s2) (s_app s2)"
    "s_app s2 = (s_app s1)\<lparr>pmem := put_bytes (pmem (s_app s1)) 0xc0000 (img_section img ''.l2_handler_data'')\<rparr>"
    by (rule write_section_ok [OF hnd, of "0x1c0c0000" img "''.l2_handler_data''" s1]) (use ok s1(3) in auto)
  obtain s3 where s3: "write_section img ''.vectors'' 0x1d000000 s2 = Running s3" "s_ctx s3 = s_ctx s2"
    "mem_ready (s_dev s3) (s_app s3)"
    "s_app s3 = (s_app s2)\<lparr>pmem := put_bytes (pmem (s_app s2)) 0x400000 (img_section img ''.vectors'')\<rparr>"
    by (rule write_section_ok [OF prog, of "0x1d000000" img "''.vectors''" s2]) (use ok s2(3) in auto)
  obtain s4 where s4: "write_section img ''.text'' 0x1d000100 s3 = Running s4" "s_ctx s4 = s_ctx s3"
    "mem_ready (s_dev s4) (s_app s4)"
    "s_app s4 = (s_app s3)\<lparr>pmem := put_bytes (pmem (s_app s3)) 0x400100 (img_section img ''.text'')\<rparr>"
    by (rule write_section_ok [OF prog, of "0x1d000100" img "''.text''" s3]) (use ok s3(3) in auto)
  let ?m = "put_bytes (put_bytes (put_bytes (put_bytes (pmem (s_app s)) 0 (img_section img ''.rodata''))
      0xc0000 (img_section img ''.l2_handler_data'')) 0x400000 (img_section img ''.vectors''))
      0x400100 (img_section img ''.text'')"
  have "image_in_memory img ?m"
    using ok unfolding image_in_memory_def by (simp add: holds_bytes_put_other)
  moreover have "s_app s4 = (s_app s)\<lparr>pmem := ?m\<rparr>" using s1(4) s2(4) s3(4) s4(4) by simp
  ultimately have mem: "\<exists>m. s_app s4 = (s_app s)\<lparr>pmem := m\<rparr> \<and> image_in_memory img m" by blast
  have run: "load_sections img s = Running s4"
    by (simp add: load_sections_def then_io_def s1(1) s2(1) s3(1) s4(1))
  have "s_ctx s4 = s_ctx s" using s1(2) s2(2) s3(2) s4(2) by simp
  from that [OF run this s4(3) mem] show thesis .
qed

text \<open>What a load leaves behind, and that it leaves the rest of the device alone.\<close>

definition load_post :: "nat \<Rightarrow> image \<Rightarrow> u64 \<Rightarrow> u32 \<Rightarrow> sys \<Rightarrow> sys \<Rightarrow> bool" where
  "load_post c img ptr sz s s' \<longleftrightarrow> image_in_memory img (pmem (s_app s'))
     \<and> \<not> in_reset (s_app s') \<and> regs (s_app s') 0x0 = 3 \<and> regs (s_app s') 0x4 = 0
     \<and> \<not> in_her_conf (s_app s') \<and> regs (s_app s') 0x3000 = 1 \<and> regs (s_app s') (0x3004 + of_nat c * 4) = 1
     \<and> hostdma_addr (s_app s') c = ptr \<and> hostdma_size (s_app s') c = ucast sz
     \<and> her_safe (s_app s') \<and> s_ctx s' = loaded_ctx img (s_ctx s)
     \<and> dma_areas (s_app s') = dma_areas (s_app s)
     \<and> (\<forall>off. 0x2000 \<le> unat off \<and> unat off < 0x3000 \<longrightarrow> regs (s_app s') off = regs (s_app s) off)"

lemma load_result:
  assumes "image_ok img" "mem_ready (s_dev s) ((s_app s)\<lparr>in_reset := False\<rparr>)"
    and "sint (c_ctx_id (s_ctx s)) = int c" "c < HER_NUM_HANDLER_CTX"
    and "\<forall>i < HER_NUM_HANDLER_CTX. i \<noteq> c \<longrightarrow> hostdma_ok (s_app s) i"
    and "enabled (dma_areas (s_app s) ! c) \<longrightarrow> ptr = dma_handle (dma_areas (s_app s) ! c)
      \<and> ucast sz = dma_size (dma_areas (s_app s) ! c)"
  shows "\<exists>s'. fpspin_load img ptr sz s = Running s' \<and> load_post c img ptr sz s s'"
proof -
  have c: "c < 4" using assms(4) by (simp add: HER_NUM_HANDLER_CTX_def)
  define s1 where "s1 = s\<lparr>s_app := put_regs [(0, 0), (4, 1), (4, 0)] ((s_app s)\<lparr>in_reset := False\<rparr>)\<rparr>"
  have a1: "s_app s1 = put_regs [(0, 0), (4, 1), (4, 0)] ((s_app s)\<lparr>in_reset := False\<rparr>)" by (simp add: s1_def)
  have pre: "seq_io [fetch_off, cycle_reset] s = Running s1"
    by (simp add: s1_def then_io_def cl_writes) (simp add: put_regs_def reg_write_def)
  have "mem_ready (s_dev s1) (s_app s1)" using assms(2) by (simp add: s1_def mem_ready_def)
  then obtain s2 m where s2: "load_sections img s1 = Running s2" "s_ctx s2 = s_ctx s1"
    "s_app s2 = (s_app s1)\<lparr>pmem := m\<rparr>" "image_in_memory img m"
    by (rule load_sections_ok [OF assms(1)]) blast
  define b where "b = put_regs [(0, 3), (0x3000, 0)] ((s_app s2)\<lparr>in_her_conf := True\<rparr>)"
  define d where "d = put_regs (load_writes c img ptr sz) b"
  have d: "in_her_conf d" "dma_areas d = dma_areas (s_app s)" "in_reset d = False" "pmem d = m"
    by (simp_all add: d_def b_def s2(3) s1_def)
  have ok_b: "hostdma_ok b i = hostdma_ok (s_app s) i" if "i < 4" for i
  proof -
    have "hostdma_ok b i = hostdma_ok ((s_app s2)\<lparr>in_her_conf := True\<rparr>) i" unfolding b_def
      by (rule hostdma_ok_put_regs [OF that]) (use that in \<open>auto simp: word_unat_eq_iff unat_ctx_reg\<close>)
    also have "\<dots> = hostdma_ok (s_app s1) i"
      by (simp add: s2(3) hostdma_ok_def hostdma_addr_def hostdma_size_def reg_read_def)
    also have "\<dots> = hostdma_ok ((s_app s)\<lparr>in_reset := False\<rparr>) i" unfolding a1
      by (rule hostdma_ok_put_regs [OF that]) (use that in \<open>auto simp: word_unat_eq_iff unat_ctx_reg\<close>)
    finally show ?thesis by (simp add: hostdma_ok_def hostdma_addr_def hostdma_size_def reg_read_def)
  qed
  have win: "hostdma_addr d c = ptr" "hostdma_size d c = ucast sz"
    using load_writes_window(1,2) [OF c] by (simp_all add: d_def)
  have all_ok: "hostdma_ok d i" if "i < 4" for i
  proof (cases "i = c")
    case True
    with win d(2) assms(6) show ?thesis by (auto simp: hostdma_ok_def Let_def)
  next
    case False
    with load_writes_window(3) [OF c that False] ok_b [OF that] assms(5) that show ?thesis
      by (simp add: d_def HER_NUM_HANDLER_CTX_def)
  qed
  define s' where "s' = s2\<lparr>s_ctx := loaded_ctx img (s_ctx s), s_app := put_regs [(0x3000, 1)] (d\<lparr>in_her_conf := False\<rparr>)\<rparr>"
  have post: "seq_io [fetch_on, her_off, set_handler img ''hh'' (\<lambda>m c. c\<lparr>c_hh := m\<rparr>),
      set_handler img ''ph'' (\<lambda>m c. c\<lparr>c_ph := m\<rparr>), set_handler img ''th'' (\<lambda>m c. c\<lparr>c_th := m\<rparr>), set_handler_mem img,
      load_her (sint (c_ctx_id (s_ctx s))) ptr sz] s2 = Running s'"
  proof -
    have her: "load_her (int c) ptr sz t = Running (t\<lparr>s_app := put_regs [(0x3000, 1)]
        ((put_regs (drop 8 (load_writes c img ptr sz)) (s_app t))\<lparr>in_her_conf := False\<rparr>)\<rparr>)"
      if "in_her_conf (s_app t)" "\<And>i. i < 4 \<Longrightarrow> hostdma_ok (put_regs (drop 8 (load_writes c img ptr sz)) (s_app t)) i" for t
      using that c by (simp add: load_her_def then_io_def her_writes reg_write_as_put_regs put_regs_append
          her_on_write load_writes_def)
    define e where "e = put_regs (take 8 (load_writes c img ptr sz)) b"
    have de: "d = put_regs (drop 8 (load_writes c img ptr sz)) e"
      by (simp add: d_def e_def put_regs_append)
    have ctx: "s_ctx s2 = s_ctx s" using s2(2) by (simp add: s1_def)
    have b: "in_her_conf b" by (simp add: b_def)
    have "seq_io [set_handler img ''hh'' (\<lambda>m c. c\<lparr>c_hh := m\<rparr>), set_handler img ''ph'' (\<lambda>m c. c\<lparr>c_ph := m\<rparr>),
        set_handler img ''th'' (\<lambda>m c. c\<lparr>c_th := m\<rparr>), set_handler_mem img] (s2\<lparr>s_app := b\<rparr>)
      = Running (s2\<lparr>s_ctx := loaded_ctx img (s_ctx s), s_app := e\<rparr>)"
      using b assms(3) c by (simp add: then_io_def set_handler_writes [OF _ _ c] set_handler_mem_writes [OF _ _ c]
          put_regs_append e_def load_writes_def ctx loaded_ctx_def)
    moreover have "seq_io [fetch_on, her_off] s2 = Running (s2\<lparr>s_app := b\<rparr>)"
      by (simp add: then_io_def cl_writes her_off_write put_regs_conf put_regs_append b_def)
    moreover have "load_her (int c) ptr sz (s2\<lparr>s_ctx := loaded_ctx img (s_ctx s), s_app := e\<rparr>) = Running s'"
      using her [of "s2\<lparr>s_ctx := loaded_ctx img (s_ctx s), s_app := e\<rparr>"] all_ok b
      by (simp add: de [symmetric] s'_def) (simp add: e_def)
    ultimately have "seq_io ([fetch_on, her_off] @ [set_handler img ''hh'' (\<lambda>m c. c\<lparr>c_hh := m\<rparr>),
        set_handler img ''ph'' (\<lambda>m c. c\<lparr>c_ph := m\<rparr>), set_handler img ''th'' (\<lambda>m c. c\<lparr>c_th := m\<rparr>), set_handler_mem img]
        @ [load_her (int c) ptr sz]) s2 = Running s'"
      by (simp only: seq_io_append then_io_def outcome.case seq_io.simps)
    then show ?thesis by (simp only: append_Cons append_Nil assms(3))
  qed
  have run: "fpspin_load img ptr sz s = Running s'"
  proof -
    have "fpspin_load img ptr sz s = seq_io ([fetch_off, cycle_reset] @ [load_sections img]
      @ [fetch_on, her_off, set_handler img ''hh'' (\<lambda>m c. c\<lparr>c_hh := m\<rparr>),
      set_handler img ''ph'' (\<lambda>m c. c\<lparr>c_ph := m\<rparr>), set_handler img ''th'' (\<lambda>m c. c\<lparr>c_th := m\<rparr>), set_handler_mem img,
      load_her (sint (c_ctx_id (s_ctx s))) ptr sz]) s"
      by (simp only: fpspin_load_def append_Cons append_Nil)
    moreover have "seq_io [load_sections img] s1 = Running s2" by (simp add: then_io_def s2(1))
    ultimately show ?thesis by (simp only: seq_io_append then_io_def pre post outcome.case)
  qed
  have a': "s_app s' = put_regs [(0x3000, 1)] (d\<lparr>in_her_conf := False\<rparr>)" by (simp add: s'_def)
  have win': "hostdma_addr (s_app s') c = ptr" "hostdma_size (s_app s') c = ucast sz"
    using win c unfolding a' by (auto simp: hostdma_addr_def hostdma_size_def reg_read_def host_mem_addr_0_def
        host_mem_addr_1_def host_mem_size_def regs_put_regs word_unat_eq_iff unat_ctx_reg)
  have "hostdma_ok (s_app s') i" if "i < 4" for i
  proof -
    have "hostdma_ok (s_app s') i = hostdma_ok (d\<lparr>in_her_conf := False\<rparr>) i" unfolding a'
      by (rule hostdma_ok_put_regs [OF that]) (use that in \<open>auto simp: word_unat_eq_iff unat_ctx_reg\<close>)
    then show ?thesis using all_ok [OF that]
      by (simp add: hostdma_ok_def hostdma_addr_def hostdma_size_def reg_read_def)
  qed
  then have safe: "her_safe (s_app s')" by (simp add: her_safe_def HER_NUM_HANDLER_CTX_def)
  have off: "map_of (rev (load_writes c img ptr sz)) 0 = None" "map_of (rev (load_writes c img ptr sz)) 4 = None"
    using c by (auto simp: map_of_eq_None_iff load_writes_def word_unat_eq_iff unat_ctx_reg)
  have "regs (s_app s') 0x0 = 3" "regs (s_app s') 0x4 = 0" "regs (s_app s') 0x3000 = 1"
    by (simp_all add: a' regs_put_regs d_def off b_def s2(3) a1)
  moreover have "regs (s_app s') (0x3004 + of_nat c * 4) = 1"
    using c by (auto simp: a' regs_put_regs d_def load_writes_def word_unat_eq_iff unat_ctx_reg)
  moreover have "s_ctx s' = loaded_ctx img (s_ctx s)" "\<not> in_reset (s_app s')" "\<not> in_her_conf (s_app s')" "pmem (s_app s') = m"
    using d by (simp_all add: s'_def a')
  moreover have "regs (s_app s') off = regs (s_app s) off" if "0x2000 \<le> unat off" "unat off < 0x3000" for off
  proof -
    have "map_of (rev (load_writes c img ptr sz)) off = None"
      using c that by (auto simp: map_of_eq_None_iff load_writes_def word_unat_eq_iff unat_ctx_reg)
    with that show ?thesis by (auto simp: a' regs_put_regs d_def b_def s2(3) a1 word_unat_eq_iff)
  qed
  moreover have "dma_areas (s_app s') = dma_areas (s_app s)" using d by (simp add: a')
  ultimately have "load_post c img ptr sz s s'" using win' safe s2(4) unfolding load_post_def by blast
  with run show ?thesis by blast
qed

text \<open>
  Property C20. Loading a handler image: for an image that fits, a context below four, and a host memory
  window that is the DMA buffer of the context if it has one, and provided that the host memory
  registers of the other contexts with an enabled DMA area already agree with that area (otherwise
  the driver refuses to turn the HER generator on), \<open>fpspin_load\<close> ends normally, whatever the other
  registers hold and whether or not the engines are on: every section is in NIC memory at its address, the cluster is out of reset
  and fetching, the HER generator is on with the context enabled and its host window as requested,
  and all enabled DMA areas agree with their windows.
\<close>

theorem load_correct:
  assumes "image_ok img" "mem_ready (s_dev s) ((s_app s)\<lparr>in_reset := False\<rparr>)"
    and "sint (c_ctx_id (s_ctx s)) = int c" "c < HER_NUM_HANDLER_CTX"
    and "\<forall>i < HER_NUM_HANDLER_CTX. i \<noteq> c \<longrightarrow> hostdma_ok (s_app s) i"
    and "enabled (dma_areas (s_app s) ! c) \<longrightarrow> ptr = dma_handle (dma_areas (s_app s) ! c)
      \<and> ucast sz = dma_size (dma_areas (s_app s) ! c)"
  shows "\<exists>s'. fpspin_load img ptr sz s = Running s' \<and> image_in_memory img (pmem (s_app s'))
    \<and> \<not> in_reset (s_app s') \<and> regs (s_app s') 0x0 = 3 \<and> regs (s_app s') 0x4 = 0
    \<and> \<not> in_her_conf (s_app s') \<and> regs (s_app s') 0x3000 = 1 \<and> regs (s_app s') (0x3004 + of_nat c * 4) = 1
    \<and> hostdma_addr (s_app s') c = ptr \<and> hostdma_size (s_app s') c = ucast sz
    \<and> her_safe (s_app s') \<and> s_ctx s' = loaded_ctx img (s_ctx s)"
  using load_result [OF assms] unfolding load_post_def by blast

definition example_image :: image where
  "example_image = \<lparr>img_section = (\<lambda>n. if n = ''.text'' then replicate 4 0x13 else []),
     img_symbol = (\<lambda>n. if n = ''ph'' then Some 0x1d000100 else None), img_l2_data = (0x1c0c0000, 0)\<rparr>"

theorem load_correct_witness:
  "\<exists>s'. fpspin_load example_image 0x1234000 0x10000 example_sys = Running s'
     \<and> get_bytes (pmem (s_app s')) 0x400100 4 = replicate 4 0x13 \<and> hostdma_addr (s_app s') 0 = 0x1234000"
proof -
  have win: "\<forall>i < HER_NUM_HANDLER_CTX. i \<noteq> 0 \<longrightarrow> hostdma_ok (s_app example_sys) i"
    by (simp add: hostdma_ok_def example_sys_def example_app_def HER_NUM_HANDLER_CTX_def)
  have img: "image_ok example_image" by (simp add: image_ok_def example_image_def)
  have ctx: "sint (c_ctx_id (s_ctx example_sys)) = int 0" "0 < HER_NUM_HANDLER_CTX"
    by (simp_all add: example_sys_def example_ctx_def HER_NUM_HANDLER_CTX_def)
  have dev: "mem_ready (s_dev example_sys) ((s_app example_sys)\<lparr>in_reset := False\<rparr>)"
    by (simp add: mem_ready_def example_sys_def example_dev_def)
  have area: "enabled (dma_areas (s_app example_sys) ! 0) \<longrightarrow> 0x1234000 = dma_handle (dma_areas (s_app example_sys) ! 0)
      \<and> ucast (0x10000 :: u32) = dma_size (dma_areas (s_app example_sys) ! 0)"
    by (simp add: example_sys_def example_app_def)
  from load_correct [OF img dev ctx win area]
  obtain s' where "fpspin_load example_image 0x1234000 0x10000 example_sys = Running s'"
    "image_in_memory example_image (pmem (s_app s'))" "hostdma_addr (s_app s') 0 = 0x1234000" by blast
  then show ?thesis by (auto simp: image_in_memory_def holds_bytes_def example_image_def)
qed

end
