(* ===== verification/Host_Flag.thy ===== *)
theory Host_Flag
  imports Fp_Prelude
begin

text \<open>
  The flag word through which a packet handler asks the host for service: its layout
  (\<open>fpspin_flag_t\<close>), and the protocol of one HPU with its host thread: \<open>fpspin_host_req\<close> of
  \<open>spin_host.h\<close> on the NIC, \<open>fpspin_pop_req\<close> and \<open>fpspin_push_resp\<close> of \<open>runtime.c\<close> on the host.
  The two sides share a flag word in host memory, which the NIC writes by DMA, and a flag word in NIC
  memory, which the host writes through the driver as two words of 32 bits, the lower one first.
\<close>

unbundle bit_operations_syntax

section \<open>Layout\<close>

text \<open>The eighth byte of the word belongs to no field of the packed structure.\<close>

record fpspin_flag =
  dma_id :: u8
  flag_len :: u32
  flag_hpu_id :: u16
  flag_rest :: u8

definition flag_of_data :: "u64 \<Rightarrow> fpspin_flag" where
  "flag_of_data d = \<lparr>dma_id = ucast d, flag_len = ucast (drop_bit 8 d), flag_hpu_id = ucast (drop_bit 40 d),
     flag_rest = ucast (drop_bit 56 d)\<rparr>"

definition flag_data :: "fpspin_flag \<Rightarrow> u64" where
  "flag_data f = ucast (dma_id f) OR push_bit 8 (ucast (flag_len f)) OR push_bit 40 (ucast (flag_hpu_id f))
     OR push_bit 56 (ucast (flag_rest f))"

lemma not_bit_u32 [simp]: "32 \<le> n \<Longrightarrow> \<not> bit (b :: u32) n"
  by (auto dest: bit_imp_le_length)

lemma not_bit_u16 [simp]: "16 \<le> n \<Longrightarrow> \<not> bit (b :: u16) n"
  by (auto dest: bit_imp_le_length)

lemma flag_of_data_fields [simp]:
  "dma_id (flag_of_data (flag_data f)) = dma_id f" "flag_len (flag_of_data (flag_data f)) = flag_len f"
  "flag_hpu_id (flag_of_data (flag_data f)) = flag_hpu_id f" "flag_rest (flag_of_data (flag_data f)) = flag_rest f"
  by (auto simp: flag_of_data_def flag_data_def bit_simps intro!: bit_word_eqI)

lemma flag_data_of_data: "flag_data (flag_of_data d) = d"
proof (rule bit_word_eqI)
  fix n assume "n < LENGTH(64)"
  then show "bit (flag_data (flag_of_data d)) n = bit d n"
    by (cases "8 \<le> n"; cases "40 \<le> n"; cases "56 \<le> n") (auto simp: flag_of_data_def flag_data_def bit_simps)
qed

definition flag_lo :: "u64 \<Rightarrow> u32" where "flag_lo d = ucast d"
definition flag_hi :: "u64 \<Rightarrow> u32" where "flag_hi d = ucast (drop_bit 32 d)"

definition flag_word :: "u32 \<Rightarrow> u32 \<Rightarrow> u64" where
  "flag_word lo hi = ucast lo OR push_bit 32 (ucast hi)"

lemma flag_word_halves [simp]: "flag_word (flag_lo d) (flag_hi d) = d"
proof (rule bit_word_eqI)
  fix n assume "n < LENGTH(64)"
  then show "bit (flag_word (flag_lo d) (flag_hi d)) n = bit d n"
    by (cases "32 \<le> n") (auto simp: flag_word_def flag_lo_def flag_hi_def bit_simps)
qed

lemma dma_id_word: "dma_id (flag_of_data (flag_word lo hi)) = ucast lo"
  by (auto simp: flag_of_data_def flag_word_def bit_simps intro!: bit_word_eqI)

lemma flag_len_word: "flag_len (flag_of_data (flag_word lo hi)) = drop_bit 8 lo OR push_bit 24 hi"
  by (auto simp: flag_of_data_def flag_word_def bit_simps intro!: bit_word_eqI)

section \<open>One HPU and its host thread\<close>

text \<open>
  The NIC side is in \<open>fpspin_host_req\<close>, polling for the answer with the given identifier; the loop
  body loads the two halves of the flag word, in an order the compiler chooses. The host side waits
  in \<open>fpspin_pop_req\<close>, serves a request, or is inside \<open>fpspin_push_resp\<close> with the lower half written.
\<close>

datatype nic_pc = NicIdle | NicPolling u8 "u32 option" "u32 option"

datatype host_pc = HostIdle | HostServing | HostHalf u32

record lane =
  l_hpu :: u16
  l_dma_idx :: u8
  l_nic :: nic_pc
  l_page :: u64
  l_ctx_idx :: u8
  l_host :: host_pc
  l_lo :: u32
  l_hi :: u32

datatype lane_event = NicPost u32 | NicLoadLo | NicLoadHi | NicCheck | HostPop | HostPushLo u32 | HostPushHi

fun lane_exec :: "lane_event \<Rightarrow> lane \<Rightarrow> lane option" where
  "lane_exec (NicPost len) l =
     (case l_nic l of
        NicIdle \<Rightarrow>
          (let idx = l_dma_idx l + 1;
               flag_to_host = \<lparr>dma_id = idx, flag_len = len, flag_hpu_id = l_hpu l, flag_rest = 0\<rparr>
           in Some (l\<lparr>l_dma_idx := idx, l_page := flag_data flag_to_host, l_nic := NicPolling idx None None\<rparr>))
      | NicPolling _ _ _ \<Rightarrow> None)"
| "lane_exec NicLoadLo l =
     (case l_nic l of NicPolling i lo hi \<Rightarrow> Some (l\<lparr>l_nic := NicPolling i (Some (l_lo l)) hi\<rparr>) | NicIdle \<Rightarrow> None)"
| "lane_exec NicLoadHi l =
     (case l_nic l of NicPolling i lo hi \<Rightarrow> Some (l\<lparr>l_nic := NicPolling i lo (Some (l_hi l))\<rparr>) | NicIdle \<Rightarrow> None)"
| "lane_exec NicCheck l =
     (case l_nic l of
        NicPolling i (Some lo) (Some hi) \<Rightarrow>
          (let flag_from_host = flag_of_data (flag_word lo hi)
           in if i \<noteq> dma_id flag_from_host then Some (l\<lparr>l_nic := NicPolling i None None\<rparr>)
              else Some (l\<lparr>l_nic := NicIdle\<rparr>))
      | _ \<Rightarrow> None)"
| "lane_exec HostPop l =
     (case l_host l of
        HostIdle \<Rightarrow>
          (let f = flag_of_data (l_page l)
           in if dma_id f = l_ctx_idx l then Some l
              else Some (l\<lparr>l_ctx_idx := dma_id f, l_host := HostServing\<rparr>))
      | _ \<Rightarrow> None)"
| "lane_exec (HostPushLo len) l =
     (case l_host l of
        HostServing \<Rightarrow>
          (let flag = \<lparr>dma_id = l_ctx_idx l, flag_len = len, flag_hpu_id = l_hpu l, flag_rest = 0\<rparr>
           in Some (l\<lparr>l_lo := flag_lo (flag_data flag), l_host := HostHalf (flag_hi (flag_data flag))\<rparr>))
      | _ \<Rightarrow> None)"
| "lane_exec HostPushHi l =
     (case l_host l of HostHalf hi \<Rightarrow> Some (l\<lparr>l_hi := hi, l_host := HostIdle\<rparr>) | _ \<Rightarrow> None)"

text \<open>The lane when both sides have been initialised, with equal counters and no request under way.\<close>

definition lane_init :: "u16 \<Rightarrow> u8 \<Rightarrow> lane \<Rightarrow> bool" where
  "lane_init hpu i l \<longleftrightarrow> l_hpu l = hpu \<and> l_dma_idx l = i \<and> l_nic l = NicIdle \<and> dma_id (flag_of_data (l_page l)) = i
     \<and> l_ctx_idx l = i \<and> l_host l = HostIdle \<and> ucast (l_lo l) = i \<and> ucast (l_hi l) = (0 :: u8)"

section \<open>The service the protocol implements\<close>

text \<open>
  Seen from outside, a handler calls with a length, the host takes up the call with that length,
  answers with a length, and the handler returns with the answer.
\<close>

datatype rpc = RIdle | RCalled u32 | RServing | RAnswered u32

datatype rpc_event = RCall u32 | RServe u32 | RAnswer u32 | RReturn u32

fun rpc_exec :: "rpc_event \<Rightarrow> rpc \<Rightarrow> rpc option" where
  "rpc_exec (RCall n) s = (if s = RIdle then Some (RCalled n) else None)"
| "rpc_exec (RServe n) s = (if s = RCalled n then Some RServing else None)"
| "rpc_exec (RAnswer n) s = (if s = RServing then Some (RAnswered n) else None)"
| "rpc_exec (RReturn n) s = (if s = RAnswered n then Some RIdle else None)"

fun lane_vis :: "lane_event \<Rightarrow> lane \<Rightarrow> rpc_event option" where
  "lane_vis (NicPost len) l = Some (RCall len)"
| "lane_vis NicCheck l =
     (case l_nic l of
        NicPolling i (Some lo) (Some hi) \<Rightarrow>
          (let f = flag_of_data (flag_word lo hi) in if dma_id f = i then Some (RReturn (flag_len f)) else None)
      | _ \<Rightarrow> None)"
| "lane_vis HostPop l =
     (let f = flag_of_data (l_page l) in if dma_id f = l_ctx_idx l then None else Some (RServe (flag_len f)))"
| "lane_vis (HostPushLo len) l = Some (RAnswer len)"
| "lane_vis _ l = None"

definition lane_abs :: "lane \<Rightarrow> rpc" where
  "lane_abs l =
     (if l_nic l = NicIdle then RIdle
      else if l_ctx_idx l \<noteq> l_dma_idx l then RCalled (flag_len (flag_of_data (l_page l)))
      else if l_host l = HostServing then RServing
      else RAnswered (drop_bit 8 (l_lo l)))"

text \<open>
  The upper half reaches the NIC after the lower one, so an answer is only whole if the upper
  halves do not differ: lengths below 2^24.
\<close>

fun short_answers :: "lane \<Rightarrow> lane_event \<Rightarrow> bool" where
  "short_answers l (HostPushLo len) \<longleftrightarrow> len < 2 ^ 24"
| "short_answers l _ \<longleftrightarrow> True"

definition zero_low :: "u32 \<Rightarrow> bool" where
  "zero_low hi \<longleftrightarrow> ucast hi = (0 :: u8)"

definition lane_inv :: "lane \<Rightarrow> bool" where
  "lane_inv l \<longleftrightarrow> dma_id (flag_of_data (l_page l)) = l_dma_idx l \<and> zero_low (l_hi l)
     \<and> (case l_host l of HostHalf hi \<Rightarrow> zero_low hi | _ \<Rightarrow> True)
     \<and> (case l_nic l of
          NicIdle \<Rightarrow> l_ctx_idx l = l_dma_idx l \<and> ucast (l_lo l) = l_dma_idx l \<and> l_host l \<noteq> HostServing
        | NicPolling i lo hi \<Rightarrow> i = l_dma_idx l
            \<and> (case hi of None \<Rightarrow> True | Some h \<Rightarrow> zero_low h)
            \<and> (if l_ctx_idx l = l_dma_idx l \<and> l_host l \<noteq> HostServing
               then ucast (l_lo l) = i \<and> (case lo of None \<Rightarrow> True | Some x \<Rightarrow> x = l_lo l \<or> ucast x \<noteq> i)
               else ucast (l_lo l) = i - 1 \<and> (case lo of None \<Rightarrow> True | Some x \<Rightarrow> ucast x = i - 1)
                 \<and> (if l_host l = HostServing then l_ctx_idx l = i else l_ctx_idx l = i - 1)))"

lemma succ_ne_self [simp]: "x - 1 \<noteq> (x :: u8)" "x \<noteq> x - 1"
  by (simp_all add: eq_diff_eq diff_eq_eq)

lemma ucast_flag_lo: "ucast (flag_lo (flag_data f)) = dma_id f"
  by (auto simp: flag_lo_def flag_data_def bit_simps intro!: bit_word_eqI)

lemma zero_low_flag_hi:
  assumes "flag_len f < 2 ^ 24"
  shows "zero_low (flag_hi (flag_data f))" "drop_bit 8 (flag_lo (flag_data f)) = flag_len f"
proof -
  have z: "\<not> bit (flag_len f) n" if "24 \<le> n" for n
  proof -
    have "unat (flag_len f) < 2 ^ 24" using assms by (simp add: word_less_nat_alt)
    also have "(2 :: nat) ^ 24 \<le> 2 ^ n" using that by (rule power_increasing) simp
    finally have "unat (flag_len f) div 2 ^ n = 0" by simp
    then have "\<not> bit (unat (flag_len f)) n" by (simp add: bit_iff_odd)
    then show ?thesis by (auto simp: bit_simps)
  qed
  show "zero_low (flag_hi (flag_data f))"
    by (auto simp: zero_low_def flag_hi_def flag_data_def bit_simps z intro!: bit_word_eqI)
  show "drop_bit 8 (flag_lo (flag_data f)) = flag_len f"
    by (auto simp: flag_lo_def flag_data_def bit_simps intro!: bit_word_eqI) (use z not_less in blast)
qed

lemma zero_low_len: "zero_low hi \<Longrightarrow> flag_len (flag_of_data (flag_word lo hi)) = drop_bit 8 lo"
proof -
  assume "zero_low hi"
  then have "\<not> bit hi n" if "n < 8" for n
  proof -
    have "bit hi n = bit (ucast hi :: u8) n" using that by (simp add: bit_simps)
    then show ?thesis using \<open>zero_low hi\<close> by (simp add: zero_low_def)
  qed
  then have "push_bit 24 hi = 0" by (auto simp: bit_simps intro!: bit_word_eqI)
  then show ?thesis by (simp add: flag_len_word)
qed

lemma lane_init_inv: "lane_init hpu i l \<Longrightarrow> lane_inv l"
  by (simp add: lane_init_def lane_inv_def zero_low_def)

lemmas lane_defs = lane_inv_def lane_abs_def Let_def ucast_flag_lo zero_low_flag_hi zero_low_len dma_id_word

lemma lane_inv_polling:
  assumes "lane_inv l" "l_nic l = NicPolling i (Some lo) hi"
  shows "i = l_dma_idx l" "ucast lo = i \<Longrightarrow> l_ctx_idx l = i \<and> l_host l \<noteq> HostServing \<and> lo = l_lo l"
proof -
  show i: "i = l_dma_idx l" using assms by (simp add: lane_inv_def)
  show "l_ctx_idx l = i \<and> l_host l \<noteq> HostServing \<and> lo = l_lo l" if u: "ucast lo = i"
  proof (cases "l_ctx_idx l = l_dma_idx l \<and> l_host l \<noteq> HostServing")
    case True
    then show ?thesis using assms u i by (simp add: lane_inv_def)
  next
    case False
    then have "ucast lo = i - 1" using assms by (simp only: lane_inv_def nic_pc.case if_False option.case)
    with u show ?thesis by simp
  qed
qed

lemma lane_inv_again:
  assumes "lane_inv l" "l_nic l = NicPolling i lo hi"
  shows "lane_inv (l\<lparr>l_nic := NicPolling i None None\<rparr>)"
proof (cases "l_host l = HostServing")
  case True
  with assms show ?thesis by (simp add: lane_inv_def)
next
  case False
  with assms show ?thesis by (cases "l_ctx_idx l = l_dma_idx l") (simp_all add: lane_inv_def)
qed

lemma lane_inv_check:
  assumes "lane_inv l" "lane_exec NicCheck l = Some l'"
  shows "lane_inv l'"
proof -
  obtain i lo hi where n: "l_nic l = NicPolling i (Some lo) (Some hi)"
    using assms(2) by (auto split: nic_pc.splits option.splits)
  note inv = lane_inv_polling [OF assms(1) n]
  have i: "i = l_dma_idx l" by (rule inv(1))
  show ?thesis
  proof (cases "ucast lo = i")
    case True
    with n assms(2) have "l' = l\<lparr>l_nic := NicIdle\<rparr>" by (simp add: dma_id_word Let_def)
    moreover have "ucast (l_lo l) = l_dma_idx l" "l_ctx_idx l = l_dma_idx l" "l_host l \<noteq> HostServing"
      using inv(2) [OF True] True i by auto
    ultimately show ?thesis using assms(1) by (simp add: lane_inv_def)
  next
    case False
    with n assms(2) have "l' = l\<lparr>l_nic := NicPolling i None None\<rparr>" by (auto simp add: dma_id_word Let_def)
    with lane_inv_again [OF assms(1) n] show ?thesis by simp
  qed
qed

lemma lane_inv_step:
  assumes "lane_inv l" "short_answers l e" "lane_exec e l = Some l'"
  shows "lane_inv l'"
proof (cases "e = NicCheck")
  case True
  with assms show ?thesis using lane_inv_check by blast
next
  case False
  with assms show ?thesis
    by (cases e; cases "l_nic l"; cases "l_host l"; clarsimp simp: Let_def split: option.splits if_splits)
      (auto simp: lane_defs split: option.splits if_splits)
qed

lemma lane_hidden:
  assumes "lane_inv l" "lane_exec e l = Some l'" "lane_vis e l = None"
  shows "lane_abs l' = lane_abs l"
  using assms
  by (cases e; cases "l_nic l"; cases "l_host l"; clarsimp simp: Let_def split: option.splits if_splits)
    (auto simp: lane_defs split: option.splits if_splits)

lemma lane_visible:
  assumes "lane_inv l" "short_answers l e" "lane_exec e l = Some l'" "lane_vis e l = Some r"
  shows "rpc_exec r (lane_abs l) = Some (lane_abs l')"
  using assms
  by (cases e; cases "l_nic l"; cases "l_host l"; clarsimp simp: Let_def split: option.splits if_splits)
    (auto simp: lane_defs split: option.splits if_splits)

interpretation lane_sys: simulation lane_exec short_answers lane_inv rpc_exec lane_abs lane_vis
  by unfold_locales (blast intro: lane_inv_step lane_hidden lane_visible)+

text \<open>
  Property C21. The flag protocol implements the call service: whatever the interleaving of the two
  sides, and whichever half of the flag word the NIC loads first, the requests that are posted,
  taken up, answered and returned form a run of the service machine. So a request is served exactly
  once and with the posted length, and the handler returns with the answer to its own request, although
  identifiers have eight bits, as long as answers are shorter than 2^24.
\<close>

theorem handshake_refines:
  assumes "lane_init hpu i l" "run lane_exec short_answers es l = Some l'"
  shows "run rpc_exec (\<lambda>_ _. True) (trace lane_exec lane_vis es l) RIdle = Some (lane_abs l')"
proof -
  have "lane_abs l = RIdle" using assms(1) by (simp add: lane_init_def lane_abs_def)
  with lane_sys.trace_refines [OF assms(2) lane_init_inv [OF assms(1)]] show ?thesis by simp
qed

definition example_lane :: lane where
  "example_lane = \<lparr>l_hpu = 3, l_dma_idx = 255, l_nic = NicIdle, l_page = 255, l_ctx_idx = 255, l_host = HostIdle,
     l_lo = 255, l_hi = 0\<rparr>"

definition example_schedule :: "lane_event list" where
  "example_schedule = [NicPost 5, NicLoadLo, NicLoadHi, NicCheck, HostPop, HostPushLo 7, NicLoadHi, NicLoadLo, NicCheck, HostPushHi]"

theorem handshake_refines_witness:
  "trace lane_exec lane_vis example_schedule example_lane = [RCall 5, RServe 5, RAnswer 7, RReturn 7]
   \<and> run rpc_exec (\<lambda>_ _. True) [RCall 5, RServe 5, RAnswer 7, RReturn 7] RIdle
     = Some (lane_abs (the (run lane_exec short_answers example_schedule example_lane)))"
proof -
  have t: "trace lane_exec lane_vis example_schedule example_lane = [RCall 5, RServe 5, RAnswer 7, RReturn 7]" by code_simp
  have i: "lane_init 3 255 example_lane" by code_simp
  have "\<not> Option.is_none (run lane_exec short_answers example_schedule example_lane)" by code_simp
  then have r: "run lane_exec short_answers example_schedule example_lane
      = Some (the (run lane_exec short_answers example_schedule example_lane))"
    by (cases "run lane_exec short_answers example_schedule example_lane") simp_all
  from handshake_refines [OF i r] t show ?thesis by simp
qed

text \<open>The host's part that is left of a request that is under way, answering with \<open>n\<close>.\<close>

definition finish_request :: "u32 \<Rightarrow> lane \<Rightarrow> lane_event list" where
  "finish_request n l =
     (case l_host l of HostServing \<Rightarrow> [HostPushLo n] | HostHalf _ \<Rightarrow> [HostPushHi] | HostIdle \<Rightarrow> [])
     @ (if l_ctx_idx l \<noteq> l_dma_idx l then [HostPop, HostPushLo n] else [])
     @ [NicLoadLo, NicLoadHi, NicCheck]"

lemma finish_request_run:
  assumes "lane_inv l" "l_nic l = NicPolling i lo hi" "n < 2 ^ 24"
  shows "\<exists>l'. run lane_exec short_answers (finish_request n l) l = Some l' \<and> l_nic l' = NicIdle"
proof (cases "l_host l = HostServing")
  case True
  with assms show ?thesis
    by (simp add: lane_inv_def finish_request_def Let_def ucast_flag_lo dma_id_word)
next
  case False
  show ?thesis
  proof (cases "l_ctx_idx l = l_dma_idx l")
    case True
    have "ucast (l_lo l) = i" using assms True False by (simp add: lane_inv_def)
    with assms(2) True False show ?thesis
      by (cases "l_host l") (simp_all add: finish_request_def Let_def dma_id_word)
  next
    case f: False
    with assms False show ?thesis
      by (cases "l_host l") (simp_all add: lane_inv_def finish_request_def Let_def ucast_flag_lo dma_id_word)
  qed
qed

text \<open>
  Property C22. No handler waits for ever: from every state the protocol can reach in which a handler is
  polling, the rest of the host's work on the request and one more iteration of the poll, at most
  six steps, end the call.
\<close>

theorem handshake_completes:
  assumes "lane_init hpu i l" "run lane_exec short_answers es l = Some l'" "l_nic l' \<noteq> NicIdle" "n < 2 ^ 24"
  shows "\<exists>l''. run lane_exec short_answers (finish_request n l') l' = Some l'' \<and> l_nic l'' = NicIdle
    \<and> length (finish_request n l') \<le> 6"
proof -
  have inv: "lane_inv l'"
    using lane_sys.reach_inv [OF run_reach [OF assms(2)] lane_init_inv [OF assms(1)]] .
  have "length (finish_request n l') \<le> 6" by (simp add: finish_request_def split: host_pc.split)
  moreover obtain j lo hi where "l_nic l' = NicPolling j lo hi" using assms(3) by (cases "l_nic l'") simp_all
  ultimately show ?thesis using finish_request_run [OF inv _ assms(4)] by blast
qed

definition example_waiting :: lane where
  "example_waiting = the (run lane_exec short_answers [NicPost 5, NicLoadLo, HostPop] example_lane)"

theorem handshake_completes_witness:
  "finish_request 9 example_waiting = [HostPushLo 9, NicLoadLo, NicLoadHi, NicCheck]
   \<and> (\<exists>l''. run lane_exec short_answers (finish_request 9 example_waiting) example_waiting = Some l'' \<and> l_nic l'' = NicIdle)"
proof -
  have i: "lane_init 3 255 example_lane" by code_simp
  have "\<not> Option.is_none (run lane_exec short_answers [NicPost 5, NicLoadLo, HostPop] example_lane)" by code_simp
  then have r: "run lane_exec short_answers [NicPost 5, NicLoadLo, HostPop] example_lane = Some example_waiting"
    unfolding example_waiting_def
    by (cases "run lane_exec short_answers [NicPost 5, NicLoadLo, HostPop] example_lane") simp_all
  have "l_nic example_waiting \<noteq> NicIdle" "(9 :: u32) < 2 ^ 24"
    "finish_request 9 example_waiting = [HostPushLo 9, NicLoadLo, NicLoadHi, NicCheck]" by code_simp+
  then show ?thesis using handshake_completes [OF i r, of 9] by auto
qed

text \<open>
  With longer answers the handler can return a length that nobody sent: the lower half of the
  answer 2^24 + 7 is visible before its upper half.
\<close>

lemma torn_answer:
  "trace lane_exec lane_vis [NicPost 5, HostPop, HostPushLo 0x1000007, NicLoadLo, NicLoadHi, NicCheck] example_lane
   = [RCall 5, RServe 5, RAnswer 0x1000007, RReturn 7]"
  by code_simp

text \<open>
  Without equal counters at the start the first request can return at once with a stale answer: here the
  NIC flag still holds identifier 0 of an earlier run, and no host has answered.
\<close>

lemma stale_answer:
  "trace lane_exec lane_vis [NicPost 5, NicLoadLo, NicLoadHi, NicCheck] (example_lane\<lparr>l_lo := 0x900\<rparr>)
   = [RCall 5, RReturn 9]"
  by code_simp

end
