(* ===== verification/Fpspin_Init.thy ===== *)
theory Fpspin_Init
  imports Fpspin_Load Host_Flag
begin

text \<open>
  Start and end of a host application (\<open>fpspin_init\<close>, \<open>fpspin_exit\<close> of \<open>lib/fpspin/runtime.c\<close>), on top
  of the loader and the driver model: an initialised context has its host DMA window set to the buffer
  the driver allocated for it, and after the exit no packet reaches the context.
\<close>

unbundle bit_operations_syntax

section \<open>Initialisation and exit\<close>

definition NUM_HPUS :: nat where "NUM_HPUS = 16"
definition DMA_ALIGN :: u64 where "DMA_ALIGN = 512 div 8"

text \<open>
  The process: the library's view of the device, whether the descriptor is open, \<open>ctx->cpu_addr\<close>, and the
  mapping of the device it holds (start, length and handler context).
\<close>

record host =
  h_sys :: sys
  h_fd :: bool
  h_cpu_addr :: u64
  h_map :: "(u64 \<times> u64 \<times> nat) option"

text \<open>
  What the system calls and the binary tools answer during \<open>fpspin_init\<close>: the device that \<open>open\<close> returns,
  where the kernel places the mapping, the driver's allocations, \<open>madvise\<close>, the copies of the \<open>ioctl\<close>,
  the address that \<open>nm\<close> prints, and the memory of the process when the flags are read.
\<close>

record init_env =
  ie_open :: "pspin_cdev option"
  ie_vm_start :: "u64 option"
  ie_mmap :: mmap_env
  ie_madvise_ok :: bool
  ie_copy_ok :: "nat \<Rightarrow> bool"
  ie_nm :: "u64 option option"
  ie_mem :: "u64 \<Rightarrow> u64"

text \<open>\<open>fpspin_init\<close> returns, ends the process, or does not come back from the driver or a loop.\<close>

datatype init_result = Returns bool host | Ends host | Lost

definition set_app :: "app \<Rightarrow> host \<Rightarrow> host" where
  "set_app a h = h\<lparr>h_sys := (h_sys h)\<lparr>s_app := a\<rparr>\<rparr>"

definition set_ctx :: "(fpspin_ctx \<Rightarrow> fpspin_ctx) \<Rightarrow> host \<Rightarrow> host" where
  "set_ctx f h = h\<lparr>h_sys := (h_sys h)\<lparr>s_ctx := f (s_ctx (h_sys h))\<rparr>\<rparr>"

text \<open>The \<open>mmap\<close> call with \<open>MAP_SHARED\<close> on the device, and \<open>munmap\<close> of the range.\<close>

definition host_mmap :: "init_env \<Rightarrow> u64 \<Rightarrow> u64 \<Rightarrow> host \<Rightarrow> (bool \<times> host) option" where
  "host_mmap env len off h =
     (case ie_vm_start env of
        None \<Rightarrow> Some (False, h\<lparr>h_cpu_addr := - 1\<rparr>)
      | Some start \<Rightarrow>
          if len = 0 then Some (False, h\<lparr>h_cpu_addr := - 1\<rparr>)
          else (case pspin_mmap (ie_mmap env)
                       \<lparr>vm_start = start, vm_end = start + len, vm_pgoff = off div PAGE_SIZE, vm_shared = True\<rparr>
                       (s_app (h_sys h)) of
                  None \<Rightarrow> None
                | Some (Inl e, buf, a) \<Rightarrow> Some (False, (set_app a h)\<lparr>h_cpu_addr := - 1\<rparr>)
                | Some (Inr c, buf, a) \<Rightarrow>
                    Some (True, (set_app a h)\<lparr>h_cpu_addr := start, h_map := Some (start, len, c)\<rparr>)))"

definition host_munmap :: "u64 \<Rightarrow> u64 \<Rightarrow> host \<Rightarrow> host" where
  "host_munmap addr len h =
     (case h_map h of
        Some (start, l, c) \<Rightarrow>
          if start = addr \<and> l = len
          then (set_app (snd (pspin_vma_close c (s_app (h_sys h)))) h)\<lparr>h_map := None\<rparr> else h
      | None \<Rightarrow> h)"

text \<open>The exits of \<open>fpspin_init\<close>.\<close>

definition init_unmap :: "host \<Rightarrow> init_result" where
  "init_unmap h = Returns False (host_munmap (h_cpu_addr h) (c_mmap_len (s_ctx (h_sys h))) h)"

definition init_close_dev :: "host \<Rightarrow> init_result" where
  "init_close_dev h = init_unmap (h\<lparr>h_fd := False\<rparr>)"

text \<open>The end of \<open>fpspin_init\<close>: the host flags' address and the request counters of the HPUs.\<close>

definition init_flags :: "init_env \<Rightarrow> host \<Rightarrow> init_result" where
  "init_flags env h =
     (case ie_nm env of
        None \<Rightarrow> init_close_dev h
      | Some None \<Rightarrow> init_close_dev h
      | Some (Some p) \<Rightarrow>
          Returns True (set_ctx (\<lambda>ctx. ctx\<lparr>c_host_data_ptr := p,
            c_dma_idx := map (\<lambda>i. dma_id (flag_of_data (ie_mem env (h_cpu_addr h + of_nat i * PAGE_SIZE))))
                           [0..<NUM_HPUS]\<rparr>) h))"

definition init_load :: "init_env \<Rightarrow> image \<Rightarrow> s32 \<Rightarrow> fpspin_ruleset list \<Rightarrow> host \<Rightarrow> init_result" where
  "init_load env img dest_ctx rs h =
     (case pspin_ioctl (ie_copy_ok env) (s_dev (h_sys h)) (PSPIN_HOSTDMA_QUERY dest_ctx) (s_app (h_sys h)) of
        None \<Rightarrow> Lost
      | Some (Inl e, a) \<Rightarrow> init_unmap (set_app a h)
      | Some (Inr resp_none, a) \<Rightarrow> init_unmap (set_app a h)
      | Some (Inr (resp_word w), a) \<Rightarrow> init_unmap (set_app a h)
      | Some (Inr (resp_area area), a) \<Rightarrow>
          if \<not> enabled area then Ends (set_app a h)
          else (case seq_io [fpspin_load img (dma_handle area) (ucast (dma_size area)), fpspin_prog_me rs]
                       (h_sys (set_app a h)) of
                  Running s \<Rightarrow> init_flags env (h\<lparr>h_sys := s\<rparr>)
                | Exited s \<Rightarrow> Ends (h\<lparr>h_sys := s\<rparr>)
                | Hangs \<Rightarrow> Lost))"

definition fpspin_init ::
  "init_env \<Rightarrow> image \<Rightarrow> s32 \<Rightarrow> fpspin_ruleset list \<Rightarrow> s32 \<Rightarrow> host \<Rightarrow> init_result" where
  "fpspin_init env img dest_ctx rs hostdma_pages h =
     (case ie_open env of
        None \<Rightarrow> Ends h
      | Some dev \<Rightarrow>
          (let h = set_ctx (\<lambda>ctx. ctx\<lparr>c_ctx_id := dest_ctx\<rparr>)
                     (h\<lparr>h_fd := True, h_sys := (h_sys h)\<lparr>s_dev := dev, s_pos := 0\<rparr>\<rparr>)
           in if hostdma_pages = 0 then init_load env img dest_ctx rs h
              else (let len = scast (hostdma_pages * 4096);
                        h = set_ctx (\<lambda>ctx. ctx\<lparr>c_mmap_len := len\<rparr>) h
                    in case host_mmap env len (scast dest_ctx * len) h of
                         None \<Rightarrow> Lost
                       | Some (False, h) \<Rightarrow> Returns False h
                       | Some (True, h) \<Rightarrow>
                           if \<not> ie_madvise_ok env then init_unmap h else init_load env img dest_ctx rs h)))"

definition fpspin_exit :: "host \<Rightarrow> init_result" where
  "fpspin_exit h =
     (case fpspin_unload (h_sys h) of
        Running s \<Rightarrow>
          Returns True (host_munmap (h_cpu_addr h) (c_mmap_len (s_ctx s)) (h\<lparr>h_sys := s, h_fd := False\<rparr>))
      | Exited s \<Rightarrow> Ends (h\<lparr>h_sys := s\<rparr>)
      | Hangs \<Rightarrow> Lost)"

lemma sint_small: "unat (w :: s32) < 2 ^ 31 \<Longrightarrow> sint w = int (unat w)"
proof -
  assume "unat w < 2 ^ 31"
  then have "int (unat w) < int (2 ^ 31)" by (simp only: of_nat_less_iff)
  then have less: "uint w < 2 ^ 31" by (simp only: uint_nat of_nat_power of_nat_numeral)
  have "0 \<le> uint w" by simp
  moreover have "- (2 ^ 31) \<le> (0 :: int)" by simp
  ultimately have "- (2 ^ 31) \<le> uint w" by (rule order_trans [rotated])
  then have eq: "signed_take_bit 31 (uint w) = uint w" by (rule signed_take_bit_int_eq_self [OF _ less])
  have "LENGTH(32) - Suc 0 = 31" by simp
  then have "sint w = signed_take_bit 31 (uint w)" by (simp only: sint_uint)
  with eq show ?thesis by (simp only: uint_nat)
qed

lemma scast_small:
  assumes "n < 2 ^ 31"
  shows "scast (of_nat n :: s32) = (of_nat n :: u64)" "sint (of_nat n :: s32) = int n"
proof -
  have u: "unat (of_nat n :: s32) = n" using assms by (simp add: unat_of_nat take_bit_nat_eq_self)
  then show "sint (of_nat n :: s32) = int n" using sint_small [of "of_nat n"] assms by simp
  then show "scast (of_nat n :: s32) = (of_nat n :: u64)" by (simp add: scast_eq)
qed

lemma unat_of_nat_u64: "n < 2 ^ 64 \<Longrightarrow> unat (of_nat n :: u64) = n"
  by (simp add: unat_of_nat take_bit_nat_eq_self)

text \<open>The offset that \<open>fpspin_init\<close> passes selects the handler context in the driver.\<close>

lemma init_vma:
  assumes "0 < pages" "pages < 2 ^ 19" "c < 4"
    and "v = \<lparr>vm_start = start, vm_end = start + of_nat (pages * 4096),
      vm_pgoff = (of_nat c * of_nat (pages * 4096)) div PAGE_SIZE, vm_shared = True\<rparr>"
  shows "num_pages_requested v = of_nat pages" "mmap_ctx_id v = of_nat c"
proof -
  have "(of_nat (pages * 4096) :: u64) div PAGE_SIZE = of_nat pages"
    using assms(2) by (simp add: word_unat_eq_iff unat_div PAGE_SIZE_def unat_of_nat_u64 del: of_nat_mult)
  then show n: "num_pages_requested v = of_nat pages"
    using assms(2) by (simp add: num_pages_requested_def assms(4) unsigned_of_nat take_bit_nat_eq_self del: of_nat_mult)
  have cp: "c * pages < 2 ^ 21" using assms(2,3) mult_strict_mono [of c 4 pages "2 ^ 19"] by simp
  have "(of_nat c * of_nat (pages * 4096) :: u64) = of_nat (c * pages * 4096)" by (simp add: mult.assoc)
  then have pg: "vm_pgoff v = of_nat (c * pages)"
    using cp by (simp add: word_unat_eq_iff unat_div PAGE_SIZE_def unat_of_nat_u64 assms(4) del: of_nat_mult)
  have "(of_nat (c * pages) :: u64) div of_nat pages = of_nat c"
    using cp assms by (simp add: word_unat_eq_iff unat_div unat_of_nat_u64 del: of_nat_mult)
  then show "mmap_ctx_id v = of_nat c"
    using scast_small(1) [of pages] assms(2,3)
    by (simp add: mmap_ctx_id_def n pg unsigned_of_nat take_bit_nat_eq_self del: of_nat_mult)
qed

definition mapped_area :: "nat \<Rightarrow> u64 \<Rightarrow> u64 \<Rightarrow> dma_area \<Rightarrow> dma_area" where
  "mapped_area pages cpu handle ar = ar\<lparr>dma_size := of_nat (pages * 4096), cpu_addr := cpu, dma_handle := handle,
     enabled := True, ref_count := ref_count ar + 1\<rparr>"

lemma init_mmap:
  assumes "0 < pages" "pages < 2 ^ 19" "c < 4" "length (dma_areas a) = 4" "\<not> enabled (dma_areas a ! c)"
    and "me_kzalloc_ok env" "me_dma_alloc env = Some (cpu, handle)" "me_iomap_ok env"
  shows "\<exists>buf. pspin_mmap env \<lparr>vm_start = start, vm_end = start + of_nat (pages * 4096),
      vm_pgoff = (of_nat c * of_nat (pages * 4096)) div PAGE_SIZE, vm_shared = True\<rparr> a
    = Some (Inr c, buf, upd_area c (mapped_area pages cpu handle) a)"
proof -
  define v where "v = \<lparr>vm_start = start, vm_end = start + of_nat (pages * 4096),
      vm_pgoff = (of_nat c * of_nat (pages * 4096)) div PAGE_SIZE, vm_shared = True\<rparr>"
  note iv = init_vma [OF assms(1-3) v_def]
  have "(of_nat pages :: s32) \<noteq> 0"
    using assms(1,2) by (simp add: word_unat_eq_iff unat_of_nat take_bit_nat_eq_self)
  moreover have "sint (of_nat c :: s32) = int c" using scast_small(2) [of c] assms(3) by simp
  moreover have "vm_shared v" by (simp add: v_def)
  ultimately have "\<exists>buf. pspin_mmap env v a = Some (Inr c, buf, upd_area c (mapped_area pages cpu handle) a)"
    using assms(2-8) scast_small(1) [of pages]
    by (simp add: iv pspin_mmap_def Let_def HER_NUM_HANDLER_CTX_def mapped_area_def pspin_vma_open_def
        upd_area_def PAGE_SIZE_def)
  then show ?thesis by (simp only: v_def)
qed

lemma prog_post_frame:
  assumes "prog_post rs a a'"
  shows "dma_areas a' = dma_areas a" "pmem a' = pmem a" "in_her_conf a' = in_her_conf a" "in_reset a' = in_reset a"
    "i < 4 \<Longrightarrow> hostdma_addr a' i = hostdma_addr a i" "i < 4 \<Longrightarrow> hostdma_size a' i = hostdma_size a i"
    "her_safe a \<Longrightarrow> her_safe a'"
proof -
  show ar: "dma_areas a' = dma_areas a" and "pmem a' = pmem a" and conf: "in_her_conf a' = in_her_conf a"
    and "in_reset a' = in_reset a"
    using assms by (auto simp: prog_post_def)
  have r: "regs a' off = regs a off" if "0x2114 \<le> unat off" for off
    using assms that by (simp add: prog_post_def)
  have w: "hostdma_addr a' j = hostdma_addr a j" "hostdma_size a' j = hostdma_size a j" if "j < 4" for j
    using r that by (simp_all add: hostdma_addr_def hostdma_size_def reg_read_def host_mem_addr_0_def
        host_mem_addr_1_def host_mem_size_def unat_ctx_reg)
  then show "i < 4 \<Longrightarrow> hostdma_addr a' i = hostdma_addr a i" "i < 4 \<Longrightarrow> hostdma_size a' i = hostdma_size a i"
    by blast+
  show "her_safe a'" if "her_safe a"
    using that w by (auto simp: her_safe_def hostdma_ok_def HER_NUM_HANDLER_CTX_def ar conf)
qed

text \<open>All system calls of \<open>fpspin_init\<close> succeed.\<close>

definition init_env_ok :: "init_env \<Rightarrow> pspin_cdev \<Rightarrow> u64 \<Rightarrow> u64 \<Rightarrow> u64 \<Rightarrow> u64 \<Rightarrow> bool" where
  "init_env_ok env dev start cpu handle p \<longleftrightarrow> ie_open env = Some dev \<and> ie_vm_start env = Some start
     \<and> me_kzalloc_ok (ie_mmap env) \<and> me_dma_alloc (ie_mmap env) = Some (cpu, handle) \<and> me_iomap_ok (ie_mmap env)
     \<and> ie_madvise_ok env \<and> ie_copy_ok env 0 \<and> ie_copy_ok env 1 \<and> ie_nm env = Some (Some p)"

text \<open>The state of an application whose context c is set up.\<close>

definition init_post :: "nat \<Rightarrow> image \<Rightarrow> fpspin_ruleset list \<Rightarrow> nat \<Rightarrow> u64 \<Rightarrow> host \<Rightarrow> bool" where
  "init_post c img rs pages handle h \<longleftrightarrow> (let a = s_app (h_sys h) in
     enabled (dma_areas a ! c) \<and> dma_handle (dma_areas a ! c) = handle \<and> dma_size (dma_areas a ! c) = of_nat (pages * 4096)
     \<and> hostdma_addr a c = handle \<and> hostdma_size a c = of_nat (pages * 4096) \<and> her_safe a
     \<and> image_in_memory img (pmem a) \<and> \<not> in_reset a \<and> \<not> in_her_conf a
     \<and> me_valid a \<and> (\<forall>j < NUM_RULESETS. \<not> store_mode_or a j
         \<and> ruleset_loaded a j (if j < length rs then rs ! j else fpspin_ruleset_bypass)))"

lemma ucast_size: "n < 2 ^ 32 \<Longrightarrow> ucast (ucast (of_nat n :: u64) :: u32) = (of_nat n :: u64)"
  by (simp add: unsigned_of_nat take_bit_nat_eq_self)

lemma init_load_ok:
  assumes "init_env_ok env dev start cpu handle p" "mem_ready dev ((s_app (h_sys h))\<lparr>in_reset := False\<rparr>)"
    and "s_dev (h_sys h) = dev" "c_ctx_id (s_ctx (h_sys h)) = of_nat c" "c < 4" "image_ok img" "length rs \<le> 4"
    and "pages < 2 ^ 19" "dma_areas (s_app (h_sys h)) ! c = ar" "enabled ar" "dma_handle ar = handle"
    "dma_size ar = of_nat (pages * 4096)"
    and "\<forall>i < 4. i \<noteq> c \<longrightarrow> hostdma_ok (s_app (h_sys h)) i" "\<forall>j < 4. regs (s_app (h_sys h)) (me_reg ''mode'' j) = 0"
  shows "\<exists>h'. init_load env img (of_nat c) rs h = Returns True h' \<and> init_post c img rs pages handle h'
    \<and> h_map h' = h_map h \<and> h_fd h' = h_fd h \<and> h_cpu_addr h' = h_cpu_addr h
    \<and> c_host_data_ptr (s_ctx (h_sys h')) = p \<and> c_ctx_id (s_ctx (h_sys h')) = of_nat c
    \<and> c_mmap_len (s_ctx (h_sys h')) = c_mmap_len (s_ctx (h_sys h)) \<and> dma_areas (s_app (h_sys h')) = dma_areas (s_app (h_sys h))
    \<and> c_dma_idx (s_ctx (h_sys h')) = map (\<lambda>i. dma_id (flag_of_data (ie_mem env (h_cpu_addr h + of_nat i * PAGE_SIZE)))) [0..<16]"
proof -
  let ?s = "h_sys h"
  have sz: "ucast (ucast (dma_size ar) :: u32) = dma_size ar"
    using assms(8) by (simp add: assms(12) ucast_size del: of_nat_mult)
  have c: "sint (of_nat c :: s32) = int c" using scast_small(2) [of c] assms(5) by simp
  have q: "pspin_ioctl (ie_copy_ok env) (s_dev ?s) (PSPIN_HOSTDMA_QUERY (of_nat c)) (s_app ?s)
      = Some (Inr (resp_area ar), s_app ?s)"
    using assms(1,2,3,5,9) by (simp add: pspin_ioctl_def init_env_ok_def mem_ready_def c HER_NUM_HANDLER_CTX_def)
  obtain s1 where s1: "fpspin_load img handle (ucast (dma_size ar)) ?s = Running s1"
    "load_post c img handle (ucast (dma_size ar)) ?s s1"
    using load_result [of img ?s c handle "ucast (dma_size ar)"] assms sz c by (auto simp: HER_NUM_HANDLER_CTX_def)
  have "regs (s_app s1) (me_reg ''mode'' j) = 0" if "j < 4" for j
    using s1(2) assms(14) that unat_me_reg(5) [of j] by (simp add: load_post_def)
  then obtain a2 where a2: "fpspin_prog_me rs s1 = Running (s1\<lparr>s_app := a2\<rparr>)" "prog_post rs (s_app s1) a2"
    using prog_me_result [OF assms(7), of s1] by blast
  note fr = prog_post_frame [OF a2(2)]
  have "init_load env img (of_nat c) rs h = init_flags env (h\<lparr>h_sys := s1\<lparr>s_app := a2\<rparr>\<rparr>)"
    using assms(10,11) by (simp add: init_load_def q set_app_def then_io_def s1(1) a2(1))
  also have "\<dots> = Returns True (set_ctx (\<lambda>ctx. ctx\<lparr>c_host_data_ptr := p, c_dma_idx :=
      map (\<lambda>i. dma_id (flag_of_data (ie_mem env (h_cpu_addr h + of_nat i * PAGE_SIZE)))) [0..<16]\<rparr>)
      (h\<lparr>h_sys := s1\<lparr>s_app := a2\<rparr>\<rparr>))"
    using assms(1) by (simp add: init_flags_def init_env_ok_def NUM_HPUS_def)
  finally show ?thesis
    using s1(2) a2(2) fr(1-4) fr(5,6) [OF assms(5)] fr(7) assms(4,5,9-12) sz
    by (simp add: loaded_ctx_def init_post_def load_post_def prog_post_def set_ctx_def NUM_RULESETS_def Let_def)
qed

lemma init_result:
  assumes "init_env_ok env dev start cpu handle p" "mem_ready dev ((s_app (h_sys h))\<lparr>in_reset := False\<rparr>)"
    and "0 < pages" "pages < 2 ^ 19" "c < HER_NUM_HANDLER_CTX" "image_ok img" "length rs \<le> NUM_RULESETS"
    and "length (dma_areas (s_app (h_sys h))) = HER_NUM_HANDLER_CTX" "\<not> enabled (dma_areas (s_app (h_sys h)) ! c)"
    and "\<forall>i < HER_NUM_HANDLER_CTX. i \<noteq> c \<longrightarrow> hostdma_ok (s_app (h_sys h)) i"
    and "\<forall>j < NUM_RULESETS. regs (s_app (h_sys h)) (me_reg ''mode'' j) = 0"
  shows "\<exists>h'. fpspin_init env img (of_nat c) rs (of_nat pages) h = Returns True h' \<and> init_post c img rs pages handle h'
    \<and> h_fd h' \<and> h_map h' = Some (start, of_nat (pages * 4096), c) \<and> h_cpu_addr h' = start
    \<and> c_ctx_id (s_ctx (h_sys h')) = of_nat c \<and> c_mmap_len (s_ctx (h_sys h')) = of_nat (pages * 4096)
    \<and> dma_areas (s_app (h_sys h')) = (dma_areas (s_app (h_sys h)))[c := mapped_area pages cpu handle (dma_areas (s_app (h_sys h)) ! c)]
    \<and> c_dma_idx (s_ctx (h_sys h')) = map (\<lambda>i. dma_id (flag_of_data (ie_mem env (start + of_nat i * PAGE_SIZE)))) [0..<NUM_HPUS]"
proof -
  have c: "c < 4" using assms(5) by (simp add: HER_NUM_HANDLER_CTX_def)
  let ?a = "upd_area c (mapped_area pages cpu handle) (s_app (h_sys h))"
  define h0 where "h0 = set_ctx (\<lambda>ctx. ctx\<lparr>c_mmap_len := of_nat (pages * 4096)\<rparr>) (set_ctx (\<lambda>ctx. ctx\<lparr>c_ctx_id := of_nat c\<rparr>)
      (h\<lparr>h_fd := True, h_sys := (h_sys h)\<lparr>s_dev := dev, s_pos := 0\<rparr>\<rparr>))"
  define h1 where "h1 = (set_app ?a h0)\<lparr>h_cpu_addr := start, h_map := Some (start, of_nat (pages * 4096), c)\<rparr>"
  have h1: "s_dev (h_sys h1) = dev" "c_ctx_id (s_ctx (h_sys h1)) = of_nat c" "s_app (h_sys h1) = ?a" "h_fd h1"
    "h_cpu_addr h1 = start" "h_map h1 = Some (start, of_nat (pages * 4096), c)"
    "c_mmap_len (s_ctx (h_sys h1)) = of_nat (pages * 4096)"
    by (simp_all add: h1_def h0_def set_app_def set_ctx_def)
  have len: "scast (of_nat pages * 4096 :: s32) = (of_nat (pages * 4096) :: u64)"
    using scast_small(1) [of "pages * 4096"] assms(4) by simp
  have ctx: "scast (of_nat c :: s32) = (of_nat c :: u64)" using scast_small(1) [of c] c by simp
  have nz: "(of_nat pages :: s32) \<noteq> 0" "(of_nat (pages * 4096) :: u64) \<noteq> 0"
    using assms(3,4) by (simp_all add: word_unat_eq_iff unat_of_nat take_bit_nat_eq_self del: of_nat_mult)
  have app0: "s_app (h_sys h0) = s_app (h_sys h)" by (simp add: h0_def set_ctx_def)
  have "host_mmap env (of_nat (pages * 4096)) (of_nat c * of_nat (pages * 4096)) h0 = Some (True, h1)"
    using init_mmap [OF assms(3,4) c, of "s_app (h_sys h)" "ie_mmap env" cpu handle start] assms(1,8,9) nz(2)
    by (auto simp: host_mmap_def init_env_ok_def HER_NUM_HANDLER_CTX_def app0 h1_def simp del: of_nat_mult)
  then have run: "fpspin_init env img (of_nat c) rs (of_nat pages) h = init_load env img (of_nat c) rs h1"
    using assms(1) nz(1) by (simp add: fpspin_init_def init_env_ok_def Let_def len ctx h0_def [symmetric] del: of_nat_mult)
  have ar: "dma_areas (s_app (h_sys h1)) ! c = mapped_area pages cpu handle (dma_areas (s_app (h_sys h)) ! c)"
    using assms(8) c by (simp add: h1 HER_NUM_HANDLER_CTX_def)
  have mr: "mem_ready dev ((s_app (h_sys h1))\<lparr>in_reset := False\<rparr>)" using assms(2) by (simp add: h1 mem_ready_def)
  have win: "\<forall>i < 4. i \<noteq> c \<longrightarrow> hostdma_ok (s_app (h_sys h1)) i"
    using assms(10) by (simp add: h1 HER_NUM_HANDLER_CTX_def hostdma_ok_def hostdma_addr_def hostdma_size_def reg_read_def)
  have rs: "length rs \<le> 4" "\<forall>j < 4. regs (s_app (h_sys h1)) (me_reg ''mode'' j) = 0"
    using assms(7,11) by (simp_all add: h1 NUM_RULESETS_def)
  have area: "enabled (mapped_area pages cpu handle x)" "dma_handle (mapped_area pages cpu handle x) = handle"
    "dma_size (mapped_area pages cpu handle x) = of_nat (pages * 4096)" for x by (simp_all add: mapped_area_def)
  from init_load_ok [OF assms(1) mr h1(1,2) c assms(6) rs(1) assms(4) ar area win rs(2)]
  show ?thesis unfolding run h1(3,5-7) NUM_HPUS_def upd_area_simps using h1(4) by blast
qed

text \<open>
  Property C18. Starting an application: if the system calls succeed, the handler context is free and the
  image fits, \<open>fpspin_init\<close> returns true from every state of the device. The pages are mapped for that
  very context, the HER generator's host memory window is exactly the DMA buffer the driver allocated,
  the handlers are in NIC memory and running, and the matching engine holds the given rulesets.
\<close>

theorem init_correct:
  assumes "init_env_ok env dev start cpu handle p" "mem_ready dev ((s_app (h_sys h))\<lparr>in_reset := False\<rparr>)"
    and "0 < pages" "pages < 2 ^ 19" "c < HER_NUM_HANDLER_CTX" "image_ok img" "length rs \<le> NUM_RULESETS"
    and "length (dma_areas (s_app (h_sys h))) = HER_NUM_HANDLER_CTX" "\<not> enabled (dma_areas (s_app (h_sys h)) ! c)"
    and "\<forall>i < HER_NUM_HANDLER_CTX. i \<noteq> c \<longrightarrow> hostdma_ok (s_app (h_sys h)) i"
    and "\<forall>j < NUM_RULESETS. regs (s_app (h_sys h)) (me_reg ''mode'' j) = 0"
  shows "\<exists>h'. fpspin_init env img (of_nat c) rs (of_nat pages) h = Returns True h' \<and> init_post c img rs pages handle h'
    \<and> h_fd h' \<and> h_map h' = Some (start, of_nat (pages * 4096), c) \<and> h_cpu_addr h' = start
    \<and> c_dma_idx (s_ctx (h_sys h')) = map (\<lambda>i. dma_id (flag_of_data (ie_mem env (start + of_nat i * PAGE_SIZE)))) [0..<NUM_HPUS]"
  using init_result [OF assms] by blast

definition example_host :: host where
  "example_host = \<lparr>h_sys = example_sys, h_fd = False, h_cpu_addr = 0, h_map = None\<rparr>"

definition example_init_env :: init_env where
  "example_init_env = \<lparr>ie_open = Some example_dev, ie_vm_start = Some 0x7f0000000000,
     ie_mmap = \<lparr>me_kzalloc_ok = True, me_dma_alloc = Some (0x100000, 0x20000000), me_iomap_ok = True\<rparr>,
     ie_madvise_ok = True, ie_copy_ok = (\<lambda>_. True), ie_nm = Some (Some 0x1c000000), ie_mem = (\<lambda>_. 0)\<rparr>"

lemma example_start:
  "init_env_ok example_init_env example_dev 0x7f0000000000 0x100000 0x20000000 0x1c000000"
  "mem_ready example_dev ((s_app (h_sys example_host))\<lparr>in_reset := False\<rparr>)"
  "0 < (16 :: nat)" "(16 :: nat) < 2 ^ 19" "2 < HER_NUM_HANDLER_CTX" "image_ok example_image"
  "length [fpspin_ruleset_slmp] \<le> NUM_RULESETS" "length (dma_areas (s_app (h_sys example_host))) = HER_NUM_HANDLER_CTX"
  "\<not> enabled (dma_areas (s_app (h_sys example_host)) ! 2)"
  "\<forall>i < HER_NUM_HANDLER_CTX. i \<noteq> 2 \<longrightarrow> hostdma_ok (s_app (h_sys example_host)) i"
  "\<forall>j < NUM_RULESETS. regs (s_app (h_sys example_host)) (me_reg ''mode'' j) = 0"
  using example_modes
  by (simp_all add: init_env_ok_def example_init_env_def mem_ready_def example_host_def example_dev_def image_ok_def
      example_image_def HER_NUM_HANDLER_CTX_def NUM_RULESETS_def hostdma_ok_def)
    (simp_all add: example_sys_def example_app_def)

theorem init_correct_witness:
  "\<exists>h'. fpspin_init example_init_env example_image (of_nat 2) [fpspin_ruleset_slmp] (of_nat 16) example_host = Returns True h'
     \<and> hostdma_addr (s_app (h_sys h')) 2 = 0x20000000 \<and> h_map h' = Some (0x7f0000000000, 65536, 2)"
  using init_correct [OF example_start] by (auto simp: init_post_def Let_def)

lemma unload_ok:
  assumes "c_ctx_id (s_ctx s) = of_nat c" "c < 4"
  shows "fpspin_unload s = Running (s\<lparr>s_app := reg_write 1 0x2000 ((put_ruleset c fpspin_ruleset_bypass (reg_write 0 0x2000
    ((put_regs [(0, 0), (4, 1), (4, 0)] ((s_app s)\<lparr>in_reset := False\<rparr>))\<lparr>in_me_conf := True\<rparr>)))\<lparr>in_me_conf := False\<rparr>)\<rparr>)"
proof -
  have c: "sint (c_ctx_id (s_ctx s)) = int c" using scast_small(2) [of c] assms by simp
  define s1 where "s1 = s\<lparr>s_app := put_regs [(0, 0), (4, 1), (4, 0)] ((s_app s)\<lparr>in_reset := False\<rparr>)\<rparr>"
  have "in_me_conf (reg_write v off a) = in_me_conf a" for v off a by (simp add: reg_write_def)
  then have "seq_io [me_off, fpspin_set_me_ruleset (int c) fpspin_ruleset_bypass, me_on] s1
      = Running (s1\<lparr>s_app := reg_write 1 0x2000 ((put_ruleset c fpspin_ruleset_bypass
          (reg_write 0 0x2000 ((s_app s1)\<lparr>in_me_conf := True\<rparr>)))\<lparr>in_me_conf := False\<rparr>)\<rparr>)"
    using assms(2) by (simp add: then_io_def me_enable_write set_me_ruleset_ok)
  moreover have "seq_io [fetch_off, cycle_reset] s = Running s1"
    by (simp add: then_io_def cl_writes s1_def) (simp add: put_regs_def reg_write_def)
  moreover have "fpspin_unload s = seq_io ([fetch_off, cycle_reset]
      @ [me_off, fpspin_set_me_ruleset (int c) fpspin_ruleset_bypass, me_on]) s"
    by (simp only: fpspin_unload_def append_Cons append_Nil c)
  ultimately show ?thesis by (simp only: seq_io_append then_io_def outcome.case) (simp add: s1_def)
qed

text \<open>The device after \<open>fpspin_unload\<close>: the ruleset of the context matches nothing.\<close>

lemma unload_result:
  assumes "c_ctx_id (s_ctx s) = of_nat c" "c < 4" "\<not> store_mode_or (s_app s) c" "me_valid (s_app s)"
  shows "\<exists>a. fpspin_unload s = Running (s\<lparr>s_app := a\<rparr>) \<and> (\<forall>pkt. \<not> ruleset_matched a pkt c) \<and> regs a 0 = 0
    \<and> dma_areas a = dma_areas (s_app s) \<and> in_her_conf a = in_her_conf (s_app s)
    \<and> (\<forall>off. 0x2114 \<le> unat off \<longrightarrow> regs a off = regs (s_app s) off)"
proof -
  let ?b = "reg_write 0 0x2000 ((put_regs [(0, 0), (4, 1), (4, 0)] ((s_app s)\<lparr>in_reset := False\<rparr>))\<lparr>in_me_conf := True\<rparr>)"
  let ?p = "put_ruleset c fpspin_ruleset_bypass ?b"
  let ?a = "reg_write 1 0x2000 (?p\<lparr>in_me_conf := False\<rparr>)"
  obtain r where r: "?p = ?b\<lparr>regs := r\<rparr>" using put_ruleset_app by blast
  have v: "me_valid ?a" by (simp add: me_valid_def reg_write_def)
  have fr: "regs ?a off = regs ?b off" if "unat off < 0x2000 \<or> 0x2000 < unat off \<and> unat off < 0x2014 \<or> 0x2114 \<le> unat off" for off
    using that put_ruleset_frame [OF assms(2), of off fpspin_ruleset_bypass ?b] by (auto simp: reg_write_def)
  have b: "regs ?b off = regs (s_app s) off" if "0x2000 < unat off" for off
    using that by (auto simp: reg_write_def regs_put_regs word_unat_eq_iff)
  have "regs ?a (me_reg ''mode'' c) = regs (s_app s) (me_reg ''mode'' c)"
    using fr [of "me_reg ''mode'' c"] b [of "me_reg ''mode'' c"] assms(2) unat_me_reg(5) [of c] by simp
  then have mode: "\<not> store_mode_or ?a c" using assms(3,4) v by (simp add: store_mode_or_def)
  have "me_unit ?a m = me_unit ?p m" if "m < 16" for m
    using that by (auto simp: me_unit_def reg_write_def word_unat_eq_iff unat_me_reg)
  then have "store_unit ?a (c * 4 + i) = rule_unit (rs_r fpspin_ruleset_bypass ! i)" if "i < 4" for i
    using that assms(2) v put_ruleset_unit [OF assms(2), of "c * 4 + i" fpspin_ruleset_bypass ?b]
    by (simp add: store_unit_def me_unit_def)
  then have "ruleset_loaded ?a c fpspin_ruleset_bypass" by (simp add: ruleset_loaded_def NUM_RULES_PER_RULESET_def)
  from bypass_ruleset_matches [OF this mode] have "\<forall>pkt. \<not> ruleset_matched ?a pkt c" by blast
  moreover have "regs ?a 0 = 0" using fr [of 0] by (simp add: reg_write_def regs_put_regs)
  moreover have "dma_areas ?a = dma_areas (s_app s)" "in_her_conf ?a = in_her_conf (s_app s)"
    unfolding r by (simp_all add: reg_write_def)
  moreover have "regs ?a off = regs (s_app s) off" if "0x2114 \<le> unat off" for off using fr [of off] b [of off] that by simp
  ultimately show ?thesis using unload_ok [OF assms(1,2)] by blast
qed

lemma ruleset_matched_regs: "regs a = regs b \<Longrightarrow> ruleset_matched a = ruleset_matched b"
proof -
  assume r: "regs a = regs b"
  then have "mu_matched a = mu_matched b" "store_mode_or a = store_mode_or b"
    by (simp_all add: mu_matched_def store_unit_def store_mode_or_def me_valid_def fun_eq_iff)
  then show ?thesis by (intro ext) (simp add: ruleset_matched_def)
qed

lemma match_packet_ruleset: "match_packet a pkt = Some t \<Longrightarrow> ruleset_matched a pkt (tag_ruleset t)"
  by (auto simp: match_packet_first split: if_splits)

text \<open>
  Property C19. Ending an application that was initialised and whose buffer is mapped once: \<open>fpspin_exit\<close>
  returns, the cluster no longer fetches, no packet at all is matched to the context any more, the
  mapping is gone and the driver has freed the DMA buffer.
\<close>

theorem exit_detaches:
  assumes "init_post c img rs pages handle h" "c < HER_NUM_HANDLER_CTX" "c_ctx_id (s_ctx (h_sys h)) = of_nat c"
    and "h_map h = Some (h_cpu_addr h, c_mmap_len (s_ctx (h_sys h)), c)"
    and "length (dma_areas (s_app (h_sys h))) = HER_NUM_HANDLER_CTX" "ref_count (dma_areas (s_app (h_sys h)) ! c) = 1"
  shows "\<exists>h'. fpspin_exit h = Returns True h' \<and> \<not> h_fd h' \<and> h_map h' = None
    \<and> \<not> enabled (dma_areas (s_app (h_sys h')) ! c) \<and> regs (s_app (h_sys h')) 0 = 0
    \<and> (\<forall>pkt t. match_packet (s_app (h_sys h')) pkt = Some t \<longrightarrow> tag_ruleset t \<noteq> c)"
proof -
  have c: "c < 4" using assms(2) by (simp add: HER_NUM_HANDLER_CTX_def)
  have m: "\<not> store_mode_or (s_app (h_sys h)) c" "me_valid (s_app (h_sys h))"
    using assms(1) c by (simp_all add: init_post_def Let_def NUM_RULESETS_def)
  from unload_result [OF assms(3) c m] obtain a where a: "fpspin_unload (h_sys h) = Running ((h_sys h)\<lparr>s_app := a\<rparr>)"
    "\<forall>pkt. \<not> ruleset_matched a pkt c" "regs a 0 = 0" "dma_areas a = dma_areas (s_app (h_sys h))" by blast
  let ?a = "snd (pspin_vma_close c a)"
  let ?h = "(set_app ?a (h\<lparr>h_sys := (h_sys h)\<lparr>s_app := a\<rparr>, h_fd := False\<rparr>))\<lparr>h_map := None\<rparr>"
  have "fpspin_exit h = Returns True ?h"
    using assms(4) by (simp add: fpspin_exit_def a(1) host_munmap_def set_app_def)
  moreover have "regs ?a = regs a" by (simp add: pspin_vma_close_def Let_def)
  then have "\<not> ruleset_matched ?a pkt c" "regs ?a 0 = 0" for pkt
    using a(2,3) ruleset_matched_regs [of ?a a] by simp_all
  then have "\<forall>pkt t. match_packet ?a pkt = Some t \<longrightarrow> tag_ruleset t \<noteq> c" "regs ?a 0 = 0"
    using match_packet_ruleset by blast+
  moreover have "\<not> enabled (dma_areas ?a ! c)"
    using assms(5,6) c by (simp add: pspin_vma_close_def Let_def a(4) HER_NUM_HANDLER_CTX_def)
  ultimately show ?thesis by (intro exI [of _ ?h]) (simp add: set_app_def)
qed

definition example_started :: host where
  "example_started =
     (case fpspin_init example_init_env example_image (of_nat 2) [fpspin_ruleset_slmp] (of_nat 16) example_host of
        Returns b h \<Rightarrow> h | _ \<Rightarrow> example_host)"

theorem exit_detaches_witness:
  "\<exists>h'. fpspin_exit example_started = Returns True h' \<and> h_map h' = None
     \<and> match_packet (s_app (h_sys h')) example_slmp_pkt \<noteq> Some \<lparr>tag_msg_id = 1, tag_eom = False, tag_ruleset = 2\<rparr>"
proof -
  from init_result [OF example_start] obtain h' where
    h: "fpspin_init example_init_env example_image (of_nat 2) [fpspin_ruleset_slmp] (of_nat 16) example_host = Returns True h'"
    and s: "init_post 2 example_image [fpspin_ruleset_slmp] 16 0x20000000 h'" "c_ctx_id (s_ctx (h_sys h')) = of_nat 2"
      "h_map h' = Some (h_cpu_addr h', c_mmap_len (s_ctx (h_sys h')), 2)"
    and d: "dma_areas (s_app (h_sys h')) = (dma_areas (s_app (h_sys example_host)))
        [2 := mapped_area 16 0x100000 0x20000000 (dma_areas (s_app (h_sys example_host)) ! 2)]" by auto
  have e: "example_started = h'" by (simp only: example_started_def h init_result.case)
  have "length (dma_areas (s_app (h_sys h'))) = HER_NUM_HANDLER_CTX" "ref_count (dma_areas (s_app (h_sys h')) ! 2) = 1"
    unfolding d by (simp_all add: example_start(8)) (simp add: example_host_def example_sys_def example_app_def mapped_area_def)
  from exit_detaches [OF s(1) example_start(5) s(2,3) this] show ?thesis unfolding e by fastforce
qed

end
