(* ===== verification/Nic_Sync.thy ===== *)
theory Nic_Sync
  imports Pspin_Cdev
begin

text \<open>
  Synchronisation in the NIC runtime (\<open>pspin.h\<close>, \<open>handler.h\<close>): the atomic memory operations, compare and
  swap by load-reserved and store-conditional, the spin lock, the reader-writer lock and the
  performance counters. HPUs run concurrently; each atomic instruction is one step, and the locks are
  transition systems over any number of HPUs.
\<close>

unbundle bit_operations_syntax

section \<open>Atomic operations\<close>

definition amo :: "(u32 \<Rightarrow> u32 \<Rightarrow> u32) \<Rightarrow> nat \<Rightarrow> u32 \<Rightarrow> app \<Rightarrow> u32 \<times> app" where
  "amo f addr val a = (let old = ioread32 a addr in (old, iowrite32 (f old val) addr a))"

definition amo_swap :: "nat \<Rightarrow> u32 \<Rightarrow> app \<Rightarrow> u32 \<times> app" where "amo_swap = amo (\<lambda>old val. val)"
definition amo_store :: "nat \<Rightarrow> u32 \<Rightarrow> app \<Rightarrow> app" where "amo_store addr val a = snd (amo (\<lambda>old val. val) addr val a)"
definition amo_add :: "nat \<Rightarrow> u32 \<Rightarrow> app \<Rightarrow> u32 \<times> app" where "amo_add = amo (+)"
definition amo_and :: "nat \<Rightarrow> u32 \<Rightarrow> app \<Rightarrow> u32 \<times> app" where "amo_and = amo (\<lambda>x y. x AND y)"
definition amo_or :: "nat \<Rightarrow> u32 \<Rightarrow> app \<Rightarrow> u32 \<times> app" where "amo_or = amo (\<lambda>x y. x OR y)"
definition amo_xor :: "nat \<Rightarrow> u32 \<Rightarrow> app \<Rightarrow> u32 \<times> app" where "amo_xor = amo (\<lambda>x y. x XOR y)"
definition amo_maxu :: "nat \<Rightarrow> u32 \<Rightarrow> app \<Rightarrow> u32 \<times> app" where "amo_maxu = amo max"
definition amo_minu :: "nat \<Rightarrow> u32 \<Rightarrow> app \<Rightarrow> u32 \<times> app" where "amo_minu = amo min"
definition amo_max :: "nat \<Rightarrow> u32 \<Rightarrow> app \<Rightarrow> u32 \<times> app" where
  "amo_max = amo (\<lambda>x y. if sint x < sint y then y else x)"
definition amo_min :: "nat \<Rightarrow> u32 \<Rightarrow> app \<Rightarrow> u32 \<times> app" where
  "amo_min = amo (\<lambda>x y. if sint y < sint x then y else x)"

lemma ioread32_iowrite32 [simp]: "ioread32 (iowrite32 v p a) p = v"
proof -
  have "bytes32 (ioread32 (iowrite32 v p a) p) = bytes32 v"
    unfolding nic_port.rd_view
    by (rule nth_equalityI) (auto simp: get_bytes_def iowrite32_def put_bytes_apply)
  then show ?thesis by (rule bytes32_inject)
qed

lemma ioread32_iowrite32_other:
  assumes "p + 4 \<le> q \<or> q + 4 \<le> p"
  shows "ioread32 (iowrite32 v p a) q = ioread32 a q"
proof -
  have "bytes32 (ioread32 (iowrite32 v p a) q) = bytes32 (ioread32 a q)"
    unfolding nic_port.rd_view
    by (rule get_bytes_cong) (use assms in \<open>auto simp: iowrite32_def put_bytes_apply\<close>)
  then show ?thesis by (rule bytes32_inject)
qed

lemma amo_result: "fst (amo f p v a) = ioread32 a p" "ioread32 (snd (amo f p v a)) p = f (ioread32 a p) v"
  by (simp_all add: amo_def Let_def)

lemma amo_other: "p + 4 \<le> q \<or> q + 4 \<le> p \<Longrightarrow> ioread32 (snd (amo f p v a)) q = ioread32 a q"
  by (simp add: amo_def Let_def ioread32_iowrite32_other)

section \<open>Compare and swap\<close>

text \<open>
  One word, the HPUs that hold a reservation on it, and the calls of \<open>compare_and_swap\<close> that are
  between the two instructions, with their arguments. Any store to the word breaks all reservations.
\<close>

record cas_state =
  cas_mem :: u32
  cas_reserved :: "nat \<Rightarrow> bool"
  cas_call :: "nat \<Rightarrow> (u32 \<times> u32) option"

definition load_reserved :: "nat \<Rightarrow> cas_state \<Rightarrow> u32 \<times> cas_state" where
  "load_reserved h s = (cas_mem s, s\<lparr>cas_reserved := (cas_reserved s)(h := True)\<rparr>)"

definition store_conditional :: "nat \<Rightarrow> u32 \<Rightarrow> cas_state \<Rightarrow> u32 \<times> cas_state" where
  "store_conditional h val s =
     (if cas_reserved s h then (0, s\<lparr>cas_mem := val, cas_reserved := \<lambda>_. False\<rparr>) else (1, s))"

datatype cas_event = CasStart nat u32 u32 | CasFinish nat | CasStore u32

fun cas_exec :: "cas_event \<Rightarrow> cas_state \<Rightarrow> cas_state option" where
  "cas_exec (CasStart h old new) s =
     (if cas_call s h \<noteq> None then None
      else (let (tmp, s) = load_reserved h s
            in if tmp = old then Some (s\<lparr>cas_call := (cas_call s)(h := Some (old, new))\<rparr>) else Some s))"
| "cas_exec (CasFinish h) s =
     (case cas_call s h of
        None \<Rightarrow> None
      | Some (old, new) \<Rightarrow> Some ((snd (store_conditional h new s))\<lparr>cas_call := (cas_call s)(h := None)\<rparr>))"
| "cas_exec (CasStore v) s = Some (s\<lparr>cas_mem := v, cas_reserved := \<lambda>_. False\<rparr>)"

definition cas_inv :: "cas_state \<Rightarrow> bool" where
  "cas_inv s \<longleftrightarrow> (\<forall>h old new. cas_call s h = Some (old, new) \<longrightarrow> cas_reserved s h \<longrightarrow> cas_mem s = old)"

interpretation cas_sys: invariant_system cas_exec "\<lambda>_ _. True" cas_inv
proof
  show "cas_inv t" if "cas_inv s" "True" "cas_exec l s = Some t" for s l t
    using that
    by (cases l) (fastforce simp: cas_inv_def load_reserved_def store_conditional_def split: if_splits option.splits)+
qed

text \<open>
  Property C26. Compare and swap is atomic although it is two instructions: in every state that
  HPUs swapping and storing at will can reach, a store-conditional that succeeds finds the expected old
  value still in memory and replaces it by the new one; if it fails, memory does not change.
\<close>

theorem compare_and_swap_atomic:
  assumes "reach cas_exec (\<lambda>_ _. True) \<lparr>cas_mem = v, cas_reserved = \<lambda>_. False, cas_call = \<lambda>_. None\<rparr> s"
    and "cas_call s h = Some (old, new)" "store_conditional h new s = (r, s')"
  shows "(r = 0 \<longrightarrow> cas_mem s = old \<and> cas_mem s' = new) \<and> (r \<noteq> 0 \<longrightarrow> cas_mem s' = cas_mem s)"
proof -
  have "cas_inv s" by (rule cas_sys.reach_inv [OF assms(1)]) (simp add: cas_inv_def)
  with assms(2,3) show ?thesis by (auto simp: cas_inv_def store_conditional_def split: if_splits)
qed

definition example_cas :: "cas_event list \<Rightarrow> cas_state" where
  "example_cas es =
     the (run cas_exec (\<lambda>_ _. True) es \<lparr>cas_mem = 5, cas_reserved = \<lambda>_. False, cas_call = \<lambda>_. None\<rparr>)"

theorem compare_and_swap_atomic_witness:
  "store_conditional 0 9 (example_cas [CasStart 0 5 9, CasStart 1 5 8]) = (0, example_cas [CasStart 0 5 9, CasStart 1 5 8]
      \<lparr>cas_mem := 9, cas_reserved := \<lambda>_. False\<rparr>)
   \<and> cas_mem (example_cas [CasStart 0 5 9, CasStart 1 5 8]) = 5"
proof -
  let ?s = "example_cas [CasStart 0 5 9, CasStart 1 5 8]"
  have run: "\<not> Option.is_none (run cas_exec (\<lambda>_ _. True) [CasStart 0 5 9, CasStart 1 5 8]
      \<lparr>cas_mem = 5, cas_reserved = \<lambda>_. False, cas_call = \<lambda>_. None\<rparr>)" by (simp add: load_reserved_def)
  have c: "cas_call ?s 0 = Some (5, 9)" "cas_reserved ?s 0" by (simp_all add: example_cas_def load_reserved_def)
  have sc: "store_conditional 0 9 ?s = (0, ?s\<lparr>cas_mem := 9, cas_reserved := \<lambda>_. False\<rparr>)"
    using c(2) by (simp add: store_conditional_def)
  from run_reach_the [OF run] have "reach cas_exec (\<lambda>_ _. True) \<lparr>cas_mem = 5, cas_reserved = \<lambda>_. False, cas_call = \<lambda>_. None\<rparr> ?s"
    by (simp only: example_cas_def)
  from compare_and_swap_atomic [OF this c(1) sc] sc show ?thesis by simp
qed

section \<open>Spin lock\<close>

definition futex_init :: "nat \<Rightarrow> app \<Rightarrow> app" where "futex_init p a = amo_store p 0 a"

definition futex_try_lock :: "nat \<Rightarrow> app \<Rightarrow> bool \<times> app" where
  "futex_try_lock p a = (let (old, a) = amo_or p 1 a in (old = 0, a))"

definition futex_unlock :: "nat \<Rightarrow> app \<Rightarrow> app" where "futex_unlock p a = futex_init p a"

text \<open>
  HPUs at one lock: an attempt is a call of \<open>futex_try_lock\<close> or one iteration of the loops of
  \<open>futex_lock\<close> and \<open>futex_lock_s\<close>; a holder releases the lock.
\<close>

record lock_state =
  lk_app :: app
  lk_holders :: "nat list"

datatype lock_event = LockTry nat | LockRelease nat

fun lock_exec :: "nat \<Rightarrow> lock_event \<Rightarrow> lock_state \<Rightarrow> lock_state option" where
  "lock_exec p (LockTry h) s =
     (if h \<in> set (lk_holders s) then None
      else (let (ok, a) = futex_try_lock p (lk_app s)
            in Some (s\<lparr>lk_app := a, lk_holders := (if ok then h # lk_holders s else lk_holders s)\<rparr>)))"
| "lock_exec p (LockRelease h) s =
     (if h \<in> set (lk_holders s)
      then Some (s\<lparr>lk_app := futex_unlock p (lk_app s), lk_holders := removeAll h (lk_holders s)\<rparr>) else None)"

definition lock_inv :: "nat \<Rightarrow> lock_state \<Rightarrow> bool" where
  "lock_inv p s \<longleftrightarrow> lk_holders s = [] \<and> ioread32 (lk_app s) p = 0
     \<or> (\<exists>h. lk_holders s = [h]) \<and> ioread32 (lk_app s) p = 1"

lemma futex_simps:
  "fst (futex_try_lock p a) \<longleftrightarrow> ioread32 a p = 0" "ioread32 (snd (futex_try_lock p a)) p = ioread32 a p OR 1"
  "ioread32 (futex_unlock p a) p = 0"
  by (simp_all add: futex_try_lock_def futex_unlock_def futex_init_def amo_or_def amo_store_def amo_result split_beta Let_def)

interpretation lock_sys: invariant_system "lock_exec p" "\<lambda>_ _. True" "lock_inv p" for p
proof
  show "lock_inv p t" if "lock_inv p s" "True" "lock_exec p l s = Some t" for s l t
    using that
    by (cases l) (auto simp: lock_inv_def futex_simps split_beta Let_def split: if_splits)
qed

text \<open>
  Property C27. The spin lock: from a lock that is initialised, in every state that any number of
  HPUs can reach, at most one HPU holds the lock, and an attempt succeeds exactly if nobody holds
  it; in particular a release lets the next attempt in.
\<close>

theorem spin_lock_exclusive:
  assumes "reach (lock_exec p) (\<lambda>_ _. True) \<lparr>lk_app = futex_init p a, lk_holders = []\<rparr> s"
  shows "length (lk_holders s) \<le> 1 \<and> (fst (futex_try_lock p (lk_app s)) \<longleftrightarrow> lk_holders s = [])"
proof -
  have "lock_inv p \<lparr>lk_app = futex_init p a, lk_holders = []\<rparr>"
    by (simp add: lock_inv_def futex_init_def amo_store_def amo_result)
  from lock_sys.reach_inv [OF assms this] show ?thesis by (auto simp: lock_inv_def futex_simps)
qed

definition example_lock :: lock_state where
  "example_lock = \<lparr>lk_app = futex_init 8 example_app, lk_holders = []\<rparr>"

theorem spin_lock_exclusive_witness:
  "lk_holders (the (run (lock_exec 8) (\<lambda>_ _. True) [LockTry 1, LockTry 2] example_lock)) = [1]
   \<and> \<not> fst (futex_try_lock 8 (lk_app (the (run (lock_exec 8) (\<lambda>_ _. True) [LockTry 1, LockTry 2] example_lock))))"
proof -
  let ?r = "run (lock_exec 8) (\<lambda>_ _. True) [LockTry 1, LockTry 2] example_lock"
  have i: "\<not> Option.is_none ?r" "lk_holders (the ?r) = [1]"
    by (simp_all add: example_lock_def futex_simps split_beta Let_def futex_init_def amo_store_def amo_result)
  from run_reach_the [OF i(1)] have "reach (lock_exec 8) (\<lambda>_ _. True) \<lparr>lk_app = futex_init 8 example_app, lk_holders = []\<rparr> (the ?r)"
    by (simp only: example_lock_def)
  from spin_lock_exclusive [OF this] i(2) show ?thesis by simp
qed

section \<open>Reader-writer lock\<close>

text \<open>
  A lock word at p and the number of readers at q. The states of an HPU follow the steps of the four
  functions: a first reader that still has to take the lock, a reader inside, a last reader that still
  has to release the lock, a waiting and an active writer.
\<close>

datatype rw_pc = RwOut | RwFirst | RwReading | RwLast | RwWaiting | RwWriting

record rw_state =
  rw_app :: app
  rw_pcs :: "rw_pc list"

datatype rw_event = ReadEnter nat | ReadTry nat | ReadLeave nat | ReadRelease nat | WriteEnter nat | WriteTry nat | WriteLeave nat

definition rw_move :: "nat \<Rightarrow> rw_pc \<Rightarrow> rw_pc \<Rightarrow> app \<Rightarrow> rw_state \<Rightarrow> rw_state option" where
  "rw_move h old new a s =
     (if h < length (rw_pcs s) \<and> rw_pcs s ! h = old then Some \<lparr>rw_app = a, rw_pcs = (rw_pcs s)[h := new]\<rparr> else None)"

fun rw_exec :: "nat \<Rightarrow> nat \<Rightarrow> rw_event \<Rightarrow> rw_state \<Rightarrow> rw_state option" where
  "rw_exec p q (ReadEnter h) s =
     (let (old, a) = amo_add q 1 (rw_app s); num_readers = old + 1
      in rw_move h RwOut (if num_readers = 1 then RwFirst else RwReading) a s)"
| "rw_exec p q (ReadTry h) s =
     (let (ok, a) = futex_try_lock p (rw_app s) in rw_move h RwFirst (if ok then RwReading else RwFirst) a s)"
| "rw_exec p q (ReadLeave h) s =
     (let (old, a) = amo_add q (- 1) (rw_app s); num_readers = old - 1
      in rw_move h RwReading (if num_readers = 0 then RwLast else RwOut) a s)"
| "rw_exec p q (ReadRelease h) s = rw_move h RwLast RwOut (futex_unlock p (rw_app s)) s"
| "rw_exec p q (WriteEnter h) s = rw_move h RwOut RwWaiting (rw_app s) s"
| "rw_exec p q (WriteTry h) s =
     (let (ok, a) = futex_try_lock p (rw_app s) in rw_move h RwWaiting (if ok then RwWriting else RwWaiting) a s)"
| "rw_exec p q (WriteLeave h) s = rw_move h RwWriting RwOut (futex_unlock p (rw_app s)) s"

definition rw_count :: "rw_state \<Rightarrow> rw_pc \<Rightarrow> nat" where
  "rw_count s c = count_list (rw_pcs s) c"

text \<open>
  Who owns the lock word: a writer, a last reader on its way out, or the readers as a group. The
  group owns it only when no first reader is still waiting for it.
\<close>

definition rw_owners :: "rw_state \<Rightarrow> nat" where
  "rw_owners s = rw_count s RwWriting + rw_count s RwLast
     + (if rw_count s RwFirst = 0 \<and> 0 < rw_count s RwReading then 1 else 0)"

definition rw_inv :: "nat \<Rightarrow> nat \<Rightarrow> nat \<Rightarrow> rw_state \<Rightarrow> bool" where
  "rw_inv n p q s \<longleftrightarrow> n < 2 ^ 31 \<and> (p + 4 \<le> q \<or> q + 4 \<le> p) \<and> length (rw_pcs s) = n \<and> rw_count s RwFirst \<le> 1
     \<and> unat (ioread32 (rw_app s) q) = rw_count s RwFirst + rw_count s RwReading
     \<and> rw_owners s \<le> 1 \<and> ioread32 (rw_app s) p = of_nat (rw_owners s)"

lemma count_list_update:
  assumes "h < length xs" "xs ! h = old" "old \<noteq> new"
  shows "count_list (xs[h := new]) c
    = (if c = old then count_list xs c - 1 else if c = new then count_list xs c + 1 else count_list xs c)"
    "0 < count_list xs old"
proof -
  have xs: "xs = take h xs @ old # drop (Suc h) xs" using assms(1,2) id_take_nth_drop by blast
  have u: "xs[h := new] = take h xs @ new # drop (Suc h) xs" by (rule upd_conv_take_nth_drop [OF assms(1)])
  have "count_list xs c = count_list (take h xs @ old # drop (Suc h) xs) c" using xs by simp
  then show "count_list (xs[h := new]) c
      = (if c = old then count_list xs c - 1 else if c = new then count_list xs c + 1 else count_list xs c)"
    using assms(3) unfolding u by auto
  show "0 < count_list xs old" using assms(1,2) by (intro count_list_pos) auto
qed

lemma rw_move_cases:
  assumes "rw_move h old new a s = Some t" "old \<noteq> new"
  shows "rw_app t = a" "length (rw_pcs t) = length (rw_pcs s)" "0 < rw_count s old"
    "rw_count t old = rw_count s old - 1" "rw_count t new = rw_count s new + 1"
    "c \<noteq> old \<Longrightarrow> c \<noteq> new \<Longrightarrow> rw_count t c = rw_count s c"
proof -
  from assms(1) have h: "h < length (rw_pcs s)" "rw_pcs s ! h = old"
    and t: "t = \<lparr>rw_app = a, rw_pcs = (rw_pcs s)[h := new]\<rparr>" by (auto simp: rw_move_def split: if_splits)
  note cu = count_list_update [OF h assms(2)]
  show "rw_app t = a" "length (rw_pcs t) = length (rw_pcs s)" "0 < rw_count s old"
    "rw_count t old = rw_count s old - 1" "rw_count t new = rw_count s new + 1"
    "c \<noteq> old \<Longrightarrow> c \<noteq> new \<Longrightarrow> rw_count t c = rw_count s c"
    using assms(2) cu(2) by (simp_all add: t rw_count_def cu(1))
qed

lemma rw_move_stay:
  assumes "rw_move h old old a s = Some t"
  shows "rw_app t = a" "rw_pcs t = rw_pcs s"
  using assms by (auto simp: rw_move_def split: if_splits)

lemma rw_count_sum: "c \<noteq> c' \<Longrightarrow> rw_count s c + rw_count s c' \<le> length (rw_pcs s)"
proof -
  assume "c \<noteq> c'"
  then have "count_list xs c + count_list xs c' \<le> length xs" for xs :: "rw_pc list" by (induction xs) auto
  then show ?thesis by (simp add: rw_count_def)
qed

lemma u32_small: "n < 2 ^ 32 \<Longrightarrow> unat (of_nat n :: u32) = n"
  by (simp add: unat_of_nat take_bit_nat_eq_self)

lemma rw_step_enter:
  assumes "rw_inv n p q s" "rw_exec p q (ReadEnter h) s = Some t"
  shows "rw_inv n p q t"
proof -
  let ?old = "ioread32 (rw_app s) q" and ?a = "snd (amo_add q 1 (rw_app s))"
  let ?new = "if ?old + 1 = 1 then RwFirst else RwReading"
  have m: "rw_move h RwOut ?new ?a s = Some t"
    using assms(2) by (simp add: amo_add_def split_beta Let_def amo_result)
  have ne: "RwOut \<noteq> ?new" by simp
  note mv = rw_move_cases [OF m ne]
  have a: "ioread32 (rw_app t) q = ?old + 1" "ioread32 (rw_app t) p = ioread32 (rw_app s) p"
    using assms(1) by (auto simp: mv(1) amo_add_def amo_result amo_other rw_inv_def)
  have old: "unat ?old = rw_count s RwFirst + rw_count s RwReading" "n < 2 ^ 31"
    using assms(1) by (simp_all add: rw_inv_def)
  have "rw_count s RwFirst + rw_count s RwReading \<le> n"
    using rw_count_sum [of RwFirst RwReading s] assms(1) by (simp add: rw_inv_def)
  with old have u: "unat (?old + 1) = rw_count s RwFirst + rw_count s RwReading + 1" by (simp add: unat_word_ariths)
  have z: "?old + 1 = 1 \<longleftrightarrow> rw_count s RwFirst = 0 \<and> rw_count s RwReading = 0"
    using u by (simp only: word_unat_eq_iff unat_1) simp
  have "rw_count t RwWriting = rw_count s RwWriting" "rw_count t RwLast = rw_count s RwLast"
    using mv(6) [of RwWriting] mv(6) [of RwLast] by simp_all
  moreover have "rw_count t RwFirst = rw_count s RwFirst + (if ?old + 1 = 1 then 1 else 0)"
    "rw_count t RwReading = rw_count s RwReading + (if ?old + 1 = 1 then 0 else 1)"
    using mv(5) mv(6) [of RwFirst] mv(6) [of RwReading] by (cases "?old + 1 = 1"; simp)+
  ultimately have c: "rw_count t RwFirst + rw_count t RwReading = rw_count s RwFirst + rw_count s RwReading + 1"
    "rw_count t RwFirst \<le> 1" "rw_owners t = rw_owners s"
    using assms(1) unfolding z by (auto simp: rw_owners_def rw_inv_def)
  show ?thesis using assms(1) mv(2) a u c by (simp add: rw_inv_def)
qed

lemma rw_step_leave:
  assumes "rw_inv n p q s" "rw_exec p q (ReadLeave h) s = Some t"
  shows "rw_inv n p q t"
proof -
  let ?old = "ioread32 (rw_app s) q" and ?a = "snd (amo_add q (- 1) (rw_app s))"
  let ?new = "if ?old - 1 = 0 then RwLast else RwOut"
  have m: "rw_move h RwReading ?new ?a s = Some t"
    using assms(2) by (simp add: amo_add_def split_beta Let_def amo_result)
  have ne: "RwReading \<noteq> ?new" by simp
  note mv = rw_move_cases [OF m ne]
  have a: "ioread32 (rw_app t) q = ?old - 1" "ioread32 (rw_app t) p = ioread32 (rw_app s) p"
    using assms(1) by (auto simp: mv(1) amo_add_def amo_result amo_other rw_inv_def)
  have old: "unat ?old = rw_count s RwFirst + rw_count s RwReading" using assms(1) by (simp add: rw_inv_def)
  with mv(3) have "1 \<le> ?old" by (simp add: word_le_nat_alt)
  then have u: "unat (?old - 1) = rw_count s RwFirst + rw_count s RwReading - 1" using old by (simp add: unat_sub_le)
  have z: "?old - 1 = 0 \<longleftrightarrow> rw_count s RwFirst = 0 \<and> rw_count s RwReading = 1"
    using u mv(3) by (auto simp: word_unat_eq_iff)
  have "rw_count t RwFirst = rw_count s RwFirst" "rw_count t RwReading = rw_count s RwReading - 1"
    "rw_count t RwWriting = rw_count s RwWriting"
    using mv(4) mv(6) [of RwFirst] mv(6) [of RwWriting] by simp_all
  moreover have "rw_count t RwLast = rw_count s RwLast + (if ?old - 1 = 0 then 1 else 0)"
    using mv(5) mv(6) [of RwLast] by (cases "?old - 1 = 0") simp_all
  ultimately have c: "rw_count t RwFirst + rw_count t RwReading = rw_count s RwFirst + rw_count s RwReading - 1"
    "rw_count t RwFirst \<le> 1" "rw_owners t = rw_owners s"
    using z mv(3) assms(1) by (auto simp: rw_owners_def rw_inv_def)
  show ?thesis using assms(1) mv(2) a u c by (simp add: rw_inv_def)
qed

text \<open>Steps on the lock word: it is taken only when free, and released only by an owner.\<close>

lemma rw_step_lock:
  assumes "rw_inv n p q s" "rw_move h old (if fst (futex_try_lock p (rw_app s)) then new else old) (snd (futex_try_lock p (rw_app s))) s = Some t"
    and "old = RwFirst \<and> new = RwReading \<or> old = RwWaiting \<and> new = RwWriting"
  shows "rw_inv n p q t"
proof -
  let ?a = "snd (futex_try_lock p (rw_app s))"
  have a: "ioread32 ?a p = ioread32 (rw_app s) p OR 1" "ioread32 ?a q = ioread32 (rw_app s) q"
    using assms(1) by (auto simp: futex_simps futex_try_lock_def amo_or_def split_beta Let_def amo_other amo_result rw_inv_def)
  have lk: "ioread32 (rw_app s) p = of_nat (rw_owners s)" "rw_owners s \<le> 1" using assms(1) by (simp_all add: rw_inv_def)
  show ?thesis
  proof (cases "ioread32 (rw_app s) p = 0")
    case True
    then have m: "rw_move h old new ?a s = Some t" using assms(2) by (simp add: futex_simps)
    have ne: "old \<noteq> new" using assms(3) by auto
    note mv = rw_move_cases [OF m ne]
    have o: "rw_owners s = 0" using True lk by (cases "rw_owners s") simp_all
    have "rw_owners t = 1" "rw_count t RwFirst \<le> 1"
      "rw_count t RwFirst + rw_count t RwReading = rw_count s RwFirst + rw_count s RwReading"
      using assms(1,3) o mv(3,4,5) mv(6) [of RwFirst] mv(6) [of RwReading] mv(6) [of RwLast] mv(6) [of RwWriting]
      by (auto simp: rw_owners_def rw_inv_def split: if_splits)
    then show ?thesis using assms(1) mv(1,2) a True by (simp add: rw_inv_def)
  next
    case False
    then have "rw_move h old old ?a s = Some t" using assms(2) by (simp add: futex_simps)
    note st = rw_move_stay [OF this]
    have "ioread32 (rw_app s) p = 1" using False lk by (cases "rw_owners s") simp_all
    then show ?thesis using assms(1) a by (simp add: rw_inv_def st rw_owners_def rw_count_def)
  qed
qed

lemma rw_step_unlock:
  assumes "rw_inv n p q s" "rw_move h old RwOut (futex_unlock p (rw_app s)) s = Some t" "old = RwLast \<or> old = RwWriting"
  shows "rw_inv n p q t"
proof -
  have ne: "old \<noteq> RwOut" using assms(3) by auto
  note mv = rw_move_cases [OF assms(2) ne]
  have a: "ioread32 (rw_app t) p = 0" "ioread32 (rw_app t) q = ioread32 (rw_app s) q"
    using assms(1) by (auto simp: mv(1) futex_simps futex_unlock_def futex_init_def amo_store_def amo_other amo_result rw_inv_def)
  have "rw_owners t = 0" "rw_count t RwFirst = rw_count s RwFirst" "rw_count t RwReading = rw_count s RwReading"
    using assms(1,3) mv(3,4) mv(6) [of RwFirst] mv(6) [of RwReading] mv(6) [of RwLast] mv(6) [of RwWriting]
    by (auto simp: rw_owners_def rw_inv_def split: if_splits)
  then show ?thesis using assms(1) mv(2) a by (simp add: rw_inv_def)
qed

lemma rw_step_wait:
  assumes "rw_inv n p q s" "rw_move h RwOut RwWaiting (rw_app s) s = Some t"
  shows "rw_inv n p q t"
proof -
  have ne: "RwOut \<noteq> RwWaiting" by simp
  note mv = rw_move_cases [OF assms(2) ne]
  show ?thesis using assms(1) mv(1,2) mv(6) [of RwFirst] mv(6) [of RwReading] mv(6) [of RwLast] mv(6) [of RwWriting]
    by (simp add: rw_inv_def rw_owners_def)
qed

lemma rw_step:
  assumes "rw_inv n p q s" "rw_exec p q l s = Some t"
  shows "rw_inv n p q t"
proof (cases l)
  case (ReadEnter h)
  then show ?thesis using rw_step_enter [OF assms(1)] assms(2) by simp
next
  case (ReadTry h)
  then show ?thesis using rw_step_lock [OF assms(1), of h RwFirst RwReading] assms(2) by (simp add: split_beta Let_def)
next
  case (ReadLeave h)
  then show ?thesis using rw_step_leave [OF assms(1)] assms(2) by simp
next
  case (ReadRelease h)
  then show ?thesis using rw_step_unlock [OF assms(1), of h RwLast] assms(2) by simp
next
  case (WriteEnter h)
  then show ?thesis using rw_step_wait [OF assms(1)] assms(2) by simp
next
  case (WriteTry h)
  then show ?thesis using rw_step_lock [OF assms(1), of h RwWaiting RwWriting] assms(2) by (simp add: split_beta Let_def)
next
  case (WriteLeave h)
  then show ?thesis using rw_step_unlock [OF assms(1), of h RwWriting] assms(2) by simp
qed

interpretation rw_sys: invariant_system "rw_exec p q" "\<lambda>_ _. True" "rw_inv n p q" for p q n
  by unfold_locales (rule rw_step)

text \<open>The state in which \<open>n\<close> HPUs have not used the lock yet.\<close>

definition rw_init :: "nat \<Rightarrow> nat \<Rightarrow> nat \<Rightarrow> app \<Rightarrow> rw_state" where
  "rw_init n p q a = \<lparr>rw_app = iowrite32 0 q (futex_init p a), rw_pcs = replicate n RwOut\<rparr>"

lemma rw_init_inv:
  assumes "n < 2 ^ 31" "p + 4 \<le> q \<or> q + 4 \<le> p"
  shows "rw_inv n p q (rw_init n p q a)"
proof -
  have "count_list (replicate n RwOut) c = (if c = RwOut then n else 0)" for c by (induction n) auto
  moreover have "ioread32 (iowrite32 0 q (futex_init p a)) p = 0"
    using assms(2) ioread32_iowrite32_other [of q p] by (auto simp: futex_init_def amo_store_def amo_result)
  ultimately show ?thesis using assms by (simp add: rw_inv_def rw_init_def rw_owners_def rw_count_def)
qed

text \<open>
  Property C28. The reader-writer lock: in every state that any number of HPUs can reach there is at
  most one writer, the counter is the number of readers inside or on their way in, and whenever a reader
  is inside together with a writer, a first reader is still waiting for the lock.
\<close>

theorem rw_lock_writers:
  assumes "n < 2 ^ 31" "p + 4 \<le> q \<or> q + 4 \<le> p" "reach (rw_exec p q) (\<lambda>_ _. True) (rw_init n p q a) s"
  shows "rw_count s RwWriting \<le> 1
    \<and> unat (ioread32 (rw_app s) q) = rw_count s RwFirst + rw_count s RwReading
    \<and> (0 < rw_count s RwWriting \<and> 0 < rw_count s RwReading \<longrightarrow> rw_count s RwFirst = 1)"
proof -
  have "rw_inv n p q s" by (rule rw_sys.reach_inv [OF assms(3) rw_init_inv [OF assms(1,2)]])
  then show ?thesis by (auto simp: rw_inv_def rw_owners_def split: if_splits)
qed

definition example_rw :: "rw_event list \<Rightarrow> rw_state" where
  "example_rw es = the (run (rw_exec 0 4) (\<lambda>_ _. True) es (rw_init 3 0 4 example_app))"

definition example_rw_events :: "rw_event list" where
  "example_rw_events = [WriteEnter 0, WriteTry 0, ReadEnter 1, ReadTry 1, ReadEnter 2]"

text \<open>
  The lock does not keep readers and writers apart: while HPU 0 writes, HPU 1 waits as the first reader,
  and HPU 2, finding the counter positive, enters without waiting.
\<close>

lemma rw_lock_reader_with_writer:
  "rw_pcs (example_rw example_rw_events) = [RwWriting, RwFirst, RwReading]"
  by code_simp

theorem rw_lock_writers_witness:
  "rw_pcs (example_rw example_rw_events) = [RwWriting, RwFirst, RwReading]
   \<and> unat (ioread32 (rw_app (example_rw example_rw_events)) 4) = 2"
proof -
  have "\<not> Option.is_none (run (rw_exec 0 4) (\<lambda>_ _. True) example_rw_events (rw_init 3 0 4 example_app))" by code_simp
  from run_reach_the [OF this]
  have r: "reach (rw_exec 0 4) (\<lambda>_ _. True) (rw_init 3 0 4 example_app) (example_rw example_rw_events)"
    by (simp only: example_rw_def)
  have p: "rw_pcs (example_rw example_rw_events) = [RwWriting, RwFirst, RwReading]"
    by (rule rw_lock_reader_with_writer)
  from rw_lock_writers [OF _ _ r] p show ?thesis by (simp add: rw_count_def)
qed

section \<open>Performance counters\<close>

text \<open>A counter: the sum at its address, the count in the next word. Both additions are atomic.\<close>

definition push_counter :: "nat \<Rightarrow> u32 \<Rightarrow> app \<Rightarrow> app" where
  "push_counter c dur a = snd (amo_add c dur (snd (amo_add (c + 4) 1 a)))"

text \<open>The instructions of several HPUs that push at the same time, in the order they reach memory.\<close>

datatype counter_op = AddCount | AddSum u32

fun counter_exec :: "nat \<Rightarrow> counter_op list \<Rightarrow> app \<Rightarrow> app" where
  "counter_exec c [] a = a"
| "counter_exec c (AddCount # ops) a = counter_exec c ops (snd (amo_add (c + 4) 1 a))"
| "counter_exec c (AddSum d # ops) a = counter_exec c ops (snd (amo_add c d a))"

lemma push_counter_ops: "counter_exec c [AddCount, AddSum d] a = push_counter c d a"
  by (simp add: push_counter_def)

fun op_durs :: "counter_op list \<Rightarrow> u32 list" where
  "op_durs [] = []"
| "op_durs (AddCount # ops) = op_durs ops"
| "op_durs (AddSum d # ops) = d # op_durs ops"

lemma counter_exec_words:
  "ioread32 (counter_exec c ops a) c = ioread32 a c + sum_list (op_durs ops)"
  "ioread32 (counter_exec c ops a) (c + 4) = ioread32 a (c + 4) + of_nat (count_list ops AddCount)"
  by (induction c ops a rule: counter_exec.induct)
    (simp_all add: amo_add_def amo_result amo_other ac_simps)

end
