(* ===== verification/Host_Runtime.thy ===== *)
theory Host_Runtime
  imports Fpspin_Init Nic_Sync
begin

text \<open>
  The run-time calls of the host library (\<open>lib/fpspin/runtime.c\<close>): taking a request from the flag pages,
  answering it, and the performance counters that handlers update. Requests and answers are shown to be
  the steps of the flag protocol; the counters are shown to be what the handlers pushed.
\<close>

unbundle bit_operations_syntax

section \<open>Requests and answers\<close>

text \<open>
  \<open>fpspin_pop_req\<close>, given the first word of each page of the DMA buffer: the flag, the payload's offset in the
  buffer if there is a new request, and the context.
\<close>

definition fpspin_pop_req :: "(nat \<Rightarrow> u64) \<Rightarrow> nat \<Rightarrow> fpspin_ctx \<Rightarrow> fpspin_flag \<times> u64 option \<times> fpspin_ctx" where
  "fpspin_pop_req pages hpu_id ctx =
     (let f = flag_of_data (pages hpu_id)
      in if dma_id f = c_dma_idx ctx ! hpu_id then (f, None, ctx)
         else (f, Some (of_nat hpu_id * PAGE_SIZE + DMA_ALIGN),
               ctx\<lparr>c_dma_idx := (c_dma_idx ctx)[hpu_id := dma_id f]\<rparr>))"

text \<open>The addresses of \<open>struct host_data\<close> in NIC memory: sixteen flags, then sixteen counters.\<close>

definition flag_addr :: "fpspin_ctx \<Rightarrow> nat \<Rightarrow> u64" where
  "flag_addr ctx hpu_id = c_host_data_ptr ctx + of_nat hpu_id * 8"

definition counter_addr :: "fpspin_ctx \<Rightarrow> nat \<Rightarrow> u64" where
  "counter_addr ctx i = c_host_data_ptr ctx + of_nat NUM_HPUS * 8 + of_nat i * 8"

definition host_write :: "(nat \<Rightarrow> bool) \<Rightarrow> u64 \<Rightarrow> u64 \<Rightarrow> io" where
  "host_write copy_ok addr data s =
     (case pspin_ioctl copy_ok (s_dev s) (PSPIN_HOST_WRITE addr data) (s_app s) of
        None \<Rightarrow> Hangs
      | Some (r, a) \<Rightarrow> Running (s\<lparr>s_app := a\<rparr>))"

definition fpspin_push_resp :: "(nat \<Rightarrow> bool) \<Rightarrow> nat \<Rightarrow> fpspin_flag \<Rightarrow> io" where
  "fpspin_push_resp copy_ok hpu_id flag s =
     host_write copy_ok (flag_addr (s_ctx s) hpu_id)
       (flag_data (flag\<lparr>dma_id := c_dma_idx (s_ctx s) ! hpu_id, flag_hpu_id := of_nat hpu_id\<rparr>)) s"

section \<open>Performance counters\<close>

record fpspin_counter =
  counter_sum :: u32
  counter_count :: u32

definition fpspin_clear_counter :: "(nat \<Rightarrow> bool) \<Rightarrow> nat \<Rightarrow> io" where
  "fpspin_clear_counter copy_ok i s = host_write copy_ok (counter_addr (s_ctx s) i) 0 s"

text \<open>
  \<open>fpspin_get_counter\<close>: request and response share the word of the message, so after a failed \<open>ioctl\<close>
  it still holds the address.
\<close>

definition fpspin_get_counter :: "(nat \<Rightarrow> bool) \<Rightarrow> nat \<Rightarrow> sys \<Rightarrow> fpspin_counter" where
  "fpspin_get_counter copy_ok i s =
     (let perf_off = counter_addr (s_ctx s) i;
          word = (case pspin_ioctl copy_ok (s_dev s) (PSPIN_HOST_READ perf_off) (s_app s) of
                    Some (Inr (resp_word w), a) \<Rightarrow> w
                  | _ \<Rightarrow> perf_off)
      in \<lparr>counter_sum = ucast word, counter_count = ucast (drop_bit 32 word)\<rparr>)"

definition fpspin_get_avg_cycles :: "(nat \<Rightarrow> bool) \<Rightarrow> sys \<Rightarrow> u32" where
  "fpspin_get_avg_cycles copy_ok s =
     (let counter = fpspin_get_counter copy_ok 0 s
      in if counter_count counter \<noteq> 0 then counter_sum counter div counter_count counter else 0)"

section \<open>The calls and the flag protocol\<close>

text \<open>The host structure lies in the handler memory.\<close>

definition host_data_ok :: "fpspin_ctx \<Rightarrow> bool" where
  "host_data_ok ctx \<longleftrightarrow> 0x1c000000 \<le> unat (c_host_data_ptr ctx) \<and> unat (c_host_data_ptr ctx) + 256 \<le> 0x1c100000"

definition flag_off :: "fpspin_ctx \<Rightarrow> nat \<Rightarrow> nat" where
  "flag_off ctx i = unat (c_host_data_ptr ctx) - 0x1c000000 + 8 * i"

lemma host_data_addr:
  assumes "host_data_ok ctx" "i < 32"
  shows "unat (pspin_addr_to_corundum (c_host_data_ptr ctx + of_nat i * 8)) = flag_off ctx i"
    "\<not> sint (pspin_addr_to_corundum (c_host_data_ptr ctx + of_nat i * 8)) < 0"
proof -
  have o: "unat (of_nat i * 8 :: u64) = 8 * i" using assms(2) by (simp add: unat_word_ariths unat_of_nat)
  have u: "unat (c_host_data_ptr ctx + of_nat i * 8) = unat (c_host_data_ptr ctx) + 8 * i"
    using assms o by (simp add: unat_word_ariths host_data_ok_def)
  have r: "region 0x1c000000 0x1c100000 0" by (simp add: region_def)
  show "unat (pspin_addr_to_corundum (c_host_data_ptr ctx + of_nat i * 8)) = flag_off ctx i"
    "\<not> sint (pspin_addr_to_corundum (c_host_data_ptr ctx + of_nat i * 8)) < 0"
    using region_translate(1,2) [OF r, of "c_host_data_ptr ctx + of_nat i * 8"] assms
    by (simp_all add: u host_data_ok_def flag_off_def)
qed

lemma host_write_ok:
  assumes "host_data_ok ctx" "i < 32" "cd_type (s_dev s) = TY_MEM" "copy_ok 0" "copy_ok 1"
  shows "host_write copy_ok (c_host_data_ptr ctx + of_nat i * 8) v s
    = Running (s\<lparr>s_app := iowrite64_lo_hi v (flag_off ctx i) (s_app s)\<rparr>)"
  using assms host_data_addr [OF assms(1,2)] by (simp add: host_write_def pspin_ioctl_def Let_def)

lemma flag_addr_index: "flag_addr ctx i = c_host_data_ptr ctx + of_nat i * 8"
  by (simp add: flag_addr_def)

lemma counter_addr_index: "counter_addr ctx i = c_host_data_ptr ctx + of_nat (NUM_HPUS + i) * 8"
  by (simp add: counter_addr_def algebra_simps)

text \<open>The lane of an HPU as the host sees it: its page, its counter and its flag in NIC memory.\<close>

definition lane_view :: "(nat \<Rightarrow> u64) \<Rightarrow> nat \<Rightarrow> sys \<Rightarrow> lane \<Rightarrow> bool" where
  "lane_view pages i s l \<longleftrightarrow> l_hpu l = of_nat i \<and> l_page l = pages i \<and> l_ctx_idx l = c_dma_idx (s_ctx s) ! i
     \<and> l_lo l = ioread32 (s_app s) (flag_off (s_ctx s) i) \<and> l_hi l = ioread32 (s_app s) (flag_off (s_ctx s) i + 4)"

lemma iowrite64_halves:
  "ioread32 (iowrite64_lo_hi v p a) p = flag_lo v" "ioread32 (iowrite64_lo_hi v p a) (p + 4) = flag_hi v"
  "q + 4 \<le> p \<or> p + 8 \<le> q \<Longrightarrow> ioread32 (iowrite64_lo_hi v p a) q = ioread32 a q"
proof -
  show "ioread32 (iowrite64_lo_hi v p a) p = flag_lo v" "ioread32 (iowrite64_lo_hi v p a) (p + 4) = flag_hi v"
    by (simp_all add: iowrite64_lo_hi_def ioread32_iowrite32_other flag_lo_def flag_hi_def)
  show "ioread32 (iowrite64_lo_hi v p a) q = ioread32 a q" if "q + 4 \<le> p \<or> p + 8 \<le> q"
    using that by (auto simp: iowrite64_lo_hi_def ioread32_iowrite32_other)
qed

text \<open>
  Property C29. The library calls are the steps of the flag protocol, for every HPU: \<open>fpspin_pop_req\<close>
  reports a request exactly when the protocol takes one up, at the payload address of that HPU, and
  \<open>fpspin_push_resp\<close> is the two write steps with the answer; the lanes of all other HPUs stay as they are.
\<close>

theorem runtime_implements_protocol:
  assumes "lane_view pages i s l" "i < NUM_HPUS" "length (c_dma_idx (s_ctx s)) = NUM_HPUS" "host_data_ok (s_ctx s)"
    and "cd_type (s_dev s) = TY_MEM" "copy_ok 0" "copy_ok 1" "flag_rest f = 0"
  shows "(l_host l = HostIdle \<longrightarrow> (case fpspin_pop_req pages i (s_ctx s) of (f', res, ctx') \<Rightarrow>
      \<exists>l'. lane_exec HostPop l = Some l' \<and> lane_view pages i (s\<lparr>s_ctx := ctx'\<rparr>) l'
        \<and> (res = None \<longleftrightarrow> l_host l' = HostIdle) \<and> (res \<noteq> None \<longrightarrow> res = Some (of_nat i * PAGE_SIZE + DMA_ALIGN))
        \<and> (\<forall>j < NUM_HPUS. j \<noteq> i \<longrightarrow> c_dma_idx ctx' ! j = c_dma_idx (s_ctx s) ! j)))
    \<and> (l_host l = HostServing \<longrightarrow> (\<exists>s' l'. fpspin_push_resp copy_ok i f s = Running s'
        \<and> run lane_exec (\<lambda>_ _. True) [HostPushLo (flag_len f), HostPushHi] l = Some l' \<and> lane_view pages i s' l'
        \<and> (\<forall>j < NUM_HPUS. j \<noteq> i \<longrightarrow> ioread64_lo_hi (s_app s') (flag_off (s_ctx s) j)
              = ioread64_lo_hi (s_app s) (flag_off (s_ctx s) j))))"
proof (intro conjI impI)
  assume idle: "l_host l = HostIdle"
  show "case fpspin_pop_req pages i (s_ctx s) of (f', res, ctx') \<Rightarrow>
      \<exists>l'. lane_exec HostPop l = Some l' \<and> lane_view pages i (s\<lparr>s_ctx := ctx'\<rparr>) l'
        \<and> (res = None \<longleftrightarrow> l_host l' = HostIdle) \<and> (res \<noteq> None \<longrightarrow> res = Some (of_nat i * PAGE_SIZE + DMA_ALIGN))
        \<and> (\<forall>j < NUM_HPUS. j \<noteq> i \<longrightarrow> c_dma_idx ctx' ! j = c_dma_idx (s_ctx s) ! j)"
    using assms(1-3) idle by (auto simp: fpspin_pop_req_def lane_view_def Let_def flag_off_def)
next
  assume serving: "l_host l = HostServing"
  have i: "i < 32" using assms(2) by (simp add: NUM_HPUS_def)
  let ?v = "flag_data (f\<lparr>dma_id := c_dma_idx (s_ctx s) ! i, flag_hpu_id := of_nat i\<rparr>)"
  let ?s = "s\<lparr>s_app := iowrite64_lo_hi ?v (flag_off (s_ctx s) i) (s_app s)\<rparr>"
  let ?l = "l\<lparr>l_lo := flag_lo ?v, l_hi := flag_hi ?v, l_host := HostIdle\<rparr>"
  have v: "flag_data \<lparr>dma_id = l_ctx_idx l, flag_len = flag_len f, flag_hpu_id = l_hpu l, flag_rest = 0\<rparr> = ?v"
    using assms(1,8) by (simp add: lane_view_def flag_data_def)
  have "fpspin_push_resp copy_ok i f s = Running ?s"
    unfolding fpspin_push_resp_def flag_addr_index by (rule host_write_ok [where ctx = "s_ctx s", OF assms(4) i assms(5-7)])
  moreover have "run lane_exec (\<lambda>_ _. True) [HostPushLo (flag_len f), HostPushHi] l = Some ?l"
    using serving by (simp add: Let_def v)
  moreover have "lane_view pages i ?s ?l" using assms(1) by (simp add: lane_view_def iowrite64_halves)
  moreover have "ioread64_lo_hi (s_app ?s) (flag_off (s_ctx s) j) = ioread64_lo_hi (s_app s) (flag_off (s_ctx s) j)"
    if "j \<noteq> i" for j
  proof -
    have "flag_off (s_ctx s) j + 8 \<le> flag_off (s_ctx s) i \<or> flag_off (s_ctx s) i + 8 \<le> flag_off (s_ctx s) j"
      using that by (auto simp: flag_off_def)
    then show ?thesis by (auto simp: ioread64_lo_hi_def iowrite64_halves(3))
  qed
  ultimately show "\<exists>s' l'. fpspin_push_resp copy_ok i f s = Running s'
        \<and> run lane_exec (\<lambda>_ _. True) [HostPushLo (flag_len f), HostPushHi] l = Some l' \<and> lane_view pages i s' l'
        \<and> (\<forall>j < NUM_HPUS. j \<noteq> i \<longrightarrow> ioread64_lo_hi (s_app s') (flag_off (s_ctx s) j)
              = ioread64_lo_hi (s_app s) (flag_off (s_ctx s) j))"
    by blast
qed

definition example_runtime :: sys where
  "example_runtime = example_sys\<lparr>s_ctx := example_ctx\<lparr>c_dma_idx := replicate 16 255\<rparr>\<rparr>"

definition example_request :: lane where
  "example_request = \<lparr>l_hpu = 3, l_dma_idx = 0, l_nic = NicPolling 0 None None,
     l_page = flag_data \<lparr>dma_id = 0, flag_len = 60, flag_hpu_id = 3, flag_rest = 0\<rparr>,
     l_ctx_idx = 255, l_host = HostIdle, l_lo = 0, l_hi = 0\<rparr>"

theorem runtime_implements_protocol_witness:
  "fst (snd (fpspin_pop_req (\<lambda>_. l_page example_request) 3 (s_ctx example_runtime))) = Some 12352
   \<and> l_host (the (lane_exec HostPop example_request)) = HostServing"
proof -
  have z: "ioread32 example_app p = 0" for p by (simp add: ioread32_def example_app_def le32_def)
  have v: "lane_view (\<lambda>_. l_page example_request) 3 example_runtime example_request"
    by (simp add: lane_view_def example_request_def example_runtime_def example_sys_def z)
  have n: "3 < NUM_HPUS" "length (c_dma_idx (s_ctx example_runtime)) = NUM_HPUS"
    by (simp_all add: NUM_HPUS_def example_runtime_def)
  have h: "host_data_ok (s_ctx example_runtime)" "cd_type (s_dev example_runtime) = TY_MEM"
    by (simp_all add: host_data_ok_def example_runtime_def example_ctx_def example_sys_def example_dev_def)
  have f: "flag_rest \<lparr>dma_id = 0, flag_len = 60, flag_hpu_id = 3, flag_rest = 0\<rparr> = 0" by simp
  have i: "l_host example_request = HostIdle" by (simp add: example_request_def)
  have e: "lane_exec HostPop example_request \<noteq> Some example_request" by code_simp
  from runtime_implements_protocol [OF v n h, of "\<lambda>_. True", OF _ _ f] i
  obtain f' res ctx' l' where p: "fpspin_pop_req (\<lambda>_. l_page example_request) 3 (s_ctx example_runtime) = (f', res, ctx')"
    "lane_exec HostPop example_request = Some l'" "res = None \<longleftrightarrow> l_host l' = HostIdle"
    "res \<noteq> None \<Longrightarrow> res = Some (of_nat 3 * PAGE_SIZE + DMA_ALIGN)"
    by (cases "fpspin_pop_req (\<lambda>_. l_page example_request) 3 (s_ctx example_runtime)") auto
  have s: "l_host l' = HostServing"
    using p(2) e i by (auto simp: Let_def split: if_splits)
  with p(3,4) have "res = Some (of_nat 3 * PAGE_SIZE + DMA_ALIGN)" by auto
  with s p(1,2) show ?thesis by (simp add: PAGE_SIZE_def DMA_ALIGN_def)
qed

section \<open>Counters\<close>

lemma ioread64_flag_word: "ioread64_lo_hi a p = flag_word (ioread32 a p) (ioread32 a (p + 4))"
proof -
  have "(ucast lo :: u64) AND push_bit 32 (ucast hi) = 0" for lo hi :: u32
    by (rule bit_word_eqI) (auto simp: bit_simps)
  then show ?thesis unfolding ioread64_lo_hi_def flag_word_def by (rule disjunctive_add_eq_or)
qed

lemma flag_word_parts: "ucast (flag_word lo hi) = lo" "ucast (drop_bit 32 (flag_word lo hi)) = hi"
  by (auto simp: flag_word_def bit_simps intro!: bit_word_eqI)

text \<open>
  Property C30. A performance counter reads as what the handlers put in: after the host clears it and any
  number of HPUs push durations, whatever the interleaving of their atomic additions, the host reads
  the number of pushes and the sum of the durations, both modulo 2^32, and the average of counter 0.
\<close>

theorem counters_agree:
  assumes "host_data_ok (s_ctx s)" "i < 16" "cd_type (s_dev s) = TY_MEM" "copy_ok 0" "copy_ok 1"
    and "mset (op_durs ops) = mset ds" "count_list ops AddCount = length ds"
  shows "\<exists>s1. fpspin_clear_counter copy_ok i s = Running s1
    \<and> (let s2 = s1\<lparr>s_app := counter_exec (flag_off (s_ctx s) (NUM_HPUS + i)) ops (s_app s1)\<rparr>
       in fpspin_get_counter copy_ok i s2 = \<lparr>counter_sum = sum_list ds, counter_count = of_nat (length ds)\<rparr>
        \<and> (i = 0 \<and> of_nat (length ds) \<noteq> (0 :: u32) \<longrightarrow> fpspin_get_avg_cycles copy_ok s2 = sum_list ds div of_nat (length ds)))"
proof -
  have i: "NUM_HPUS + i < 32" using assms(2) by (simp add: NUM_HPUS_def)
  let ?o = "flag_off (s_ctx s) (NUM_HPUS + i)"
  let ?s1 = "s\<lparr>s_app := iowrite64_lo_hi 0 ?o (s_app s)\<rparr>"
  let ?s2 = "?s1\<lparr>s_app := counter_exec ?o ops (s_app ?s1)\<rparr>"
  have s1: "fpspin_clear_counter copy_ok i s = Running ?s1"
    unfolding fpspin_clear_counter_def counter_addr_index by (rule host_write_ok [OF assms(1) i assms(3-5)])
  have d: "sum_list (op_durs ops) = sum_list ds" using assms(6) by (metis sum_mset_sum_list)
  have "ioread32 (s_app ?s2) ?o = sum_list ds" "ioread32 (s_app ?s2) (?o + 4) = of_nat (length ds)"
    using assms(7) by (simp_all add: counter_exec_words d iowrite64_halves flag_lo_def flag_hi_def)
  then have w: "ioread64_lo_hi (s_app ?s2) ?o = flag_word (sum_list ds) (of_nat (length ds))"
    by (simp only: ioread64_flag_word)
  have "pspin_ioctl copy_ok (s_dev ?s2) (PSPIN_HOST_READ (counter_addr (s_ctx ?s2) i)) (s_app ?s2)
      = Some (Inr (resp_word (ioread64_lo_hi (s_app ?s2) ?o)), s_app ?s2)"
    using assms(3-5) host_data_addr [OF assms(1) i] by (simp add: pspin_ioctl_def counter_addr_index Let_def del: of_nat_add)
  then have g: "fpspin_get_counter copy_ok i ?s2 = \<lparr>counter_sum = sum_list ds, counter_count = of_nat (length ds)\<rparr>"
    unfolding fpspin_get_counter_def w by (simp add: Let_def flag_word_parts)
  moreover have "fpspin_get_avg_cycles copy_ok ?s2 = sum_list ds div of_nat (length ds)"
    if "i = 0" "of_nat (length ds) \<noteq> (0 :: u32)" using g that by (simp add: fpspin_get_avg_cycles_def Let_def)
  ultimately show ?thesis using s1 unfolding Let_def by blast
qed

theorem counters_agree_witness:
  "\<exists>s1. fpspin_clear_counter (\<lambda>_. True) 0 example_runtime = Running s1
    \<and> fpspin_get_avg_cycles (\<lambda>_. True) (s1\<lparr>s_app := counter_exec (flag_off (s_ctx example_runtime) (NUM_HPUS + 0))
          [AddCount, AddCount, AddSum 30, AddSum 10] (s_app s1)\<rparr>) = 20"
proof -
  have h: "host_data_ok (s_ctx example_runtime)" "(0 :: nat) < 16" "cd_type (s_dev example_runtime) = TY_MEM"
    by (simp_all add: host_data_ok_def example_runtime_def example_ctx_def example_sys_def example_dev_def)
  have d: "mset (op_durs [AddCount, AddCount, AddSum 30, AddSum 10]) = mset [10, 30]"
    "count_list [AddCount, AddCount, AddSum 30, AddSum 10] AddCount = length [10 :: u32, 30]" by simp_all
  have "sum_list [10, 30] div of_nat (length [10 :: u32, 30]) = (20 :: u32)" "of_nat (length [10 :: u32, 30]) \<noteq> (0 :: u32)"
    by code_simp+
  with counters_agree [OF h, of "\<lambda>_. True", OF _ _ d] show ?thesis by (auto simp only: Let_def)
qed

text \<open>When the \<open>ioctl\<close> fails, the counter that is returned is made from its own address.\<close>

lemma failed_counter_is_address:
  "fpspin_get_counter (\<lambda>_. False) 0 example_runtime = \<lparr>counter_sum = 0x1c000080, counter_count = 0\<rparr>"
proof -
  have "counter_addr (s_ctx example_runtime) 0 = 0x1c000080"
    by (simp add: counter_addr_def example_runtime_def example_ctx_def NUM_HPUS_def)
  moreover have "ucast (0x1c000080 :: u64) = (0x1c000080 :: u32)" "ucast (drop_bit 32 (0x1c000080 :: u64)) = (0 :: u32)" by code_simp+
  ultimately show ?thesis by (simp add: fpspin_get_counter_def pspin_ioctl_def example_runtime_def example_sys_def example_dev_def)
qed

end
