(* ===== verification/Nic_Cmd.thy ===== *)
theory Nic_Cmd
  imports Fp_Prelude
begin

text \<open>
  The interface between a packet handler and its HPU driver: the task descriptor that a handler reads
  (\<open>handler.h\<close>, \<open>hwsched.h\<close>) and the commands it issues (\<open>spin_dma_to_host\<close> and its relatives in
  \<open>handler.h\<close>), against the register decoding of the RTL (\<open>hpu_driver.sv\<close>, \<open>pspin_cfg_pkg.sv\<close>).
  A command is a sequence of stores into the command registers followed by a load that issues it.
\<close>

unbundle bit_operations_syntax

section \<open>Words of 64 bits\<close>

definition word64 :: "u32 \<Rightarrow> u32 \<Rightarrow> u64" where
  "word64 lo hi = ucast lo OR push_bit 32 (ucast hi)"

lemma word64_halves: "word64 (ucast w) (ucast (drop_bit 32 w)) = w"
proof (rule bit_word_eqI)
  fix n assume "n < LENGTH(64)"
  then show "bit (word64 (ucast w) (ucast (drop_bit 32 w))) n = bit w n"
    by (cases "32 \<le> n") (auto simp: word64_def bit_simps)
qed

definition bytes64 :: "u64 \<Rightarrow> u8 list" where
  "bytes64 v = bytes32 (ucast v) @ bytes32 (ucast (drop_bit 32 v))"

section \<open>The task descriptor\<close>

text \<open>The job the scheduler gives to the HPU driver, and where the packet is in L1.\<close>

record hpu_task =
  ht_msgid :: u32
  ht_handler_fun :: u32
  ht_handler_fun_size :: u32
  ht_handler_mem_addr :: u32
  ht_handler_mem_size :: u32
  ht_host_mem_addr :: u64
  ht_host_mem_size :: u32
  ht_pkt_addr :: u32
  ht_pkt_size :: u32
  ht_scratchpad_addr :: "u32 list"
  ht_scratchpad_size :: "u32 list"
  ht_pkt_ptr :: u32

definition L1_CLUSTER_BASE :: u32 where "L1_CLUSTER_BASE = 0x10000000"
definition L1_CLUSTER_MEM_SIZE :: u32 where "L1_CLUSTER_MEM_SIZE = 0x400000"
definition L1_SCRATCHPAD_OFFSET :: u32 where "L1_SCRATCHPAD_OFFSET = 0x400 + 0x4000 + 0x10000"

definition l1_scratchpad_addr :: "hpu_task \<Rightarrow> nat \<Rightarrow> u32" where
  "l1_scratchpad_addr t i =
     L1_CLUSTER_BASE + of_nat i * L1_CLUSTER_MEM_SIZE + L1_SCRATCHPAD_OFFSET + ht_scratchpad_addr t ! i"

text \<open>
  What the task frontend answers to a load at the low eight address bits, with two clusters; the
  registers of the clusters that do not exist are not decided.
\<close>

definition task_rdata :: "hpu_task \<Rightarrow> u32 \<Rightarrow> u32 option" where
  "task_rdata t add =
     (let a = add AND 0xff
      in if a = 0x00 then Some (ht_handler_fun t)
         else if a = 0x04 then Some (ht_handler_fun_size t)
         else if a = 0x08 then Some (ht_handler_mem_addr t)
         else if a = 0x0c then Some (ht_handler_mem_size t)
         else if a = 0x10 then Some (ht_pkt_ptr t)
         else if a = 0x14 then Some (ht_pkt_size t)
         else if a = 0x18 then Some (l1_scratchpad_addr t 0)
         else if a = 0x1c then Some (l1_scratchpad_addr t 1)
         else if a = 0x28 then Some (ht_scratchpad_size t ! 0)
         else if a = 0x2c then Some (ht_scratchpad_size t ! 1)
         else if a = 0x38 then Some (ucast (drop_bit 32 (ht_host_mem_addr t)))
         else if a = 0x3c then Some (ucast (ht_host_mem_addr t))
         else if a = 0x40 then Some (ht_host_mem_size t)
         else if a = 0x44 then Some (ht_pkt_addr t)
         else if a = 0x48 then Some (ht_msgid t AND 1)
         else if a = 0x4c then Some (ht_msgid t AND 0x3ff)
         else None)"

text \<open>The structure \<open>task_t\<close>; a handler reads a field by a load at its offset.\<close>

record task =
  t_handler_mem :: u32
  t_handler_mem_size :: u32
  t_pkt_mem :: u32
  t_pkt_mem_size :: u32
  t_scratchpad :: "u32 list"
  t_scratchpad_size :: "u32 list"
  t_host_mem_high :: u32
  t_host_mem_low :: u32
  t_host_mem_size :: u32
  t_l2_pkt_mem :: u32
  t_home_cluster_id :: u32
  t_flow_id :: u32

definition HWSCHED_HANDLER_MEM_ADDR :: u32 where "HWSCHED_HANDLER_MEM_ADDR = 0x1B205008"

definition load_task :: "(u32 \<Rightarrow> u32) \<Rightarrow> u32 \<Rightarrow> task" where
  "load_task rd p = \<lparr>t_handler_mem = rd p, t_handler_mem_size = rd (p + 4), t_pkt_mem = rd (p + 8),
     t_pkt_mem_size = rd (p + 12), t_scratchpad = [rd (p + 16), rd (p + 20)],
     t_scratchpad_size = [rd (p + 32), rd (p + 36)], t_host_mem_high = rd (p + 48), t_host_mem_low = rd (p + 52),
     t_host_mem_size = rd (p + 56), t_l2_pkt_mem = rd (p + 60), t_home_cluster_id = rd (p + 64),
     t_flow_id = rd (p + 68)\<rparr>"

text \<open>\<open>HOST_ADDR\<close> and the addresses derived from it, and the check of the window's size.\<close>

definition CORE_COUNT :: u64 where "CORE_COUNT = 16"
definition NIC_PAGE_SIZE :: u64 where "NIC_PAGE_SIZE = 4096"
definition NIC_DMA_ALIGN :: u64 where "NIC_DMA_ALIGN = 512 div 8"

definition HOST_ADDR :: "task \<Rightarrow> u64" where
  "HOST_ADDR t = push_bit 32 (ucast (t_host_mem_high t)) OR ucast (t_host_mem_low t)"

definition HOST_ADDR_HPU :: "task \<Rightarrow> u32 \<Rightarrow> u64" where
  "HOST_ADDR_HPU t hpu_gid = HOST_ADDR t + ucast hpu_gid * NIC_PAGE_SIZE"

definition HOST_PLD_ADDR :: "task \<Rightarrow> u32 \<Rightarrow> u64" where
  "HOST_PLD_ADDR t hpu_gid = HOST_ADDR_HPU t hpu_gid + NIC_DMA_ALIGN"

definition fpspin_check_host_mem :: "task \<Rightarrow> bool" where
  "fpspin_check_host_mem t \<longleftrightarrow> HOST_ADDR t \<noteq> 0 \<and> ucast (t_host_mem_size t) \<ge> CORE_COUNT * NIC_PAGE_SIZE"

text \<open>
  Property C24. The C structure of the task lies on the registers of the HPU driver field by field:
  a handler sees the handler memory, the packet in L1 and L2, the scratchpads of both clusters, the
  full 64-bit host address and its size, the home cluster and the message id of the job it was given.
\<close>

theorem task_layout:
  "load_task (\<lambda>a. the (task_rdata t a)) HWSCHED_HANDLER_MEM_ADDR
   = \<lparr>t_handler_mem = ht_handler_mem_addr t, t_handler_mem_size = ht_handler_mem_size t, t_pkt_mem = ht_pkt_ptr t,
      t_pkt_mem_size = ht_pkt_size t, t_scratchpad = [l1_scratchpad_addr t 0, l1_scratchpad_addr t 1],
      t_scratchpad_size = [ht_scratchpad_size t ! 0, ht_scratchpad_size t ! 1],
      t_host_mem_high = ucast (drop_bit 32 (ht_host_mem_addr t)), t_host_mem_low = ucast (ht_host_mem_addr t),
      t_host_mem_size = ht_host_mem_size t, t_l2_pkt_mem = ht_pkt_addr t,
      t_home_cluster_id = ht_msgid t AND 1, t_flow_id = ht_msgid t AND 0x3ff\<rparr>
   \<and> HOST_ADDR (load_task (\<lambda>a. the (task_rdata t a)) HWSCHED_HANDLER_MEM_ADDR) = ht_host_mem_addr t"
proof -
  have "push_bit 32 (ucast (ucast (drop_bit 32 w) :: u32)) OR ucast (ucast w :: u32) = w" for w :: u64
    using word64_halves [of w] by (simp add: word64_def or.commute)
  then show ?thesis
    by (simp add: load_task_def task_rdata_def HWSCHED_HANDLER_MEM_ADDR_def Let_def HOST_ADDR_def)
qed

section \<open>Commands as the software writes them\<close>

definition cmd_base :: u32 where "cmd_base = 0x1b205000"

text \<open>The stores of a command, in order; the load at offset 128 that follows issues it.\<close>

type_synonym stores = "(u32 \<times> u32) list"

definition spin_rdma_put :: "u32 \<Rightarrow> u32 \<Rightarrow> u32 \<Rightarrow> stores" where
  "spin_rdma_put dest data len =
     (let fid = 1; src_addr_high = 0; cmd_info = 2
      in [(cmd_base + 144, dest), (cmd_base + 148, fid), (cmd_base + 152, data), (cmd_base + 156, src_addr_high),
          (cmd_base + 160, len), (cmd_base + 140, cmd_info)])"

definition spin_send_packet :: "u32 \<Rightarrow> u32 \<Rightarrow> stores" where
  "spin_send_packet data len =
     (let dest = 0; fid = 0; src_addr_high = 0; cmd_info = 2
      in [(cmd_base + 144, dest), (cmd_base + 148, fid), (cmd_base + 152, data), (cmd_base + 156, src_addr_high),
          (cmd_base + 160, len), (cmd_base + 140, cmd_info)])"

definition spin_dma_to_host :: "u64 \<Rightarrow> u32 \<Rightarrow> u32 \<Rightarrow> bool \<Rightarrow> stores" where
  "spin_dma_to_host host_addr nic_addr len generate_event =
     (let host_address_high = ucast (drop_bit 32 host_addr); host_address_low = ucast host_addr;
          direction = 1; cmd_info = of_bool generate_event
      in [(cmd_base + 148, host_address_high), (cmd_base + 144, host_address_low), (cmd_base + 152, nic_addr),
          (cmd_base + 156, len), (cmd_base + 160, direction), (cmd_base + 140, cmd_info)])"

definition spin_dma_from_host :: "u64 \<Rightarrow> u32 \<Rightarrow> u32 \<Rightarrow> bool \<Rightarrow> stores" where
  "spin_dma_from_host host_addr nic_addr len generate_event =
     (let host_address_high = ucast (drop_bit 32 host_addr); host_address_low = ucast host_addr;
          direction = 0; cmd_info = of_bool generate_event
      in [(cmd_base + 148, host_address_high), (cmd_base + 144, host_address_low), (cmd_base + 152, nic_addr),
          (cmd_base + 156, len), (cmd_base + 160, direction), (cmd_base + 140, cmd_info)])"

definition spin_write_to_host :: "u64 \<Rightarrow> u64 \<Rightarrow> stores" where
  "spin_write_to_host host_addr user_data =
     (let host_address_high = ucast (drop_bit 32 host_addr); host_address_low = ucast host_addr;
          data_high = ucast (drop_bit 32 user_data); data_low = ucast user_data;
          size_and_direction = push_bit 1 0x8 OR 0x1; cmd_info = 4
      in [(cmd_base + 148, host_address_high), (cmd_base + 144, host_address_low),
          (cmd_base + 152, size_and_direction), (cmd_base + 156, data_low), (cmd_base + 160, data_high),
          (cmd_base + 140, cmd_info)])"

section \<open>Commands as the hardware decodes them\<close>

datatype cmd_type = HostMemCpy | NICSend | HostDirect

record cmd_regs =
  cr_words :: "u32 list"
  cr_type :: cmd_type
  cr_event :: bool

definition add_idx :: "u32 \<Rightarrow> nat" where
  "add_idx add = unat (drop_bit 2 add AND 0x1f)"

definition cmd_write :: "u32 \<times> u32 \<Rightarrow> cmd_regs \<Rightarrow> cmd_regs" where
  "cmd_write = (\<lambda>(add, wdata) r.
     if drop_bit 7 add AND 3 \<noteq> 1 then r
     else if add_idx add = 3
     then r\<lparr>cr_type := (let ty = drop_bit 1 wdata AND 3
               in if ty = 0 then HostMemCpy else if ty = 1 then NICSend else if ty = 2 then HostDirect
                  else cr_type r),
            cr_event := bit wdata 0\<rparr>
     else if 4 \<le> add_idx add \<and> add_idx add \<le> 10
     then r\<lparr>cr_words := (cr_words r)[add_idx add - 4 := wdata]\<rparr>
     else r)"

text \<open>
  The packed structures of the command union, from the least significant word on: a copy between NIC
  memory and the host, a packet to send, and immediate data for the host.
\<close>

datatype command =
    HostDma bool u64 u32 u32 bool
  | NicSend u32 u32 u64 u32 bool
  | HostImm bool u64 "u8 list" bool

definition decode_cmd :: "cmd_regs \<Rightarrow> command" where
  "decode_cmd r =
     (let w = cr_words r
      in case cr_type r of
           HostMemCpy \<Rightarrow> HostDma (bit (w ! 4) 0) (word64 (w ! 0) (w ! 1)) (w ! 2) (w ! 3) (cr_event r)
         | NICSend \<Rightarrow> NicSend (w ! 0) (w ! 1) (word64 (w ! 2) (w ! 3)) (w ! 4) (cr_event r)
         | HostDirect \<Rightarrow>
             HostImm (bit (w ! 2) 0) (word64 (w ! 0) (w ! 1))
               (take (unat (drop_bit 1 (w ! 2) AND 0x1ff)) (concat (map bytes32 (drop 3 w)))) (cr_event r))"

definition issued :: "stores \<Rightarrow> cmd_regs \<Rightarrow> command" where
  "issued ss r = decode_cmd (fold cmd_write ss r)"

lemma cmd_addrs:
  "add_idx (cmd_base + 140) = 3" "add_idx (cmd_base + 144) = 4" "add_idx (cmd_base + 148) = 5"
  "add_idx (cmd_base + 152) = 6" "add_idx (cmd_base + 156) = 7" "add_idx (cmd_base + 160) = 8"
  "drop_bit 7 (cmd_base + 140) AND 3 = 1" "drop_bit 7 (cmd_base + 144) AND 3 = 1"
  "drop_bit 7 (cmd_base + 148) AND 3 = 1" "drop_bit 7 (cmd_base + 152) AND 3 = 1"
  "drop_bit 7 (cmd_base + 156) AND 3 = 1" "drop_bit 7 (cmd_base + 160) AND 3 = 1"
  by code_simp+

lemma cmd_write_regs:
  "cmd_write (cmd_base + 144, v) r = r\<lparr>cr_words := (cr_words r)[0 := v]\<rparr>"
  "cmd_write (cmd_base + 148, v) r = r\<lparr>cr_words := (cr_words r)[1 := v]\<rparr>"
  "cmd_write (cmd_base + 152, v) r = r\<lparr>cr_words := (cr_words r)[2 := v]\<rparr>"
  "cmd_write (cmd_base + 156, v) r = r\<lparr>cr_words := (cr_words r)[3 := v]\<rparr>"
  "cmd_write (cmd_base + 160, v) r = r\<lparr>cr_words := (cr_words r)[4 := v]\<rparr>"
  by (simp_all add: cmd_write_def cmd_addrs)

lemma cmd_write_info:
  "cmd_write (cmd_base + 140, 2) r = r\<lparr>cr_type := NICSend, cr_event := False\<rparr>"
  "cmd_write (cmd_base + 140, 4) r = r\<lparr>cr_type := HostDirect, cr_event := False\<rparr>"
  "cmd_write (cmd_base + 140, of_bool e) r = r\<lparr>cr_type := HostMemCpy, cr_event := e\<rparr>"
proof -
  have "drop_bit 1 (2 :: u32) AND 3 = 1" "drop_bit 1 (4 :: u32) AND 3 = 2" "\<not> bit (2 :: u32) 0" "\<not> bit (4 :: u32) 0"
    by code_simp+
  then show "cmd_write (cmd_base + 140, 2) r = r\<lparr>cr_type := NICSend, cr_event := False\<rparr>"
    "cmd_write (cmd_base + 140, 4) r = r\<lparr>cr_type := HostDirect, cr_event := False\<rparr>"
    by (simp_all add: cmd_write_def cmd_addrs Let_def)
  have "drop_bit 1 (1 :: u32) AND 3 = 0" "drop_bit 1 (0 :: u32) AND 3 = 0" "bit (1 :: u32) 0" by code_simp+
  then have "drop_bit 1 (of_bool e :: u32) AND 3 = 0" "bit (of_bool e :: u32) 0 = e" by (cases e; simp)+
  then show "cmd_write (cmd_base + 140, of_bool e) r = r\<lparr>cr_type := HostMemCpy, cr_event := e\<rparr>"
    by (simp add: cmd_write_def cmd_addrs Let_def)
qed

lemma command_codes:
  assumes "length (cr_words r) = 19"
  shows "issued (spin_dma_to_host haddr naddr len ev) r = HostDma True haddr naddr len ev
    \<and> issued (spin_dma_from_host haddr naddr len ev) r = HostDma False haddr naddr len ev
    \<and> issued (spin_write_to_host haddr v) r = HostImm True haddr (bytes64 v) False
    \<and> issued (spin_send_packet naddr len) r = NicSend 0 0 (ucast naddr) len False
    \<and> issued (spin_rdma_put dest naddr len) r = NicSend dest 1 (ucast naddr) len False"
proof (intro conjI)
  obtain w0 w1 w2 w3 w4 ws where r: "cr_words r = w0 # w1 # w2 # w3 # w4 # ws"
  proof -
    have "Suc (Suc (Suc (Suc (Suc 0)))) \<le> length (cr_words r)" using assms by simp
    then show thesis by (auto simp only: Suc_le_length_iff intro: that)
  qed
  note simps = issued_def decode_cmd_def Let_def cmd_write_regs cmd_write_info r word64_halves
  show "issued (spin_dma_to_host haddr naddr len ev) r = HostDma True haddr naddr len ev"
    "issued (spin_dma_from_host haddr naddr len ev) r = HostDma False haddr naddr len ev"
    by (simp_all add: spin_dma_to_host_def spin_dma_from_host_def simps)
  have "word64 n 0 = ucast n" for n by (simp add: word64_def)
  then show "issued (spin_send_packet naddr len) r = NicSend 0 0 (ucast naddr) len False"
    "issued (spin_rdma_put dest naddr len) r = NicSend dest 1 (ucast naddr) len False"
    by (simp_all add: spin_send_packet_def spin_rdma_put_def simps)
  have "unat (drop_bit 1 (push_bit 1 8 OR 1 :: u32) AND 0x1ff) = 8" "bit (push_bit 1 8 OR 1 :: u32) 0" by code_simp+
  then show "issued (spin_write_to_host haddr v) r = HostImm True haddr (bytes64 v) False"
    by (simp add: spin_write_to_host_def simps bytes64_def)
qed

text \<open>
  Property C25. What a handler asks for is what the hardware does, whatever the command registers
  held before: a copy to or from the host has the full 64-bit host address, the NIC address, the
  length, the direction and the event flag of the call; a write to the host delivers exactly the eight
  bytes of the value; a packet is sent from the given address with the given length and queue pair.
\<close>

theorem command_encoding:
  assumes "length (cr_words r) = 19"
  shows "issued (spin_dma_to_host haddr naddr len ev) r = HostDma True haddr naddr len ev
    \<and> issued (spin_dma_from_host haddr naddr len ev) r = HostDma False haddr naddr len ev
    \<and> issued (spin_write_to_host haddr v) r = HostImm True haddr (bytes64 v) False
    \<and> issued (spin_send_packet naddr len) r = NicSend 0 0 (ucast naddr) len False
    \<and> issued (spin_rdma_put dest naddr len) r = NicSend dest 1 (ucast naddr) len False"
  by (rule command_codes [OF assms])

theorem command_encoding_witness:
  "issued (spin_dma_to_host 0x123456789abc0000 0x10014400 1462 True)
      \<lparr>cr_words = replicate 19 7, cr_type = NICSend, cr_event = False\<rparr>
   = HostDma True 0x123456789abc0000 0x10014400 1462 True"
  using command_encoding [of "\<lparr>cr_words = replicate 19 7, cr_type = NICSend, cr_event = False\<rparr>"] by simp

section \<open>Completion of commands\<close>

text \<open>
  The command frontend keeps a bit per local command id that is in flight. A store to the wait
  register blocks until the command with the id in the store data is complete. The test register answers
  a load, and takes the id from the data lines of that very load.
\<close>

definition wt_cmd_idx :: "u32 \<Rightarrow> nat" where
  "wt_cmd_idx wdata = unat (wdata AND 3)"

definition cmd_wait_done :: "bool list \<Rightarrow> u32 \<Rightarrow> bool" where
  "cmd_wait_done in_flight handle \<longleftrightarrow> \<not> in_flight ! wt_cmd_idx handle"

definition cmd_test_rdata :: "bool list \<Rightarrow> u32 \<Rightarrow> u32" where
  "cmd_test_rdata in_flight wdata = (if \<not> in_flight ! wt_cmd_idx wdata then 1 else 0)"

text \<open>\<open>spin_cmd_test\<close>: the store has no effect in the frontend; \<open>bus\<close> is on the data lines of the load.\<close>

definition spin_cmd_test :: "bool list \<Rightarrow> u32 \<Rightarrow> u32 \<Rightarrow> bool" where
  "spin_cmd_test in_flight bus handle \<longleftrightarrow> cmd_test_rdata in_flight bus = 1"

lemma cmd_test_ignores_handle:
  "spin_cmd_test [True, False, False, False] 1 0" "\<not> cmd_wait_done [True, False, False, False] 0"
  by code_simp+

end
