(* ===== verification/Slmp_Nic.thy ===== *)
theory Slmp_Nic
  imports Packets Nic_Cmd
begin

text \<open>
  The SLMP receiver on the NIC (\<open>examples/slmp/handlers/slmp.c\<close>) and the two ping handlers
  (\<open>icmp_ping.c\<close>, \<open>udp_ping.c\<close>): what they read from the packet in L1 memory, the commands they
  issue and how they change the packet. The headers are parsed from and written to packet memory.
\<close>

unbundle bit_operations_syntax

section \<open>Headers in packet memory\<close>

definition get16 :: "u8 list \<Rightarrow> nat \<Rightarrow> u16" where
  "get16 p i = le16 (p ! i) (p ! (i + 1))"

definition get32 :: "u8 list \<Rightarrow> nat \<Rightarrow> u32" where
  "get32 p i = le32 (p ! i) (p ! (i + 1)) (p ! (i + 2)) (p ! (i + 3))"

definition get_eth :: "u8 list \<Rightarrow> eth_hdr" where
  "get_eth p = \<lparr>eth_dest = take 6 p, eth_src = take 6 (drop 6 p), eth_length = get16 p 12\<rparr>"

definition get_ip :: "u8 list \<Rightarrow> ip_hdr" where
  "get_ip p = \<lparr>ihl = ucast (p ! 0), version = ucast (drop_bit 4 (p ! 0)), tos = p ! 1, ip_length = get16 p 2,
     identification = get16 p 4, ip_offset = get16 p 6, ttl = p ! 8, protocol = p ! 9, ip_check = get16 p 10,
     source_id = get32 p 12, dest_id = get32 p 16\<rparr>"

definition get_udp :: "u8 list \<Rightarrow> udp_hdr" where
  "get_udp p = \<lparr>src_port = get16 p 0, dst_port = get16 p 2, udp_length = get16 p 4, udp_check = get16 p 6\<rparr>"

definition get_slmp :: "u8 list \<Rightarrow> slmp_hdr" where
  "get_slmp p = \<lparr>slmp_flags = get16 p 0, msg_id = get32 p 2, pkt_off = get32 p 6\<rparr>"

definition get_slmp_pkt :: "u8 list \<Rightarrow> slmp_pkt_hdr" where
  "get_slmp_pkt p = \<lparr>sp_eth = get_eth p, sp_ip = get_ip (drop 14 p), sp_udp = get_udp (drop 34 p),
     sp_slmp = get_slmp (drop 42 p)\<rparr>"

definition get_pkt :: "u8 list \<Rightarrow> pkt_hdr" where
  "get_pkt p = \<lparr>ph_eth = get_eth p, ph_ip = get_ip (drop 14 p), ph_udp = get_udp (drop 34 p)\<rparr>"

definition eth_hdr_bytes :: "eth_hdr \<Rightarrow> u8 list" where
  "eth_hdr_bytes h = eth_dest h @ eth_src h @ bytes16 (eth_length h)"

definition udp_hdr_bytes :: "udp_hdr \<Rightarrow> u8 list" where
  "udp_hdr_bytes h = bytes16 (src_port h) @ bytes16 (dst_port h) @ bytes16 (udp_length h) @ bytes16 (udp_check h)"

definition slmp_hdr_bytes :: "slmp_hdr \<Rightarrow> u8 list" where
  "slmp_hdr_bytes h = bytes16 (slmp_flags h) @ bytes32 (msg_id h) @ bytes32 (pkt_off h)"

definition slmp_pkt_bytes :: "slmp_pkt_hdr \<Rightarrow> u8 list" where
  "slmp_pkt_bytes h = eth_hdr_bytes (sp_eth h) @ ip_hdr_bytes (sp_ip h) @ udp_hdr_bytes (sp_udp h) @ slmp_hdr_bytes (sp_slmp h)"

definition pkt_bytes :: "pkt_hdr \<Rightarrow> u8 list" where
  "pkt_bytes h = eth_hdr_bytes (ph_eth h) @ ip_hdr_bytes (ph_ip h) @ udp_hdr_bytes (ph_udp h)"

definition eth_ok :: "eth_hdr \<Rightarrow> bool" where
  "eth_ok h \<longleftrightarrow> length (eth_dest h) = 6 \<and> length (eth_src h) = 6"

lemma length_hdr_bytes [simp]:
  "eth_ok e \<Longrightarrow> length (eth_hdr_bytes e) = 14" "length (ip_hdr_bytes i) = 20" "length (udp_hdr_bytes u) = 8"
  "length (slmp_hdr_bytes s) = 10"
  by (simp_all add: eth_ok_def eth_hdr_bytes_def udp_hdr_bytes_def slmp_hdr_bytes_def sizeof_ip_hdr_def)

lemma length_slmp_pkt_bytes: "eth_ok (sp_eth h) \<Longrightarrow> length (slmp_pkt_bytes h) = 52"
  by (simp add: slmp_pkt_bytes_def sizeof_ip_hdr_def)

lemma le16_bytes16 [simp]: "le16 (ucast v) (ucast (drop_bit 8 v)) = v" for v :: u16
proof (rule bit_word_eqI)
  fix n assume "n < LENGTH(16)"
  then show "bit (le16 (ucast v) (ucast (drop_bit 8 v))) n = bit v n"
    by (cases "8 \<le> n") (auto simp: le16_def bit_simps)
qed

lemma le32_bytes32_parts [simp]:
  "le32 (ucast v) (ucast (drop_bit 8 v)) (ucast (drop_bit 16 v)) (ucast (drop_bit 24 v)) = v" for v :: u32
  by (rule le32_bytes32) (simp add: bytes32_def)

lemma get16_bytes [simp]: "get16 (bytes16 v @ r) 0 = v"
  by (simp add: get16_def bytes16_def)

lemma get32_bytes [simp]: "get32 (bytes32 v @ r) 0 = v"
  by (simp add: get32_def bytes32_def)

lemma get_append: "get16 (a @ r) (length a + i) = get16 r i" "get32 (a @ r) (length a + i) = get32 r i"
  by (simp_all add: get16_def get32_def nth_append ac_simps)

lemma get_udp_bytes [simp]: "get_udp (udp_hdr_bytes h @ r) = h"
  by (simp add: get_udp_def udp_hdr_bytes_def get16_def bytes16_def)

lemma get_slmp_bytes [simp]: "get_slmp (slmp_hdr_bytes h @ r) = h"
  by (simp add: get_slmp_def slmp_hdr_bytes_def get16_def get32_def bytes16_def bytes32_def)

lemma get_eth_bytes [simp]: "eth_ok h \<Longrightarrow> get_eth (eth_hdr_bytes h @ r) = h"
proof -
  assume h: "eth_ok h"
  have "get16 ((eth_dest h @ eth_src h) @ bytes16 (eth_length h) @ r) 12 = eth_length h"
    using h get_append(1) [of "eth_dest h @ eth_src h" "bytes16 (eth_length h) @ r" 0] by (simp add: eth_ok_def)
  with h show ?thesis by (simp add: get_eth_def eth_hdr_bytes_def eth_ok_def)
qed

lemma nibbles: "ucast (ucast i OR push_bit 4 (ucast v) :: u8) = (i :: 4 word)"
    "ucast (drop_bit 4 (ucast i) OR drop_bit 4 (push_bit 4 (ucast v)) :: u8) = (v :: 4 word)"
proof -
  have n: "\<not> bit (w :: 4 word) k" if "4 \<le> k" for w k using that by (auto dest: bit_imp_le_length)
  show "ucast (ucast i OR push_bit 4 (ucast v) :: u8) = (i :: 4 word)"
    "ucast (drop_bit 4 (ucast i) OR drop_bit 4 (push_bit 4 (ucast v)) :: u8) = (v :: 4 word)"
    by (auto simp: bit_simps n intro!: bit_word_eqI)
qed

lemma get_ip_bytes [simp]: "get_ip (ip_hdr_bytes h @ r) = h"
  by (simp add: get_ip_def ip_hdr_bytes_def get16_def get32_def bytes16_def bytes32_def nibbles)

lemma get_slmp_pkt_bytes:
  assumes "eth_ok (sp_eth h)"
  shows "get_slmp_pkt (slmp_pkt_bytes h @ r) = h"
proof -
  have "drop 14 (slmp_pkt_bytes h @ r) = ip_hdr_bytes (sp_ip h) @ udp_hdr_bytes (sp_udp h) @ slmp_hdr_bytes (sp_slmp h) @ r"
    "drop 34 (slmp_pkt_bytes h @ r) = udp_hdr_bytes (sp_udp h) @ slmp_hdr_bytes (sp_slmp h) @ r"
    "drop 42 (slmp_pkt_bytes h @ r) = slmp_hdr_bytes (sp_slmp h) @ r"
    using assms by (simp_all add: slmp_pkt_bytes_def sizeof_ip_hdr_def)
  then show ?thesis using assms by (simp add: get_slmp_pkt_def) (simp add: slmp_pkt_bytes_def)
qed

section \<open>SLMP handlers\<close>

text \<open>What a handler does besides changing the packet: commands, a request to the host, or an error message.\<close>

datatype nic_action = Issue stores | HostReq u32 | Printed | Count nat u32

definition prepare_hdrs_ack :: "slmp_pkt_hdr \<Rightarrow> u16 \<Rightarrow> slmp_pkt_hdr" where
  "prepare_hdrs_ack hdrs flags =
     (let udp = (sp_udp hdrs)\<lparr>dst_port := src_port (sp_udp hdrs), src_port := dst_port (sp_udp hdrs)\<rparr>;
          ip = (sp_ip hdrs)\<lparr>dest_id := source_id (sp_ip hdrs), source_id := dest_id (sp_ip hdrs)\<rparr>;
          eth = (sp_eth hdrs)\<lparr>eth_dest := eth_src (sp_eth hdrs), eth_src := eth_dest (sp_eth hdrs)\<rparr>;
          ip = ip\<lparr>ip_length := htons (of_nat (sizeof_ip_hdr + sizeof_udp_hdr + sizeof_slmp_hdr)), ip_check := 0\<rparr>;
          ip = ip\<lparr>ip_check := ip_checksum (ip_hdr_bytes ip)\<rparr>;
          udp = udp\<lparr>udp_length := htons (of_nat (sizeof_slmp_hdr + sizeof_udp_hdr)), udp_check := 0\<rparr>
      in \<lparr>sp_eth = eth, sp_ip = ip, sp_udp = udp, sp_slmp = (sp_slmp hdrs)\<lparr>slmp_flags := htons flags\<rparr>\<rparr>)"

text \<open>The header structure overlays the first 52 bytes of packet memory.\<close>

definition put_hdrs :: "slmp_pkt_hdr \<Rightarrow> u8 list \<Rightarrow> u8 list" where
  "put_hdrs hdrs pkt = slmp_pkt_bytes hdrs @ drop sizeof_slmp_pkt_hdr pkt"

definition send_ack :: "slmp_pkt_hdr \<Rightarrow> task \<Rightarrow> u8 list \<Rightarrow> nic_action \<times> u8 list" where
  "send_ack hdrs t pkt =
     (Issue (spin_send_packet (t_pkt_mem t) (of_nat sizeof_slmp_pkt_hdr)), put_hdrs (prepare_hdrs_ack hdrs MKACK) pkt)"

definition slmp_hh :: "u8 list \<Rightarrow> nic_action list" where
  "slmp_hh pkt =
     (let hdrs = get_slmp_pkt pkt;
          off = ntohl (pkt_off (sp_slmp hdrs));
          flags = ntohs (slmp_flags (sp_slmp hdrs))
      in if off \<noteq> 0 then [Printed] else if \<not> SYN flags then [Printed] else [])"

definition slmp_th :: "u8 list \<Rightarrow> nic_action list" where
  "slmp_th pkt =
     (let hdrs = get_slmp_pkt pkt;
          off = ntohl (pkt_off (sp_slmp hdrs));
          flags = ntohs (slmp_flags (sp_slmp hdrs))
      in if \<not> EOM flags then [Printed]
         else [HostReq (off + SLMP_PAYLOAD_LEN hdrs)])"

definition slmp_ph :: "task \<Rightarrow> u8 list \<Rightarrow> nic_action list \<times> u8 list" where
  "slmp_ph t pkt =
     (let hdrs = get_slmp_pkt pkt;
          payload = t_pkt_mem t + of_nat sizeof_slmp_pkt_hdr;
          off = ntohl (pkt_off (sp_slmp hdrs));
          flags = ntohs (slmp_flags (sp_slmp hdrs));
          host_start_addr = HOST_ADDR t + CORE_COUNT * NIC_PAGE_SIZE;
          dma = Issue (spin_dma_to_host (host_start_addr + ucast off) payload (SLMP_PAYLOAD_LEN hdrs) False)
      in if SYN flags then (let (ack, pkt) = send_ack hdrs t pkt in ([dma, ack], pkt)) else ([dma], pkt))"

section \<open>Effect on host memory\<close>

definition host_store :: "(u64 \<Rightarrow> u8) \<Rightarrow> u64 \<Rightarrow> u8 list \<Rightarrow> u64 \<Rightarrow> u8" where
  "host_store m a bs = (\<lambda>x. if unat (x - a) < length bs then bs ! unat (x - a) else m x)"

definition reset_regs :: cmd_regs where
  "reset_regs = \<lparr>cr_words = replicate 19 0, cr_type = HostMemCpy, cr_event = False\<rparr>"

text \<open>What the command of a handler does to host memory, with the packet at \<open>pkt_mem\<close> in L1.\<close>

fun run_action :: "u32 \<Rightarrow> u8 list \<Rightarrow> nic_action \<Rightarrow> (u64 \<Rightarrow> u8) \<Rightarrow> u64 \<Rightarrow> u8" where
  "run_action pkt_mem pkt (Issue ss) m =
     (case issued ss reset_regs of
        HostDma True haddr naddr len ev \<Rightarrow> host_store m haddr (take (unat len) (drop (unat (naddr - pkt_mem)) pkt))
      | HostImm True haddr bs ev \<Rightarrow> host_store m haddr bs
      | _ \<Rightarrow> m)"
| "run_action pkt_mem pkt (HostReq n) m = m"
| "run_action pkt_mem pkt Printed m = m"
| "run_action pkt_mem pkt (Count c d) m = m"

lemma issued_reset:
  "issued (spin_dma_to_host haddr naddr len ev) reset_regs = HostDma True haddr naddr len ev"
  "issued (spin_send_packet naddr len) reset_regs = NicSend 0 0 (ucast naddr) len False"
  using command_codes [of reset_regs] by (simp_all add: reset_regs_def)

lemma host_store_nth:
  assumes "i < length bs" "length bs \<le> 2 ^ 32"
  shows "host_store m a bs (a + of_nat i) = bs ! i"
proof -
  have "unat (of_nat i :: u64) = i" using assms by (simp add: unat_of_nat take_bit_nat_eq_self)
  then show ?thesis using assms(1) by (simp add: host_store_def)
qed

text \<open>A packet as it arrives: headers, payload, and the padding of a short Ethernet frame.\<close>

definition slmp_wire :: "slmp_pkt_hdr \<Rightarrow> u8 list \<Rightarrow> u8 list \<Rightarrow> u8 list" where
  "slmp_wire h payload pad = slmp_pkt_bytes h @ payload @ pad"

definition slmp_wire_ok :: "slmp_pkt_hdr \<Rightarrow> u8 list \<Rightarrow> bool" where
  "slmp_wire_ok h payload \<longleftrightarrow> eth_ok (sp_eth h) \<and> length payload + 18 < 2 ^ 16
     \<and> ntohs (udp_length (sp_udp h)) = of_nat (length payload + 18)"

lemma slmp_payload_len:
  assumes "slmp_wire_ok h payload"
  shows "SLMP_PAYLOAD_LEN h = of_nat (length payload)" "unat (SLMP_PAYLOAD_LEN h) = length payload"
proof -
  have n: "length payload + 18 < 2 ^ 16" using assms by (simp add: slmp_wire_ok_def)
  have "unat (of_nat (length payload + 18) :: u16) = length payload + 18"
    using n by (simp add: unat_of_nat take_bit_nat_eq_self del: of_nat_add)
  then have "(ucast (of_nat (length payload + 18) :: u16) :: u32) = of_nat (length payload + 18)"
    using n by (simp add: word_unat_eq_iff unat_of_nat take_bit_nat_eq_self del: of_nat_add)
  then show l: "SLMP_PAYLOAD_LEN h = of_nat (length payload)"
    using assms by (simp add: SLMP_PAYLOAD_LEN_def slmp_wire_ok_def sizeof_defs)
  show "unat (SLMP_PAYLOAD_LEN h) = length payload" using n by (simp add: l unat_of_nat take_bit_nat_eq_self)
qed

text \<open>What \<open>slmp_ph\<close> does to host memory: the payload is stored at its offset in the message area.\<close>

lemma slmp_ph_store:
  assumes "slmp_wire_ok h payload"
  shows "fold (run_action (t_pkt_mem t) (slmp_wire h payload pad)) (fst (slmp_ph t (slmp_wire h payload pad))) m
    = host_store m (HOST_ADDR t + 0x10000 + ucast (ntohl (pkt_off (sp_slmp h)))) payload"
proof -
  have e: "eth_ok (sp_eth h)" using assms by (simp add: slmp_wire_ok_def)
  have g: "get_slmp_pkt (slmp_wire h payload pad) = h" unfolding slmp_wire_def by (rule get_slmp_pkt_bytes [OF e])
  have d: "drop 52 (slmp_wire h payload pad) = payload @ pad"
    using length_slmp_pkt_bytes [OF e] by (simp add: slmp_wire_def)
  have w: "CORE_COUNT * NIC_PAGE_SIZE = 0x10000" by (simp add: CORE_COUNT_def NIC_PAGE_SIZE_def)
  show ?thesis
    by (simp add: slmp_ph_def Let_def g send_ack_def issued_reset slmp_payload_len(2) [OF assms] sizeof_defs d w)
qed




definition example_slmp_hdr :: slmp_pkt_hdr where
  "example_slmp_hdr = \<lparr>sp_eth = \<lparr>eth_dest = [0,0,0,0,0,1], eth_src = [0,0,0,0,0,2], eth_length = 8\<rparr>,
     sp_ip = \<lparr>ihl = 5, version = 4, tos = 0, ip_length = 0, identification = 0, ip_offset = 0, ttl = 64, protocol = 17,
       ip_check = 0, source_id = 0x0200000a, dest_id = 0x0100000a\<rparr>,
     sp_udp = \<lparr>src_port = 0x1234, dst_port = 0x7224, udp_length = htons 22, udp_check = 0\<rparr>,
     sp_slmp = \<lparr>slmp_flags = htons MKSYN, msg_id = htonl 7, pkt_off = 0\<rparr>\<rparr>"

definition example_task :: task where
  "example_task = \<lparr>t_handler_mem = 0, t_handler_mem_size = 0, t_pkt_mem = 0x10004400, t_pkt_mem_size = 60,
     t_scratchpad = [0, 0], t_scratchpad_size = [0, 0], t_host_mem_high = 1, t_host_mem_low = 0x2000,
     t_host_mem_size = 0x20000, t_l2_pkt_mem = 0, t_home_cluster_id = 0, t_flow_id = 7\<rparr>"



text \<open>
  The payload handler does not compare the offset of a packet with the size of the host memory
  window: here the window has 0x20000 bytes and the packet is stored behind it.
\<close>

lemma slmp_ph_leaves_window:
  "\<exists>ss haddr naddr len ev. fst (slmp_ph example_task (slmp_wire
        (example_slmp_hdr\<lparr>sp_slmp := \<lparr>slmp_flags = 0, msg_id = 0, pkt_off = htonl 0x10000\<rparr>\<rparr>) [1, 2, 3, 4] [])) = [Issue ss]
     \<and> issued ss reset_regs = HostDma True haddr naddr len ev
     \<and> haddr = HOST_ADDR example_task + ucast (t_host_mem_size example_task)"
proof -
  let ?h = "example_slmp_hdr\<lparr>sp_slmp := \<lparr>slmp_flags = 0, msg_id = 0, pkt_off = htonl 0x10000\<rparr>\<rparr>"
  have e: "eth_ok (sp_eth ?h)" by (simp add: example_slmp_hdr_def eth_ok_def)
  have "get_slmp_pkt (slmp_wire ?h [1, 2, 3, 4] []) = ?h" unfolding slmp_wire_def by (rule get_slmp_pkt_bytes [OF e])
  moreover have "\<not> SYN (ntohs 0)" by code_simp
  ultimately show ?thesis
    by (auto simp: slmp_ph_def Let_def issued_reset CORE_COUNT_def NIC_PAGE_SIZE_def example_task_def)
qed

end
