(* ===== verification/Ping_Nic.thy ===== *)
theory Ping_Nic
  imports Slmp_Nic
begin

text \<open>
  The ping handlers on the NIC: \<open>icmp_ping.c\<close>, which answers an ICMP echo request itself or lets the
  host do it, and \<open>udp_ping.c\<close>, which returns a UDP packet to its sender. What the host puts into its page
  and the length it answers with are a parameter.
\<close>

unbundle bit_operations_syntax

section \<open>Exchange of the addresses\<close>

definition swap_eth :: "eth_hdr \<Rightarrow> eth_hdr" where
  "swap_eth h = h\<lparr>eth_src := eth_dest h, eth_dest := eth_src h\<rparr>"

definition swap_ip :: "ip_hdr \<Rightarrow> ip_hdr" where
  "swap_ip h = h\<lparr>source_id := dest_id h, dest_id := source_id h\<rparr>"

definition swap_udp :: "udp_hdr \<Rightarrow> udp_hdr" where
  "swap_udp h = h\<lparr>src_port := dst_port h, dst_port := src_port h\<rparr>"

definition icmp_swap :: "u8 list \<Rightarrow> u8 list" where
  "icmp_swap pkt = eth_hdr_bytes (swap_eth (get_eth pkt)) @ ip_hdr_bytes (swap_ip (get_ip (drop 14 pkt))) @ drop 34 pkt"

definition udp_swap :: "u8 list \<Rightarrow> u8 list" where
  "udp_swap pkt = pkt_bytes (let h = get_pkt pkt in \<lparr>ph_eth = swap_eth (ph_eth h), ph_ip = swap_ip (ph_ip h),
     ph_udp = swap_udp (ph_udp h)\<rparr>) @ drop 42 pkt"

section \<open>The handlers\<close>

text \<open>
  The part that both handlers share: the packet goes to the page of the HPU, the host answers with a
  length, and that many bytes of the page come back into packet memory.
\<close>

definition host_roundtrip :: "(u8 list \<Rightarrow> u8 list \<times> u32) \<Rightarrow> task \<Rightarrow> u32 \<Rightarrow> u16 \<Rightarrow> u8 list
    \<Rightarrow> nic_action list \<times> u16 \<times> u8 list" where
  "host_roundtrip host t hpu_gid pkt_len pkt =
     (let (page, len) = host (take (unat pkt_len) pkt);
          host_pkt_len = ucast len
      in ([Issue (spin_dma_to_host (HOST_PLD_ADDR t hpu_gid) (t_pkt_mem t) (ucast pkt_len) True),
           HostReq (ucast pkt_len),
           Issue (spin_dma_from_host (HOST_PLD_ADDR t hpu_gid) (t_pkt_mem t) (ucast host_pkt_len) True)],
          host_pkt_len, take (unat host_pkt_len) page @ drop (unat host_pkt_len) pkt))"

text \<open>The echo reply that the NIC makes itself: type and checksum of the ICMP header at offset 34.\<close>

definition icmp_reply :: "u16 \<Rightarrow> u8 list \<Rightarrow> u8 list" where
  "icmp_reply ip_len pkt =
     (let icmp_len = ip_len - of_nat sizeof_ip_hdr;
          icmp = drop 34 pkt;
          code = icmp ! 1;
          rest = drop 4 icmp;
          checksum = ip_checksum_timo (take (unat icmp_len) ([0, code, 0, 0] @ rest))
      in take 34 pkt @ [0, code] @ bytes16 checksum @ rest)"

definition icmp_pingpong_ph :: "bool \<Rightarrow> (u8 list \<Rightarrow> u8 list \<times> u32) \<Rightarrow> task \<Rightarrow> u32 \<Rightarrow> u8 list
    \<Rightarrow> nic_action list \<times> u8 list" where
  "icmp_pingpong_ph DO_HOST host t hpu_gid pkt =
     (let pkt_len = ucast (t_pkt_mem_size t);
          pkt = icmp_swap pkt
      in if DO_HOST \<and> fpspin_check_host_mem t
         then (let (acts, pkt_len, pkt) = host_roundtrip host t hpu_gid pkt_len pkt
               in (acts @ [Issue (spin_send_packet (t_pkt_mem t) (ucast pkt_len))], pkt))
         else (let ip_len = ntohs (ip_length (get_ip (drop 14 pkt)));
                   pkt = icmp_reply ip_len pkt;
                   pkt_len = ip_len + of_nat sizeof_eth_hdr
               in ([Issue (spin_send_packet (t_pkt_mem t) (ucast pkt_len))], pkt)))"

text \<open>
  The UDP handler also counts cycles: \<open>cycles i\<close> is the value of the cycle counter at its \<open>i\<close>-th reading.
\<close>

definition udp_pingpong_ph :: "bool \<Rightarrow> (u8 list \<Rightarrow> u8 list \<times> u32) \<Rightarrow> (nat \<Rightarrow> u32) \<Rightarrow> task \<Rightarrow> u32 \<Rightarrow> u8 list
    \<Rightarrow> nic_action list \<times> u8 list" where
  "udp_pingpong_ph DO_HOST host cycles t hpu_gid pkt =
     (let start_cycles = cycles 0;
          start = cycles 1;
          pkt_len = ucast (t_pkt_mem_size t);
          pkt = udp_swap pkt
      in if DO_HOST \<and> fpspin_check_host_mem t
         then (let host_start = cycles 2;
                   (acts, pkt_len, pkt) = host_roundtrip host t hpu_gid pkt_len pkt
               in ([Count 2 (start - start_cycles)] @ acts @ [Count 1 (cycles 3 - host_start),
                    Issue (spin_send_packet (t_pkt_mem t) (ucast pkt_len)), Count 0 (cycles 4 - start)], pkt))
         else ([Count 2 (start - start_cycles), Issue (spin_send_packet (t_pkt_mem t) (ucast pkt_len)),
                Count 0 (cycles 2 - start)], pkt))"

section \<open>Checksums survive the exchange\<close>

lemma be_sum_swap_ip: "be_sum (ip_hdr_bytes (swap_ip h)) = be_sum (ip_hdr_bytes h)"
proof -
  let ?pre = "[ucast (ihl h) OR push_bit 4 (ucast (version h)), tos h] @ bytes16 (ip_length h)
    @ bytes16 (identification h) @ bytes16 (ip_offset h) @ [ttl h, protocol h] @ bytes16 (ip_check h)"
  have e: "even (length ?pre)" by simp
  have "be_sum (ip_hdr_bytes h) = be_sum ?pre + (be_sum (bytes32 (source_id h)) + be_sum (bytes32 (dest_id h)))"
    using be_sum_append [OF e] by (simp add: ip_hdr_bytes_def be_sum_append)
  moreover have "be_sum (ip_hdr_bytes (swap_ip h)) = be_sum ?pre + (be_sum (bytes32 (dest_id h)) + be_sum (bytes32 (source_id h)))"
    using be_sum_append [OF e] by (simp add: ip_hdr_bytes_def swap_ip_def be_sum_append)
  ultimately show ?thesis by simp
qed

lemma ip_checksum_swap: "ip_checksum (ip_hdr_bytes (swap_ip h)) = ip_checksum (ip_hdr_bytes h)"
  by (simp add: ip_checksum_oc be_sum_swap_ip)

lemma icmp_swap_bytes:
  assumes "eth_ok e"
  shows "icmp_swap (eth_hdr_bytes e @ ip_hdr_bytes i @ r) = eth_hdr_bytes (swap_eth e) @ ip_hdr_bytes (swap_ip i) @ r"
    "eth_ok (swap_eth e)"
  using assms by (simp_all add: icmp_swap_def sizeof_ip_hdr_def) (simp add: eth_ok_def swap_eth_def)

text \<open>
  Property C32. The echo reply of the NIC: for a request whose IP length lies within the packet and whose
  IP checksum is right, the handler sends exactly the IP packet and its Ethernet header, with source
  and destination exchanged, type echo reply, code and data unchanged, and both the IP header
  checksum and the ICMP checksum right.
\<close>

theorem icmp_echo_reply:
  assumes "eth_ok e" "ip_checksum (ip_hdr_bytes i) = 0" "\<not> DO_HOST \<or> \<not> fpspin_check_host_mem t"
    and "28 \<le> unat (ntohs (ip_length i))" "unat (ntohs (ip_length i)) \<le> 20 + length icmp" "unat (ntohs (ip_length i)) + 14 < 2 ^ 16"
  shows "\<exists>ss ck. icmp_pingpong_ph DO_HOST host t hpu_gid (eth_hdr_bytes e @ ip_hdr_bytes i @ icmp)
      = ([Issue ss], eth_hdr_bytes (swap_eth e) @ ip_hdr_bytes (swap_ip i) @ [0, icmp ! 1] @ bytes16 ck @ drop 4 icmp)
    \<and> issued ss reset_regs = NicSend 0 0 (ucast (t_pkt_mem t)) (of_nat (unat (ntohs (ip_length i)) + 14)) False
    \<and> ip_checksum (ip_hdr_bytes (swap_ip i)) = 0
    \<and> ip_checksum (take (unat (ntohs (ip_length i)) - 20) ([0, icmp ! 1] @ bytes16 ck @ drop 4 icmp)) = 0"
proof -
  define n where "n = unat (ntohs (ip_length i)) - 20"
  have n: "8 \<le> n" "n \<le> length icmp" "n + 20 = unat (ntohs (ip_length i))" using assms(4,5) by (simp_all add: n_def)
  have len: "unat (ntohs (ip_length i) - of_nat sizeof_ip_hdr) = n"
    using assms(4) by (simp add: unat_sub_le n_def sizeof_ip_hdr_def word_le_nat_alt)
  let ?rest = "drop 4 icmp" and ?code = "icmp ! 1"
  define ck where "ck = ip_checksum_timo (take n ([0, ?code, 0, 0] @ ?rest))"
  have sw: "icmp_swap (eth_hdr_bytes e @ ip_hdr_bytes i @ icmp) = eth_hdr_bytes (swap_eth e) @ ip_hdr_bytes (swap_ip i) @ icmp"
    "eth_ok (swap_eth e)" by (rule icmp_swap_bytes [OF assms(1)])+
  have gi: "get_ip (drop 14 (eth_hdr_bytes (swap_eth e) @ ip_hdr_bytes (swap_ip i) @ icmp)) = swap_ip i"
    using sw(2) by simp
  have tk: "take n ([0, ?code, 0, 0] @ ?rest) = [0, ?code] @ [0, 0] @ take (n - 4) ?rest"
    "take n ([0, ?code] @ bytes16 c @ ?rest) = [0, ?code] @ bytes16 c @ take (n - 4) ?rest" for c
    using n(1) by (simp_all add: take_Cons' bytes16_def numeral_eq_Suc)
  have "length (take n ([0, ?code, 0, 0] @ ?rest)) \<le> 131072" using n(3) assms(6) by simp
  then have "ck = ip_checksum (take n ([0, ?code, 0, 0] @ ?rest))" unfolding ck_def by (rule timo_checksum_eq)
  then have ok: "ip_checksum (take n ([0, ?code] @ bytes16 ck @ ?rest)) = 0"
    using checksum_closes [of "[0, ?code]" "take (n - 4) ?rest"] unfolding tk by simp
  have "(ucast (ntohs (ip_length i) + of_nat sizeof_eth_hdr) :: u32) = of_nat (unat (ntohs (ip_length i)) + 14)"
    using assms(6) by (simp add: word_unat_eq_iff sizeof_eth_hdr_def unat_add_u16 unat_of_nat take_bit_nat_eq_self del: of_nat_add)
  moreover have "icmp_reply (ntohs (ip_length i)) (eth_hdr_bytes (swap_eth e) @ ip_hdr_bytes (swap_ip i) @ icmp)
      = eth_hdr_bytes (swap_eth e) @ ip_hdr_bytes (swap_ip i) @ [0, ?code] @ bytes16 ck @ ?rest"
    using sw(2) by (simp add: icmp_reply_def Let_def len ck_def) (simp add: sizeof_ip_hdr_def)
  moreover have "ip_length (swap_ip i) = ip_length i" by (simp add: swap_ip_def)
  moreover have "(DO_HOST \<and> fpspin_check_host_mem t) = False" using assms(3) by blast
  ultimately have "icmp_pingpong_ph DO_HOST host t hpu_gid (eth_hdr_bytes e @ ip_hdr_bytes i @ icmp)
      = ([Issue (spin_send_packet (t_pkt_mem t) (of_nat (unat (ntohs (ip_length i)) + 14)))],
         eth_hdr_bytes (swap_eth e) @ ip_hdr_bytes (swap_ip i) @ [0, ?code] @ bytes16 ck @ ?rest)"
    unfolding icmp_pingpong_ph_def sw(1) Let_def gi by (simp only: if_False)
  then show ?thesis
    using ok ip_checksum_swap [of i] assms(2) unfolding n_def
    by (intro exI [of _ "spin_send_packet (t_pkt_mem t) (of_nat (unat (ntohs (ip_length i)) + 14))"] exI [of _ ck] conjI)
      (simp_all only: issued_reset)
qed

definition example_ip :: ip_hdr where
  "example_ip = \<lparr>ihl = 5, version = 4, tos = 0, ip_length = htons 32, identification = 0x1234, ip_offset = 0,
     ttl = 64, protocol = 1, ip_check = 0xc932, source_id = 0x0100000a, dest_id = 0x0200000a\<rparr>"

theorem icmp_echo_reply_witness:
  "ip_checksum (ip_hdr_bytes example_ip) = 0
   \<and> (\<exists>ss ck. icmp_pingpong_ph False (\<lambda>p. (p, 0)) example_task 0
      (eth_hdr_bytes (sp_eth example_slmp_hdr) @ ip_hdr_bytes example_ip @ [8, 0, 1, 2, 3, 4, 5, 6, 7, 8, 9, 10])
      = ([Issue ss], eth_hdr_bytes (swap_eth (sp_eth example_slmp_hdr)) @ ip_hdr_bytes (swap_ip example_ip) @ [0, 0] @ bytes16 ck
           @ [3, 4, 5, 6, 7, 8, 9, 10])
    \<and> issued ss reset_regs = NicSend 0 0 (ucast (t_pkt_mem example_task)) 46 False
    \<and> ip_checksum (take 12 ([0, 0] @ bytes16 ck @ [3, 4, 5, 6, 7, 8, 9, 10])) = 0)"
proof -
  have c: "ip_checksum (ip_hdr_bytes example_ip) = 0" "eth_ok (sp_eth example_slmp_hdr)" "unat (ntohs (ip_length example_ip)) = 32"
    by code_simp+
  show ?thesis
    using icmp_echo_reply [OF c(2,1), of False example_task "[8, 0, 1, 2, 3, 4, 5, 6, 7, 8, 9, 10]" "\<lambda>p. (p, 0)" 0] c
    by auto
qed

section \<open>The UDP reply\<close>

text \<open>The checksum of UDP over IPv4 (RFC 768): pseudo header, UDP header and payload.\<close>

definition udp_sum_bytes :: "ip_hdr \<Rightarrow> udp_hdr \<Rightarrow> u8 list \<Rightarrow> u8 list" where
  "udp_sum_bytes i u pld = bytes32 (source_id i) @ bytes32 (dest_id i) @ [0, protocol i] @ bytes16 (udp_length u)
     @ udp_hdr_bytes u @ pld"

lemma udp_checksum_swap: "ip_checksum (udp_sum_bytes (swap_ip i) (swap_udp u) pld) = ip_checksum (udp_sum_bytes i u pld)"
  by (simp add: ip_checksum_oc udp_sum_bytes_def udp_hdr_bytes_def swap_ip_def swap_udp_def be_sum_append ac_simps)

lemma get_pkt_bytes:
  assumes "eth_ok (ph_eth h)"
  shows "get_pkt (pkt_bytes h @ r) = h" "drop 42 (pkt_bytes h @ r) = r"
proof -
  have "drop 14 (pkt_bytes h @ r) = ip_hdr_bytes (ph_ip h) @ udp_hdr_bytes (ph_udp h) @ r"
    "drop 34 (pkt_bytes h @ r) = udp_hdr_bytes (ph_udp h) @ r"
    using assms by (simp_all add: pkt_bytes_def sizeof_ip_hdr_def)
  then show "get_pkt (pkt_bytes h @ r) = h" using assms by (simp add: get_pkt_def pkt_bytes_def)
  show "drop 42 (pkt_bytes h @ r) = r" using assms by (simp add: pkt_bytes_def sizeof_ip_hdr_def)
qed

text \<open>
  Property C33. The UDP ping: without a host the handler sends the received bytes back, with the source and the
  destination of all three headers exchanged and the payload unchanged; the IP checksum and the UDP
  checksum of the reply are those of the request.
\<close>

theorem udp_ping_reply:
  assumes "eth_ok (ph_eth h)" "\<not> DO_HOST \<or> \<not> fpspin_check_host_mem t"
    and "t_pkt_mem_size t = of_nat (42 + length pld)" "42 + length pld < 2 ^ 16"
  shows "\<exists>ss c0 c2. udp_pingpong_ph DO_HOST host cycles t hpu_gid (pkt_bytes h @ pld)
      = ([Count 2 c2, Issue ss, Count 0 c0],
         pkt_bytes \<lparr>ph_eth = swap_eth (ph_eth h), ph_ip = swap_ip (ph_ip h), ph_udp = swap_udp (ph_udp h)\<rparr> @ pld)
    \<and> issued ss reset_regs = NicSend 0 0 (ucast (t_pkt_mem t)) (of_nat (42 + length pld)) False
    \<and> ip_checksum (ip_hdr_bytes (swap_ip (ph_ip h))) = ip_checksum (ip_hdr_bytes (ph_ip h))
    \<and> ip_checksum (udp_sum_bytes (swap_ip (ph_ip h)) (swap_udp (ph_udp h)) pld)
        = ip_checksum (udp_sum_bytes (ph_ip h) (ph_udp h) pld)"
proof -
  have "udp_swap (pkt_bytes h @ pld)
      = pkt_bytes \<lparr>ph_eth = swap_eth (ph_eth h), ph_ip = swap_ip (ph_ip h), ph_udp = swap_udp (ph_udp h)\<rparr> @ pld"
    using get_pkt_bytes [OF assms(1), of pld] by (simp add: udp_swap_def Let_def)
  moreover have "(ucast (ucast (t_pkt_mem_size t) :: u16) :: u32) = of_nat (42 + length pld)"
    using assms(3,4) by (simp add: word_unat_eq_iff unat_of_nat take_bit_nat_eq_self unsigned_ucast_eq unsigned_take_bit_eq del: of_nat_add)
  moreover have c: "(DO_HOST \<and> fpspin_check_host_mem t) = False" using assms(2) by blast
  ultimately show ?thesis
    unfolding udp_pingpong_ph_def Let_def c if_False by (simp add: issued_reset ip_checksum_swap udp_checksum_swap)
qed

theorem udp_ping_reply_witness:
  "\<exists>ss c0 c2. udp_pingpong_ph False (\<lambda>p. (p, 0)) of_nat (example_task\<lparr>t_pkt_mem_size := 44\<rparr>) 0
      (pkt_bytes \<lparr>ph_eth = sp_eth example_slmp_hdr, ph_ip = example_ip, ph_udp = sp_udp example_slmp_hdr\<rparr> @ [1, 2])
      = ([Count 2 c2, Issue ss, Count 0 c0],
         pkt_bytes \<lparr>ph_eth = swap_eth (sp_eth example_slmp_hdr), ph_ip = swap_ip example_ip,
           ph_udp = swap_udp (sp_udp example_slmp_hdr)\<rparr> @ [1, 2])
    \<and> issued ss reset_regs = NicSend 0 0 (ucast (t_pkt_mem example_task)) 44 False"
proof -
  have "eth_ok (sp_eth example_slmp_hdr)" by code_simp
  then show ?thesis
    using udp_ping_reply [of "\<lparr>ph_eth = sp_eth example_slmp_hdr, ph_ip = example_ip, ph_udp = sp_udp example_slmp_hdr\<rparr>"
        False "example_task\<lparr>t_pkt_mem_size := 44\<rparr>" "[1, 2]" "\<lambda>p. (p, 0)" of_nat 0] by auto
qed

end
