(* ===== verification/Slmp_Sender.thy ===== *)
theory Slmp_Sender
  imports Packets "HOL-Library.Multiset"
begin

text \<open>
  The sender of SLMP messages in the host library, \<open>lib/fpspin/slmp.c\<close>: acknowledgements, the
  send window of every thread and the parallel loop over the packets of a message.

  The socket and the clock are a trace: the results of the calls of \<open>recvfrom\<close> and \<open>sendto\<close>, and the results
  of the comparisons of the time with a deadline, in the order of the calls. A function that
  needs more results than the trace has returns None. The trace also collects the packets sent and the
  number of acknowledgements received.
\<close>

unbundle bit_operations_syntax

section \<open>Sockets and their environment\<close>

record slmp_sock =
  sk_wnd_sz :: int
  sk_align :: int
  sk_fc_us :: int
  sk_num_threads :: int

definition SLMP_PAYLOAD_SIZE :: nat where "SLMP_PAYLOAD_SIZE = 1462"

definition slmp_socket :: "int \<Rightarrow> int \<Rightarrow> int \<Rightarrow> int \<Rightarrow> errno + slmp_sock" where
  "slmp_socket wnd_sz align fc_us num_threads =
     (if num_threads \<le> 0 then Inl EINVAL
      else if wnd_sz < 0 then Inl EINVAL
      else Inr \<lparr>sk_wnd_sz = wnd_sz, sk_align = align, sk_fc_us = fc_us, sk_num_threads = num_threads\<rparr>)"

text \<open>A datagram that is received has a size, at most that of the header, and its header.\<close>

datatype rx = RxAgain | RxError | RxMsg nat slmp_hdr

datatype tx = TxOk | TxAgain | TxError

record slmp_net =
  n_rx :: "rx list"
  n_late :: "bool list"
  n_tx :: "tx list"
  n_acks :: int
  n_wire :: "(slmp_hdr \<times> u8 list) list"

section \<open>Acknowledgements\<close>

fun drain_ack_loop :: "nat \<Rightarrow> int \<Rightarrow> slmp_net \<Rightarrow> (int \<times> slmp_net) option" where
  "drain_ack_loop 0 acked net = Some (acked, net)"
| "drain_ack_loop (Suc n) acked net =
     (case n_rx net of
        [] \<Rightarrow> None
      | RxAgain # rs \<Rightarrow> Some (acked, net\<lparr>n_rx := rs\<rparr>)
      | RxError # rs \<Rightarrow> Some (-1, net\<lparr>n_rx := rs\<rparr>)
      | RxMsg rcvd ack # rs \<Rightarrow>
          (if rcvd \<noteq> sizeof_slmp_hdr then Some (-1, net\<lparr>n_rx := rs\<rparr>)
           else if \<not> ACK (ntohs (slmp_flags ack)) then Some (-1, net\<lparr>n_rx := rs\<rparr>)
           else drain_ack_loop n (acked + 1) (net\<lparr>n_rx := rs, n_acks := n_acks net + 1\<rparr>)))"

definition drain_ack :: "int \<Rightarrow> slmp_net \<Rightarrow> (int \<times> slmp_net) option" where
  "drain_ack to_expect net = drain_ack_loop (nat to_expect) 0 net"

lemma drain_ack_loop_frame: "drain_ack_loop n a net = Some (v, net') \<Longrightarrow>
    n_late net' = n_late net \<and> n_tx net' = n_tx net \<and> n_wire net' = n_wire net"
  by (induction n a net rule: drain_ack_loop.induct) (auto split: list.splits rx.splits if_splits)

lemma drain_ack_frame: "drain_ack n net = Some (v, net') \<Longrightarrow>
    n_late net' = n_late net \<and> n_tx net' = n_tx net \<and> n_wire net' = n_wire net"
  unfolding drain_ack_def by (rule drain_ack_loop_frame)

function drain_loop :: "int \<Rightarrow> bool \<Rightarrow> int \<Rightarrow> slmp_net \<Rightarrow> (int \<times> slmp_net) option" where
  "drain_loop to_expect need_all acked net =
     (if acked < to_expect
      then (case drain_ack 1 net of
              None \<Rightarrow> None
            | Some (v, net') \<Rightarrow>
                if v < 0 then Some (v, net')
                else if v = 0 \<and> acked \<noteq> 0 \<and> \<not> need_all then Some (acked, net')
                else (case n_late net' of
                        [] \<Rightarrow> None
                      | late # ls \<Rightarrow>
                          if late then Some (acked + v, net'\<lparr>n_late := ls\<rparr>)
                          else drain_loop to_expect need_all (acked + v) (net'\<lparr>n_late := ls\<rparr>)))
      else Some (acked, net))"
  by pat_completeness auto
termination
  by (relation "measure (\<lambda>(_, _, _, net). length (n_late net))") (auto dest!: drain_ack_frame)

declare drain_loop.simps [simp del]

definition drain_ack_timeout :: "int \<Rightarrow> bool \<Rightarrow> slmp_net \<Rightarrow> (int \<times> slmp_net) option" where
  "drain_ack_timeout to_expect need_all net =
     (if to_expect = 0 then Some (0, net) else drain_loop to_expect need_all 0 net)"

section \<open>One packet\<close>

text \<open>The loop that waits for a window; the result is the window, or None when no acknowledgement came.\<close>

function window_loop :: "bool \<Rightarrow> int \<Rightarrow> int \<Rightarrow> slmp_net \<Rightarrow> (int option \<times> slmp_net) option" where
  "window_loop expect_ack total_window window_left net =
     (if expect_ack \<and> window_left = 0
      then (case drain_ack_timeout total_window False net of
              None \<Rightarrow> None
            | Some (v, net') \<Rightarrow>
                if v = 0 then Some (None, net')
                else window_loop expect_ack total_window (window_left + v) net')
      else Some (Some window_left, net))"
  by pat_completeness auto
termination
  by (relation "measure (\<lambda>(_, _, w, _). if w = 0 then 1 else 0)") auto

declare window_loop.simps [simp del]

fun sendto_loop :: "tx list \<Rightarrow> bool list \<Rightarrow> (bool \<times> tx list \<times> bool list) option" where
  "sendto_loop [] ls = None"
| "sendto_loop (TxOk # ts) ls = Some (True, ts, ls)"
| "sendto_loop (TxError # ts) ls = Some (False, ts, ls)"
| "sendto_loop (TxAgain # ts) [] = None"
| "sendto_loop (TxAgain # ts) (late # ls) = (if late then Some (False, ts, ls) else sendto_loop ts ls)"

definition send_single :: "nat \<Rightarrow> u8 list \<Rightarrow> nat \<Rightarrow> u16 \<Rightarrow> u32 \<Rightarrow> bool \<Rightarrow> int \<Rightarrow> int \<Rightarrow> slmp_net
    \<Rightarrow> (int \<times> int \<times> slmp_net) option" where
  "send_single cur char_buf payload_size hflags msgid expect_ack window_left total_window net =
     (case window_loop expect_ack total_window window_left net of
        None \<Rightarrow> None
      | Some (None, net) \<Rightarrow> Some (-1, window_left, net)
      | Some (Some window_left, net) \<Rightarrow>
          (let hdr = \<lparr>slmp_flags = htons hflags, msg_id = htonl msgid, pkt_off = htonl (of_nat cur)\<rparr>;
               left = length char_buf - cur;
               to_copy = if left > payload_size then payload_size else left
           in case sendto_loop (n_tx net) (n_late net) of
                None \<Rightarrow> None
              | Some (False, ts, ls) \<Rightarrow> Some (-1, window_left, net\<lparr>n_tx := ts, n_late := ls\<rparr>)
              | Some (True, ts, ls) \<Rightarrow>
                  Some (0, window_left - 1, net\<lparr>n_tx := ts, n_late := ls,
                    n_wire := n_wire net @ [(hdr, take to_copy (drop cur char_buf))]\<rparr>)))"

section \<open>A message\<close>

text \<open>
  The parallel loop. Each entry of a schedule is an iteration, the thread that runs it, and whether it
  read the exit flag before another thread set it; a thread that failed has set the flag itself. The
  threads share the socket only, so any order of their system calls is the trace of some schedule.
  \<open>ret\<close> is private to a thread and summed up at the end.
\<close>

record par_state =
  p_exit :: bool
  p_window :: "int list"
  p_ret :: "int list"
  p_net :: slmp_net

definition par_iter :: "bool \<Rightarrow> u8 list \<Rightarrow> nat \<Rightarrow> u32 \<Rightarrow> int \<Rightarrow> nat \<times> nat \<times> bool \<Rightarrow> par_state \<Rightarrow> par_state option" where
  "par_iter ack_for_all char_buf payload_size msgid window_thread_limit = (\<lambda>(k, thread, early) s.
     let cur = k * payload_size
     in if (p_exit s \<and> \<not> early) \<or> p_ret s ! thread \<noteq> 0 then Some s
        else (let (hflags, expect_ack) = if cur = 0 then (MKSYN, True) else (0, False);
                  (hflags, expect_ack) = if ack_for_all then (hflags OR MKSYN, True) else (hflags, expect_ack)
              in case send_single cur char_buf payload_size hflags msgid expect_ack (p_window s ! thread)
                        window_thread_limit (p_net s) of
                   None \<Rightarrow> None
                 | Some (ret, w, net) \<Rightarrow>
                     Some (s\<lparr>p_exit := p_exit s \<or> ret \<noteq> 0, p_window := (p_window s)[thread := w],
                             p_ret := (p_ret s)[thread := ret], p_net := net\<rparr>)))"

fun par_loop :: "bool \<Rightarrow> u8 list \<Rightarrow> nat \<Rightarrow> u32 \<Rightarrow> int \<Rightarrow> (nat \<times> nat \<times> bool) list \<Rightarrow> par_state \<Rightarrow> par_state option" where
  "par_loop ack_for_all char_buf payload_size msgid limit [] s = Some s"
| "par_loop ack_for_all char_buf payload_size msgid limit (i # is) s =
     (case par_iter ack_for_all char_buf payload_size msgid limit i s of
        None \<Rightarrow> None
      | Some s \<Rightarrow> par_loop ack_for_all char_buf payload_size msgid limit is s)"

text \<open>
  The iterations are \<open>k = 1, 2, ...\<close> as long as \<open>cur = k * payload_size\<close> lies more than one packet before
  the end. After the loop \<open>cur\<close> has the value of the sequential loop, except that OpenMP leaves it
  open (here \<open>cur0\<close>) when there was no iteration.
\<close>

definition par_trips :: "nat \<Rightarrow> nat \<Rightarrow> nat" where
  "par_trips sz payload_size = (sz - 1) div payload_size - 1"

definition cur_after :: "nat \<Rightarrow> nat \<Rightarrow> nat \<Rightarrow> nat" where
  "cur_after cur0 sz payload_size =
     (if par_trips sz payload_size = 0 then cur0 else Suc (par_trips sz payload_size) * payload_size)"

definition slmp_payload_size :: "int \<Rightarrow> nat" where
  "slmp_payload_size align = (SLMP_PAYLOAD_SIZE div nat \<bar>align\<bar>) * nat \<bar>align\<bar>"

text \<open>
  The result of a message, and whether the socket was closed. \<open>Trapped\<close> is an undefined operation of
  C: a division by zero, or the rounding up of the window to the threads, \<open>wnd_sz + num_threads - 1\<close>,
  when that does not fit into an \<open>int\<close>. The fields of the socket are ints, and with that sum every
  window is one: a window is at most \<open>window_total\<close>, which is at most the sum.
\<close>

datatype send_out = Returned int bool | Trapped

definition slmp_finish :: "slmp_sock \<Rightarrow> u32 \<Rightarrow> u8 list \<Rightarrow> nat \<Rightarrow> int \<Rightarrow> nat \<Rightarrow> par_state \<Rightarrow> (send_out \<times> slmp_net) option" where
  "slmp_finish sock msgid char_buf payload_size window_total cur s =
     (if sum_list (p_ret s) \<noteq> 0 then Some (Returned (-1) True, p_net s)
      else (let window_left = sum_list (p_window s)
            in case (if cur < length char_buf
                     then send_single cur char_buf payload_size (MKEOM OR MKSYN) msgid True window_left window_total (p_net s)
                     else Some (0, window_left, p_net s)) of
                 None \<Rightarrow> None
               | Some (ret, window_left, net) \<Rightarrow>
                   (let to_drain = window_total - window_left
                    in case drain_ack_timeout to_drain True net of
                         None \<Rightarrow> None
                       | Some (drained, net) \<Rightarrow> Some (Returned (if drained < to_drain then -1 else ret) True, net))))"

definition slmp_sendmsg :: "bool \<times> bool \<Rightarrow> (nat \<times> nat \<times> bool) list \<Rightarrow> nat \<Rightarrow> slmp_sock \<Rightarrow> u32 \<Rightarrow> u8 list \<Rightarrow> slmp_net
    \<Rightarrow> (send_out \<times> slmp_net) option" where
  "slmp_sendmsg opts sched cur0 sock msgid char_buf net =
     (if \<not> fst opts then Some (Returned (-1) False, net)
      else if \<not> snd opts then Some (Returned (-1) False, net)
      else if sk_align sock = 0 then Some (Trapped, net)
      else
        let ack_for_all = sk_wnd_sz sock > 0;
            payload_size = slmp_payload_size (sk_align sock);
            sz = length char_buf;
            hflags = if payload_size \<ge> sz then MKSYN OR MKEOM else MKSYN
        in case send_single 0 char_buf payload_size hflags msgid True 1 1 net of
             None \<Rightarrow> None
           | Some (ret, syn_window, net) \<Rightarrow>
               if ret < 0 then Some (Returned (-3) False, net)
               else (case drain_ack_timeout 1 True net of
                       None \<Rightarrow> None
                     | Some (v, net) \<Rightarrow>
                         if v = 0 then Some (Returned (-2) False, net)
                         else if sk_wnd_sz sock + sk_num_threads sock - 1 > 2 ^ 31 - 1 then Some (Trapped, net)
                         else if payload_size = 0 then Some (Trapped, net)
                         else (let n = sk_num_threads sock;
                                   limit = (sk_wnd_sz sock + n - 1) div n
                               in case par_loop ack_for_all char_buf payload_size msgid limit sched
                                         \<lparr>p_exit = False, p_window = replicate (nat n) limit,
                                          p_ret = replicate (nat n) 0, p_net = net\<rparr> of
                                    None \<Rightarrow> None
                                  | Some s \<Rightarrow> slmp_finish sock msgid char_buf payload_size (limit * n)
                                                (cur_after cur0 sz payload_size) s)))"

section \<open>Accounting of acknowledgements\<close>

text \<open>A socket on which nothing but acknowledgements arrive.\<close>

fun rx_fine :: "rx \<Rightarrow> bool" where
  "rx_fine RxAgain = True"
| "rx_fine RxError = False"
| "rx_fine (RxMsg rcvd ack) \<longleftrightarrow> rcvd = sizeof_slmp_hdr \<and> ACK (ntohs (slmp_flags ack))"

definition only_acks :: "slmp_net \<Rightarrow> bool" where
  "only_acks net \<longleftrightarrow> list_all rx_fine (n_rx net)"

lemma drain_ack_one:
  assumes "drain_ack 1 net = Some (v, net')" "only_acks net"
  shows "only_acks net' \<and> n_acks net' = n_acks net + v \<and> (v = 0 \<or> v = 1)"
  using assms by (auto simp: drain_ack_def only_acks_def split: list.splits rx.splits if_splits)

lemma drain_loop_cases:
  assumes "drain_loop e a k net = Some (v, net')"
  obtains (stop) "e \<le> k" "v = k" "net' = net"
    | (error) "drain_ack 1 net = Some (v, net')" "v < 0"
    | (partial) "drain_ack 1 net = Some (0, net')" "v = k" "k < e"
    | (late) w n1 ls where "drain_ack 1 net = Some (w, n1)" "v = k + w" "net' = n1\<lparr>n_late := ls\<rparr>" "k < e"
    | (again) w n1 ls where "drain_ack 1 net = Some (w, n1)" "k < e" "n_late n1 = False # ls"
        "drain_loop e a (k + w) (n1\<lparr>n_late := ls\<rparr>) = Some (v, net')"
proof (cases "k < e")
  case False
  have "v = k" "net' = net" using assms False unfolding drain_loop.simps [of e a k net] by simp_all
  with False show thesis by (intro stop) simp_all
next
  case True
  then obtain w n1 where d: "drain_ack 1 net = Some (w, n1)"
    using assms unfolding drain_loop.simps [of e a k net] by (cases "drain_ack 1 net") auto
  have r: "(if w < 0 then Some (w, n1) else if w = 0 \<and> k \<noteq> 0 \<and> \<not> a then Some (k, n1)
      else case n_late n1 of [] \<Rightarrow> None
        | late # ls \<Rightarrow> if late then Some (k + w, n1\<lparr>n_late := ls\<rparr>) else drain_loop e a (k + w) (n1\<lparr>n_late := ls\<rparr>))
    = Some (v, net')"
    using assms True unfolding drain_loop.simps [of e a k net] d by simp
  consider (neg) "w < 0" | (zero) "\<not> w < 0" "w = 0 \<and> k \<noteq> 0 \<and> \<not> a" | (go) "\<not> w < 0" "\<not> (w = 0 \<and> k \<noteq> 0 \<and> \<not> a)" by blast
  then show thesis
  proof cases
    case neg
    with r have "w = v" "n1 = net'" by simp_all
    with d neg show thesis by (intro error) simp_all
  next
    case zero
    with r have "k = v" "n1 = net'" "w = 0" by simp_all
    with d True show thesis by (intro partial) simp_all
  next
    case go
    with r obtain l ls where l: "n_late n1 = l # ls"
      "(if l then Some (k + w, n1\<lparr>n_late := ls\<rparr>) else drain_loop e a (k + w) (n1\<lparr>n_late := ls\<rparr>)) = Some (v, net')"
      by (cases "n_late n1") (auto simp del: not_less)
    show thesis
    proof (cases l)
      case True
      with l(2) have "v = k + w" "net' = n1\<lparr>n_late := ls\<rparr>" by simp_all
      then show thesis by (rule late [OF d _ _ \<open>k < e\<close>])
    next
      case False
      with l have "n_late n1 = False # ls" "drain_loop e a (k + w) (n1\<lparr>n_late := ls\<rparr>) = Some (v, net')" by simp_all
      then show thesis by (rule again [OF d \<open>k < e\<close>])
    qed
  qed
qed

lemma drain_loop_frame:
  "drain_loop e a k net = Some (v, net') \<Longrightarrow> n_wire net' = n_wire net \<and> n_tx net' = n_tx net"
proof (induction "length (n_late net)" arbitrary: k net rule: less_induct)
  case less
  from less(2) show ?case
  proof (cases rule: drain_loop_cases)
    case (again w n1 ls)
    then have "n_late net = False # ls" using drain_ack_frame [OF again(1)] by simp
    with less(1) [OF _ again(4)] drain_ack_frame [OF again(1)] show ?thesis by simp
  qed (auto dest!: drain_ack_frame)
qed

lemma drain_loop_acks:
  "drain_loop e a k net = Some (v, net') \<Longrightarrow> only_acks net \<Longrightarrow> 0 \<le> k \<Longrightarrow>
    only_acks net' \<and> v = k + (n_acks net' - n_acks net) \<and> k \<le> v \<and> v \<le> max k e"
proof (induction "length (n_late net)" arbitrary: k net rule: less_induct)
  case less
  from less(2) show ?case
  proof (cases rule: drain_loop_cases)
    case (again w n1 ls)
    have o: "only_acks (n1\<lparr>n_late := ls\<rparr>)" "n_acks n1 = n_acks net + w" "w = 0 \<or> w = 1"
      using drain_ack_one [OF again(1) less(3)] by (auto simp: only_acks_def)
    have "n_late net = False # ls" using drain_ack_frame [OF again(1)] again(3) by simp
    with less(1) [OF _ again(4) o(1)] o(2,3) again(2) less(4) show ?thesis by fastforce
  qed (use less(3,4) in \<open>auto dest!: drain_ack_one simp: only_acks_def\<close>)
qed

lemma drain_acks:
  assumes "drain_ack_timeout e a net = Some (v, net')"
  shows "n_wire net' = n_wire net" "n_tx net' = n_tx net"
    "only_acks net \<Longrightarrow> only_acks net' \<and> v = n_acks net' - n_acks net \<and> 0 \<le> v \<and> v \<le> max 0 e"
  using assms drain_loop_frame [of e a 0 net v net'] drain_loop_acks [of e a 0 net v net']
  by (auto simp: drain_ack_timeout_def split: if_splits)

lemma window_loop_once:
  "window_loop x t w net = (if x \<and> w = 0
     then (case drain_ack_timeout t False net of None \<Rightarrow> None
           | Some (v, net') \<Rightarrow> Some (if v = 0 then None else Some v, net'))
     else Some (Some w, net))"
  by (subst window_loop.simps) (auto split: option.splits simp: window_loop.simps)

text \<open>The packet that \<open>send_single\<close> sends.\<close>

definition packet_at :: "u8 list \<Rightarrow> nat \<Rightarrow> u32 \<Rightarrow> nat \<Rightarrow> u16 \<Rightarrow> slmp_hdr \<times> u8 list" where
  "packet_at buf payload_size msgid cur flags =
     (\<lparr>slmp_flags = htons flags, msg_id = htonl msgid, pkt_off = htonl (of_nat cur)\<rparr>, take payload_size (drop cur buf))"

lemma window_loop_result:
  assumes "window_loop x t w net = Some (r, net')"
  shows "n_wire net' = n_wire net"
    "only_acks net \<Longrightarrow> only_acks net' \<and> (case r of None \<Rightarrow> w | Some w' \<Rightarrow> w') - (n_acks net' - n_acks net) = w
      \<and> n_acks net \<le> n_acks net'"
  using assms unfolding window_loop_once
  by (auto split: if_splits option.splits dest: drain_acks)

lemma send_single_cases:
  assumes "send_single cur buf ps fl mid x w t net = Some (ret, w', net')"
  obtains (closed) "window_loop x t w net = Some (None, net')" "ret = -1" "w' = w"
    | (failed) n1 ts ls where "window_loop x t w net = Some (Some w', n1)" "ret = -1"
        "net' = n1\<lparr>n_tx := ts, n_late := ls\<rparr>"
    | (sent) w1 n1 ts ls where "window_loop x t w net = Some (Some w1, n1)" "ret = 0" "w' = w1 - 1"
        "net' = n1\<lparr>n_tx := ts, n_late := ls, n_wire := n_wire n1 @ [packet_at buf ps mid cur fl]\<rparr>"
proof -
  have "take (if length buf - cur > ps then ps else length buf - cur) (drop cur buf) = take ps (drop cur buf)" by simp
  with assms show thesis unfolding send_single_def Let_def
    by (auto split: option.splits prod.splits bool.splits simp: packet_at_def intro: that)
qed

lemma send_single_result:
  assumes "send_single cur buf ps fl mid x w t net = Some (ret, w', net')"
  shows "ret = 0 \<and> n_wire net' = n_wire net @ [packet_at buf ps mid cur fl] \<or> ret = -1 \<and> n_wire net' = n_wire net"
    "only_acks net \<Longrightarrow> only_acks net' \<and> w' - (n_acks net' - n_acks net) = w - (if ret = 0 then 1 else 0)
      \<and> n_acks net \<le> n_acks net'"
proof -
  from assms show "ret = 0 \<and> n_wire net' = n_wire net @ [packet_at buf ps mid cur fl] \<or> ret = -1 \<and> n_wire net' = n_wire net"
  proof (cases rule: send_single_cases)
    case (sent w1 n1 ts ls)
    with window_loop_result(1) [OF sent(1)] show ?thesis by simp
  next
    case (failed n1 ts ls)
    with window_loop_result(1) [OF failed(1)] show ?thesis by simp
  next
    case closed
    with window_loop_result(1) [OF closed(1)] show ?thesis by simp
  qed
  assume o: "only_acks net"
  from assms show "only_acks net' \<and> w' - (n_acks net' - n_acks net) = w - (if ret = 0 then 1 else 0)
      \<and> n_acks net \<le> n_acks net'"
  proof (cases rule: send_single_cases)
    case (sent w1 n1 ts ls)
    with window_loop_result(2) [OF sent(1) o] show ?thesis by (simp add: only_acks_def)
  next
    case (failed n1 ts ls)
    with window_loop_result(2) [OF failed(1) o] show ?thesis by (simp add: only_acks_def)
  next
    case closed
    with window_loop_result(2) [OF closed(1) o] show ?thesis by simp
  qed
qed

section \<open>The packets of a message\<close>

definition slmp_npkts :: "nat \<Rightarrow> nat \<Rightarrow> nat" where
  "slmp_npkts sz ps = Suc ((sz - 1) div ps)"

definition slmp_pkt_flags :: "bool \<Rightarrow> nat \<Rightarrow> nat \<Rightarrow> u16" where
  "slmp_pkt_flags ack_for_all n k =
     (if k = 0 then (if n = 1 then MKSYN OR MKEOM else MKSYN)
      else if k = n - 1 then MKEOM OR MKSYN
      else if ack_for_all then MKSYN else 0)"

definition slmp_packets :: "slmp_sock \<Rightarrow> u32 \<Rightarrow> u8 list \<Rightarrow> (slmp_hdr \<times> u8 list) list" where
  "slmp_packets sock msgid buf =
     (let ps = slmp_payload_size (sk_align sock); n = slmp_npkts (length buf) ps
      in map (\<lambda>k. packet_at buf ps msgid (k * ps) (slmp_pkt_flags (sk_wnd_sz sock > 0) n k)) [0..<n])"

lemma par_trips_iff:
  assumes "0 < ps"
  shows "1 \<le> k \<and> k \<le> par_trips sz ps \<longleftrightarrow> 1 \<le> k \<and> k * ps + ps < sz"
proof -
  have "k < (sz - 1) div ps \<longleftrightarrow> Suc k * ps \<le> sz - 1"
    using assms by (simp add: less_eq_div_iff_mult_less_eq Suc_le_eq [symmetric] del: mult_Suc)
  then show ?thesis using assms unfolding par_trips_def by (cases sz) auto
qed

lemma slmp_npkts_one: "0 < ps \<Longrightarrow> slmp_npkts sz ps = 1 \<longleftrightarrow> sz \<le> ps"
  by (auto simp: slmp_npkts_def div_eq_0_iff)

text \<open>What is left of the loop when it ran for thread-local results that are all zero.\<close>

definition par_ok :: "par_state \<Rightarrow> bool" where
  "par_ok s \<longleftrightarrow> set (p_ret s) \<subseteq> {0, -1} \<and> (p_exit s \<longrightarrow> -1 \<in> set (p_ret s)) \<and> length (p_window s) = length (p_ret s)"

lemma par_iter_cases:
  assumes "par_iter afa buf ps mid limit (k, t, early) s = Some s'" "0 < ps" "1 \<le> k"
  obtains (skipped) "s' = s" "p_exit s \<or> p_ret s ! t \<noteq> 0"
    | (ran) ret w net where "p_ret s ! t = 0"
        "send_single (k * ps) buf ps (if afa then MKSYN else 0) mid afa (p_window s ! t) limit (p_net s) = Some (ret, w, net)"
        "s' = s\<lparr>p_exit := p_exit s \<or> ret \<noteq> 0, p_window := (p_window s)[t := w], p_ret := (p_ret s)[t := ret], p_net := net\<rparr>"
proof (cases "(p_exit s \<and> \<not> early) \<or> p_ret s ! t \<noteq> 0")
  case True
  then have "s' = s" using assms(1) by (simp add: par_iter_def)
  with True show thesis by (intro skipped) auto
next
  case False
  have c: "k * ps \<noteq> 0" using assms(2,3) by simp
  obtain r where r: "send_single (k * ps) buf ps (if afa then MKSYN else 0) mid afa (p_window s ! t) limit (p_net s) = Some r"
    using assms(1) False c by (cases afa) (auto simp: par_iter_def Let_def split: option.splits)
  obtain ret w net where e: "r = (ret, w, net)" by (cases r)
  have "s' = s\<lparr>p_exit := p_exit s \<or> ret \<noteq> 0, p_window := (p_window s)[t := w], p_ret := (p_ret s)[t := ret], p_net := net\<rparr>"
    using assms(1) False c r e by (cases afa) (auto simp: par_iter_def Let_def)
  with False r e show thesis by (intro ran) simp_all
qed

lemma sum_list_set: "i < length xs \<Longrightarrow> sum_list (xs[i := v]) = sum_list xs + v - xs ! i" for xs :: "int list"
  by (induction xs arbitrary: i) (auto split: nat.splits)

lemma par_ok_iter:
  assumes "par_iter afa buf ps mid limit (k, t, early) s = Some s'" "0 < ps" "1 \<le> k" "par_ok s" "t < length (p_ret s)"
  shows "par_ok s'" "length (p_ret s') = length (p_ret s)" "-1 \<in> set (p_ret s) \<Longrightarrow> -1 \<in> set (p_ret s')"
    "set (p_ret s') \<subseteq> {0} \<Longrightarrow> n_wire (p_net s') = n_wire (p_net s) @ [packet_at buf ps mid (k * ps) (if afa then MKSYN else 0)]
      \<and> (only_acks (p_net s) \<longrightarrow> only_acks (p_net s') \<and>
           sum_list (p_window s') - (n_acks (p_net s') - n_acks (p_net s)) = sum_list (p_window s) - 1)"
proof -
  have u: "set (xs[t := v]) \<subseteq> insert v (set xs)" for xs and v :: int by (rule set_update_subset_insert)
  have "par_ok s' \<and> length (p_ret s') = length (p_ret s) \<and> (-1 \<in> set (p_ret s) \<longrightarrow> -1 \<in> set (p_ret s'))
    \<and> (set (p_ret s') \<subseteq> {0} \<longrightarrow> n_wire (p_net s') = n_wire (p_net s) @ [packet_at buf ps mid (k * ps) (if afa then MKSYN else 0)]
      \<and> (only_acks (p_net s) \<longrightarrow> only_acks (p_net s') \<and>
           sum_list (p_window s') - (n_acks (p_net s') - n_acks (p_net s)) = sum_list (p_window s) - 1))"
    using assms(1-3)
  proof (cases rule: par_iter_cases)
    case skipped
    then have "-1 \<in> set (p_ret s)"
      using assms(4) nth_mem [OF assms(5)] unfolding par_ok_def by fastforce
    then show ?thesis using skipped(1) assms(4) by auto
  next
    case (ran ret w net)
    have keep: "-1 \<in> set ((p_ret s)[t := ret])" if "-1 \<in> set (p_ret s)"
    proof -
      from that obtain i where "i < length (p_ret s)" "p_ret s ! i = -1" by (auto simp: in_set_conv_nth)
      moreover from this ran(1) have "i \<noteq> t" by auto
      ultimately show ?thesis by (auto simp: in_set_conv_nth intro!: exI [of _ i])
    qed
    have t: "ret \<in> set ((p_ret s)[t := ret])" using assms(5) by (simp add: set_update_memI)
    have r: "ret = 0 \<or> ret = -1" using send_single_result(1) [OF ran(2)] by auto
    have "set ((p_ret s)[t := ret]) \<subseteq> {0, -1}" using u [of "p_ret s" ret] r assms(4) unfolding par_ok_def by blast
    moreover have "p_exit s \<or> ret \<noteq> 0 \<longrightarrow> -1 \<in> set ((p_ret s)[t := ret])" using keep t r assms(4) unfolding par_ok_def by blast
    ultimately have "par_ok s'"
      using assms(4) unfolding par_ok_def ran(3) by simp
    moreover have "ret = 0 \<or> \<not> set (p_ret s') \<subseteq> {0}" using t ran(3) by auto
    moreover have "sum_list ((p_window s)[t := w]) = sum_list (p_window s) + w - p_window s ! t"
      using assms(4,5) by (simp add: sum_list_set par_ok_def)
    ultimately show ?thesis using send_single_result [OF ran(2)] keep unfolding ran(3) by (cases "ret = 0") auto
  qed
  then show "par_ok s'" "length (p_ret s') = length (p_ret s)" "-1 \<in> set (p_ret s) \<Longrightarrow> -1 \<in> set (p_ret s')"
    "set (p_ret s') \<subseteq> {0} \<Longrightarrow> n_wire (p_net s') = n_wire (p_net s) @ [packet_at buf ps mid (k * ps) (if afa then MKSYN else 0)]
      \<and> (only_acks (p_net s) \<longrightarrow> only_acks (p_net s') \<and>
           sum_list (p_window s') - (n_acks (p_net s') - n_acks (p_net s)) = sum_list (p_window s) - 1)" by blast+
qed

lemma par_loop_result:
  assumes "par_loop afa buf ps mid limit sched s = Some s'" "0 < ps"
    and "\<forall>(k, t, e) \<in> set sched. 1 \<le> k \<and> t < length (p_ret s)" "par_ok s"
  shows "par_ok s' \<and> (-1 \<in> set (p_ret s) \<longrightarrow> -1 \<in> set (p_ret s'))
    \<and> (set (p_ret s') \<subseteq> {0} \<longrightarrow>
        n_wire (p_net s') = n_wire (p_net s) @ map (\<lambda>i. packet_at buf ps mid (fst i * ps) (if afa then MKSYN else 0)) sched
      \<and> (only_acks (p_net s) \<longrightarrow> only_acks (p_net s') \<and>
           sum_list (p_window s') - (n_acks (p_net s') - n_acks (p_net s)) = sum_list (p_window s) - int (length sched)))"
  using assms
proof (induction sched arbitrary: s)
  case (Cons i sched)
  obtain k t e where i: "i = (k, t, e)" by (cases i)
  then obtain s1 where s1: "par_iter afa buf ps mid limit (k, t, e) s = Some s1" "par_loop afa buf ps mid limit sched s1 = Some s'"
    using Cons.prems(1) by (auto split: option.splits)
  have kt: "1 \<le> k" "t < length (p_ret s)" using Cons.prems(3) i by auto
  note o = par_ok_iter [OF s1(1) assms(2) kt(1) Cons.prems(4) kt(2)]
  have r: "par_ok s' \<and> (-1 \<in> set (p_ret s1) \<longrightarrow> -1 \<in> set (p_ret s'))
    \<and> (set (p_ret s') \<subseteq> {0} \<longrightarrow>
        n_wire (p_net s') = n_wire (p_net s1) @ map (\<lambda>i. packet_at buf ps mid (fst i * ps) (if afa then MKSYN else 0)) sched
      \<and> (only_acks (p_net s1) \<longrightarrow> only_acks (p_net s') \<and>
           sum_list (p_window s') - (n_acks (p_net s') - n_acks (p_net s1)) = sum_list (p_window s1) - int (length sched)))"
    by (rule Cons.IH [OF s1(2) assms(2) _ o(1)]) (use Cons.prems(3) o(2) in auto)
  have "set (p_ret s1) \<subseteq> {0}" if "set (p_ret s') \<subseteq> {0}"
    using o(1) r that unfolding par_ok_def by fastforce
  with r o(3,4) i show ?case by auto
qed simp

lemma sum_rets: "set xs \<subseteq> {0, -1} \<Longrightarrow> sum_list xs = 0 \<Longrightarrow> set xs \<subseteq> {0}" for xs :: "int list"
proof (induction xs)
  case (Cons x xs)
  have "sum_list xs \<le> 0" using Cons.prems(1) by (intro sum_list_nonpos) auto
  with Cons show ?case by auto
qed simp

lemma slmp_finish_result:
  assumes "slmp_finish sock mid buf ps wt cur s = Some (Returned 0 c, net')" "par_ok s"
  shows "c" "set (p_ret s) \<subseteq> {0}"
    "n_wire net' = n_wire (p_net s) @ (if cur < length buf then [packet_at buf ps mid cur (MKEOM OR MKSYN)] else [])"
    "only_acks (p_net s) \<Longrightarrow>
      wt - sum_list (p_window s) + (if cur < length buf then 1 else 0) \<le> n_acks net' - n_acks (p_net s)"
proof -
  have r0: "sum_list (p_ret s) = 0" using assms(1) by (simp add: slmp_finish_def split: if_splits)
  with assms(2) show "set (p_ret s) \<subseteq> {0}" by (intro sum_rets) (simp_all add: par_ok_def)
  define last_send where "last_send = (if cur < length buf
      then send_single cur buf ps (MKEOM OR MKSYN) mid True (sum_list (p_window s)) wt (p_net s)
      else Some (0, sum_list (p_window s), p_net s))"
  have f: "(case last_send of None \<Rightarrow> None | Some (ret, window_left, net) \<Rightarrow>
      case drain_ack_timeout (wt - window_left) True net of None \<Rightarrow> None
      | Some (drained, net) \<Rightarrow> Some (Returned (if drained < wt - window_left then -1 else ret) True, net)) = Some (Returned 0 c, net')"
    using assms(1) r0 unfolding slmp_finish_def Let_def last_send_def by simp
  then obtain r where r: "last_send = Some r" by (cases last_send) auto
  obtain ret w1 n1 where l: "last_send = Some (ret, w1, n1)" using r by (cases r) simp
  with f obtain d where d: "drain_ack_timeout (wt - w1) True n1 = Some (d, net')" "c" "(if d < wt - w1 then -1 else ret) = 0"
    by (auto split: option.splits)
  then have k: "\<not> d < wt - w1" "ret = 0" by (auto split: if_splits)
  show "c" by (rule d(2))
  show "n_wire net' = n_wire (p_net s) @ (if cur < length buf then [packet_at buf ps mid cur (MKEOM OR MKSYN)] else [])"
    using drain_acks(1) [OF d(1)] l k(2) send_single_result(1) [of cur buf ps "MKEOM OR MKSYN" mid True "sum_list (p_window s)" wt "p_net s" ret w1 n1]
    unfolding last_send_def by (auto split: if_splits)
  assume o: "only_acks (p_net s)"
  show "wt - sum_list (p_window s) + (if cur < length buf then 1 else 0) \<le> n_acks net' - n_acks (p_net s)"
  proof (cases "cur < length buf")
    case True
    with l have "send_single cur buf ps (MKEOM OR MKSYN) mid True (sum_list (p_window s)) wt (p_net s) = Some (ret, w1, n1)"
      by (simp add: last_send_def)
    from send_single_result(2) [OF this o] drain_acks(3) [OF d(1)] k True show ?thesis by auto
  next
    case False
    with l have "w1 = sum_list (p_window s)" "n1 = p_net s" by (simp_all add: last_send_def)
    with o drain_acks(3) [OF d(1)] k False show ?thesis by auto
  qed
qed

lemma slmp_sendmsg_cases:
  assumes "slmp_sendmsg opts sched cur0 sock mid buf net = Some (Returned 0 c, net')"
  obtains w0 n1 v n2 s where
    "0 < slmp_payload_size (sk_align sock)"
    "send_single 0 buf (slmp_payload_size (sk_align sock))
       (if slmp_payload_size (sk_align sock) \<ge> length buf then MKSYN OR MKEOM else MKSYN) mid True 1 1 net = Some (0, w0, n1)"
    "drain_ack_timeout 1 True n1 = Some (v, n2)" "v \<noteq> 0"
    "par_loop (sk_wnd_sz sock > 0) buf (slmp_payload_size (sk_align sock)) mid
       ((sk_wnd_sz sock + sk_num_threads sock - 1) div sk_num_threads sock) sched
       \<lparr>p_exit = False, p_window = replicate (nat (sk_num_threads sock)) ((sk_wnd_sz sock + sk_num_threads sock - 1) div sk_num_threads sock),
        p_ret = replicate (nat (sk_num_threads sock)) 0, p_net = n2\<rparr> = Some s"
    "slmp_finish sock mid buf (slmp_payload_size (sk_align sock))
       ((sk_wnd_sz sock + sk_num_threads sock - 1) div sk_num_threads sock * sk_num_threads sock)
       (cur_after cur0 (length buf) (slmp_payload_size (sk_align sock))) s = Some (Returned 0 c, net')"
proof -
  have o: "fst opts" "snd opts" "sk_align sock \<noteq> 0" using assms by (auto simp: slmp_sendmsg_def split: if_splits)
  note a = assms [unfolded slmp_sendmsg_def Let_def, simplified o not_True_eq_False if_False]
  let ?ps = "slmp_payload_size (sk_align sock)"
  let ?f = "if ?ps \<ge> length buf then MKSYN OR MKEOM else MKSYN"
  from a obtain r where r: "send_single 0 buf ?ps ?f mid True 1 1 net = Some r"
    by (cases "send_single 0 buf ?ps ?f mid True 1 1 net") auto
  obtain ret w0 n1 where s0: "send_single 0 buf ?ps ?f mid True 1 1 net = Some (ret, w0, n1)" using r by (cases r) simp
  with a have ret: "\<not> ret < 0" by auto
  with send_single_result(1) [OF s0] have "ret = 0" by auto
  with s0 a obtain r2 where "drain_ack_timeout 1 True n1 = Some r2" by (cases "drain_ack_timeout 1 True n1") auto
  then obtain v n2 where d: "drain_ack_timeout 1 True n1 = Some (v, n2)" by (cases r2) simp
  with a s0 \<open>ret = 0\<close> have v: "v \<noteq> 0" by auto
  have ov: "\<not> sk_wnd_sz sock + sk_num_threads sock - 1 > 2 ^ 31 - 1"
    using a s0 d v \<open>ret = 0\<close> by (cases "sk_wnd_sz sock + sk_num_threads sock - 1 > 2 ^ 31 - 1") auto
  with a s0 d v \<open>ret = 0\<close> have "0 < ?ps" by (cases "?ps = 0") auto
  with a s0 d v ov \<open>ret = 0\<close> show thesis by (auto split: option.splits intro: that)
qed

lemma slmp_packets_split:
  assumes "ps = slmp_payload_size (sk_align sock)" "0 < ps"
  shows "slmp_packets sock mid buf
    = packet_at buf ps mid 0 (if length buf \<le> ps then MKSYN OR MKEOM else MKSYN)
      # (if length buf \<le> ps then []
         else map (\<lambda>k. packet_at buf ps mid (k * ps) (if sk_wnd_sz sock > 0 then MKSYN else 0)) [1..<Suc (par_trips (length buf) ps)]
           @ [packet_at buf ps mid (Suc (par_trips (length buf) ps) * ps) (MKEOM OR MKSYN)])"
proof (cases "length buf \<le> ps")
  case True
  then have "slmp_npkts (length buf) ps = 1" using slmp_npkts_one [OF assms(2)] by simp
  then show ?thesis using True by (simp add: slmp_packets_def assms(1) [symmetric] slmp_pkt_flags_def)
next
  case False
  define tr where "tr = par_trips (length buf) ps"
  have "1 \<le> (length buf - 1) div ps" using False assms(2) by (simp add: Suc_le_eq div_greater_zero_iff)
  then have n: "slmp_npkts (length buf) ps = Suc (Suc tr)" by (simp add: slmp_npkts_def tr_def par_trips_def)
  have "[0..<Suc (Suc tr)] = 0 # [1..<Suc tr] @ [Suc tr]" by (simp add: upt_conv_Cons)
  then show ?thesis using False
    by (simp add: slmp_packets_def assms(1) [symmetric] n tr_def [symmetric] slmp_pkt_flags_def del: upt_Suc)
qed

lemma cur_after_less:
  assumes "0 < ps"
  shows "0 < par_trips sz ps \<Longrightarrow> cur_after cur0 sz ps = Suc (par_trips sz ps) * ps"
    "Suc (par_trips sz ps) * ps < sz \<longleftrightarrow> ps < sz"
proof -
  show "cur_after cur0 sz ps = Suc (par_trips sz ps) * ps" if "0 < par_trips sz ps"
    using that by (simp add: cur_after_def)
  show "Suc (par_trips sz ps) * ps < sz \<longleftrightarrow> ps < sz"
    using par_trips_iff [OF assms, of "par_trips sz ps" sz] assms
    by (cases "par_trips sz ps") auto
qed

text \<open>The packets sent by a successful call, in the order of the schedule.\<close>

lemma slmp_send_trace:
  assumes "slmp_socket wnd align fc threads = Inr sock"
    and "slmp_sendmsg opts sched cur0 sock mid buf net = Some (Returned 0 c, net')"
    and "mset (map fst sched) = mset [1..<Suc (par_trips (length buf) (slmp_payload_size align))]"
    and "\<forall>(k, t, e) \<in> set sched. t < nat threads" "ps = slmp_payload_size align"
  shows "c \<and> 0 < ps \<and> n_wire net' = n_wire net @ packet_at buf ps mid 0 (if length buf \<le> ps then MKSYN OR MKEOM else MKSYN)
        # map (\<lambda>i. packet_at buf ps mid (fst i * ps) (if wnd > 0 then MKSYN else 0)) sched
        @ (if cur_after cur0 (length buf) ps < length buf then [packet_at buf ps mid (cur_after cur0 (length buf) ps) (MKEOM OR MKSYN)] else [])
    \<and> (only_acks net \<longrightarrow> 1 + int (length sched) + (if cur_after cur0 (length buf) ps < length buf then 1 else 0) \<le> n_acks net' - n_acks net)"
proof -
  have sk: "sk_align sock = align" "sk_wnd_sz sock = wnd" "sk_num_threads sock = threads" "0 < threads"
    using assms(1) by (auto simp: slmp_socket_def split: if_splits)
  let ?lim = "(wnd + threads - 1) div threads"
  from slmp_sendmsg_cases [OF assms(2), unfolded sk] obtain w0 n1 v n2 s where
    c: "0 < ps" "send_single 0 buf ps (if ps \<ge> length buf then MKSYN OR MKEOM else MKSYN) mid True 1 1 net = Some (0, w0, n1)"
    "drain_ack_timeout 1 True n1 = Some (v, n2)" "v \<noteq> 0"
    "par_loop (wnd > 0) buf ps mid ?lim sched
       \<lparr>p_exit = False, p_window = replicate (nat threads) ?lim, p_ret = replicate (nat threads) 0, p_net = n2\<rparr> = Some s"
    "slmp_finish sock mid buf ps (?lim * threads) (cur_after cur0 (length buf) ps) s = Some (Returned 0 c, net')"
    unfolding assms(5) by blast
  let ?s0 = "\<lparr>p_exit = False, p_window = replicate (nat threads) ?lim, p_ret = replicate (nat threads) 0, p_net = n2\<rparr>"
  have ks: "k \<in> {1..par_trips (length buf) ps}" if "(k, t, e) \<in> set sched" for k t e
    using arg_cong [OF assms(3), of set_mset] image_eqI [OF _ that, of k fst]
    by (simp add: assms(5) set_eq_iff less_Suc_eq_le del: upt_Suc)
  have "par_ok ?s0" using sk(4) by (simp add: par_ok_def)
  moreover have "\<forall>(k, t, e) \<in> set sched. 1 \<le> k \<and> t < length (p_ret ?s0)" using ks assms(4) by fastforce
  ultimately have pl: "par_ok s" "set (p_ret s) \<subseteq> {0} \<Longrightarrow>
        n_wire (p_net s) = n_wire n2 @ map (\<lambda>i. packet_at buf ps mid (fst i * ps) (if wnd > 0 then MKSYN else 0)) sched"
      "set (p_ret s) \<subseteq> {0} \<Longrightarrow> only_acks n2 \<Longrightarrow> only_acks (p_net s) \<and> sum_list (p_window s) - (n_acks (p_net s) - n_acks n2)
         = ?lim * threads - int (length sched)"
    using par_loop_result [OF c(5,1)] sk(4) by (auto simp: sum_list_replicate mult.commute)
  note fi = slmp_finish_result [OF c(6) pl(1)]
  have "1 + int (length sched) + (if cur_after cur0 (length buf) ps < length buf then 1 else 0) \<le> n_acks net' - n_acks net" if "only_acks net"
    using fi(4) pl(3) [OF fi(2)] drain_acks(3) [OF c(3)] send_single_result(2) [OF c(2) that] c(4) by auto
  then show ?thesis
    using fi(1,3) pl(2) [OF fi(2)] drain_acks(1) [OF c(3)] send_single_result(1) [OF c(2)] c(1) by simp
qed

lemma slmp_wire_packets:
  assumes "slmp_socket wnd align fc threads = Inr sock"
    and "slmp_sendmsg opts sched cur0 sock mid buf net = Some (Returned 0 c, net')"
    and "mset (map fst sched) = mset [1..<Suc (par_trips (length buf) (slmp_payload_size align))]"
    and "\<forall>(k, t, e) \<in> set sched. t < nat threads" "0 < par_trips (length buf) (slmp_payload_size align)"
  shows "c \<and> (\<exists>ws. n_wire net' = n_wire net @ ws \<and> mset ws = mset (slmp_packets sock mid buf)
      \<and> hd ws = hd (slmp_packets sock mid buf) \<and> last ws = last (slmp_packets sock mid buf))
    \<and> (only_acks net \<longrightarrow> int (length (slmp_packets sock mid buf)) \<le> n_acks net' - n_acks net)"
proof -
  define ps where "ps = slmp_payload_size align"
  have sk: "sk_align sock = align" "sk_wnd_sz sock = wnd" using assms(1) by (auto simp: slmp_socket_def split: if_splits)
  note t = slmp_send_trace [OF assms(1-4) ps_def]
  then have ps: "0 < ps" by simp
  have tr: "0 < par_trips (length buf) ps" using assms(5) by (simp add: ps_def)
  then have long: "\<not> length buf \<le> ps" using ps by (auto simp: par_trips_def)
  note pk = slmp_packets_split [of ps sock mid buf, unfolded sk, OF ps_def ps]
    and cu = cur_after_less(1) [OF ps, of "length buf" cur0] cur_after_less(2) [OF ps, of "length buf"]
  let ?f = "\<lambda>k. packet_at buf ps mid (k * ps) (if wnd > 0 then MKSYN else 0)"
  have m: "mset (map (\<lambda>i. ?f (fst i)) sched) = mset (map ?f [1..<Suc (par_trips (length buf) ps)])"
    using arg_cong [OF assms(3), of "image_mset ?f"] by (simp add: ps_def multiset.map_comp comp_def del: upt_Suc)
  have len: "length sched = par_trips (length buf) ps" using arg_cong [OF assms(3), of size] by (simp add: ps_def del: upt_Suc)
  show ?thesis using t pk cu tr long m len by (auto simp del: upt_Suc)
qed

text \<open>
  Property C35. What a successful \<open>slmp_sendmsg\<close> of at least three packets, so that the parallel loop has an
  iteration and \<open>cur\<close> a defined value after it, has sent: exactly the packets of the message, each once, the
  first and the last in their places and the others in any order, whatever the schedule of the threads.
  If nothing but acknowledgements arrived, there were at least as many as packets. The socket is closed.
\<close>

theorem slmp_send_complete:
  assumes "slmp_socket wnd align fc threads = Inr sock"
    and "slmp_sendmsg opts sched cur0 sock mid buf net = Some (Returned 0 c, net')"
    and "mset (map fst sched) = mset [1..<Suc (par_trips (length buf) (slmp_payload_size align))]"
    and "\<forall>(k, t, e) \<in> set sched. t < nat threads" "0 < par_trips (length buf) (slmp_payload_size align)"
  shows "c \<and> (\<exists>ws. n_wire net' = n_wire net @ ws \<and> mset ws = mset (slmp_packets sock mid buf)
      \<and> hd ws = hd (slmp_packets sock mid buf) \<and> last ws = last (slmp_packets sock mid buf))
    \<and> (only_acks net \<longrightarrow> int (length (slmp_packets sock mid buf)) \<le> n_acks net' - n_acks net)"
  using assms by (rule slmp_wire_packets)

section \<open>Progress\<close>

text \<open>
  A trace on which at least \<open>r\<close> acknowledgements arrive and \<open>t\<close> packets are taken before a deadline: \<open>recvfrom\<close> and
  \<open>sendto\<close> may answer EAGAIN any number of times before each of them, no other error occurs, and every look at the
  clock, of which there is at most one for each call, finds that there is time left.
\<close>

definition friendly :: "int \<Rightarrow> int \<Rightarrow> slmp_net \<Rightarrow> bool" where
  "friendly r t net \<longleftrightarrow> r \<le> int (length (filter (\<lambda>x. x \<noteq> RxAgain) (n_rx net))) \<and> list_all rx_fine (n_rx net)
     \<and> t \<le> int (length (filter (\<lambda>x. x = TxOk) (n_tx net))) \<and> list_all (\<lambda>x. x \<noteq> TxError) (n_tx net)
     \<and> length (n_rx net) + length (n_tx net) \<le> length (n_late net) \<and> list_all Not (n_late net)"

lemma friendly_drain_ack:
  assumes "friendly r t net" "1 \<le> r"
  obtains v ls net' where "drain_ack 1 net = Some (v, net')" "v = 0 \<or> v = 1" "n_late net' = False # ls"
    "friendly (r - v) t net'" "friendly (r - v) t (net'\<lparr>n_late := ls\<rparr>)" "length (n_rx net') < length (n_rx net)"
proof -
  obtain x xs where x: "n_rx net = x # xs" using assms by (cases "n_rx net") (auto simp: friendly_def)
  obtain l ls where l: "n_late net = l # ls" using assms x by (cases "n_late net") (auto simp: friendly_def)
  show thesis
  proof (cases x)
    case RxAgain
    with assms x l show thesis
      by (intro that [of 0 "net\<lparr>n_rx := xs\<rparr>" ls]) (auto simp: friendly_def drain_ack_def)
  next
    case RxError
    with assms x show thesis by (simp add: friendly_def)
  next
    case (RxMsg rcvd ack)
    with assms x l show thesis
      by (intro that [of 1 "net\<lparr>n_rx := xs, n_acks := n_acks net + 1\<rparr>" ls]) (auto simp: friendly_def drain_ack_def)
  qed
qed

lemma friendly_drain_loop:
  "friendly r t net \<Longrightarrow> 0 \<le> k \<Longrightarrow> k \<le> e \<Longrightarrow> e - k \<le> r \<Longrightarrow>
    \<exists>v net'. drain_loop e a k net = Some (v, net') \<and> friendly (r - (v - k)) t net'
      \<and> k \<le> v \<and> v \<le> e \<and> (a \<longrightarrow> v = e) \<and> (0 < e \<longrightarrow> 0 < v)"
proof (induction "length (n_rx net)" arbitrary: k r net rule: less_induct)
  case less
  show ?case
  proof (cases "k < e")
    case False
    then have "drain_loop e a k net = Some (k, net)" by (subst drain_loop.simps) simp
    with False less.prems show ?thesis by auto
  next
    case True
    with less.prems have "1 \<le> r" by simp
    from friendly_drain_ack [OF less.prems(1) this] obtain v ls n1 where
      n1: "drain_ack 1 net = Some (v, n1)" "v = 0 \<or> v = 1" "n_late n1 = False # ls" "friendly (r - v) t n1"
        "friendly (r - v) t (n1\<lparr>n_late := ls\<rparr>)" "length (n_rx n1) < length (n_rx net)" .
    show ?thesis
    proof (cases "v = 0 \<and> k \<noteq> 0 \<and> \<not> a")
      case stop: True
      then have "drain_loop e a k net = Some (k, n1)" unfolding drain_loop.simps [of e a k net] n1(1) using True by simp
      moreover have "friendly (r - (k - k)) t n1" using n1(4) stop by simp
      ultimately show ?thesis using stop less.prems True by (intro exI [of _ k] exI [of _ n1]) simp
    next
      case go: False
      have step: "drain_loop e a k net = drain_loop e a (k + v) (n1\<lparr>n_late := ls\<rparr>)"
        unfolding drain_loop.simps [of e a k net] n1(1) using True go n1(2,3) by auto
      have "\<exists>v' net'. drain_loop e a (k + v) (n1\<lparr>n_late := ls\<rparr>) = Some (v', net') \<and> friendly (r - v - (v' - (k + v))) t net'
          \<and> k + v \<le> v' \<and> v' \<le> e \<and> (a \<longrightarrow> v' = e) \<and> (0 < e \<longrightarrow> 0 < v')"
        by (rule less.hyps [OF _ n1(5)]) (use n1(2,6) less.prems True in auto)
      then obtain v' net' where v': "drain_loop e a (k + v) (n1\<lparr>n_late := ls\<rparr>) = Some (v', net')"
        "friendly (r - v - (v' - (k + v))) t net'" "k + v \<le> v'" "v' \<le> e" "a \<longrightarrow> v' = e" "0 < e \<longrightarrow> 0 < v'" by blast
      have "r - v - (v' - (k + v)) = r - (v' - k)" by simp
      with v' n1(2) step show ?thesis by (intro exI [of _ v'] exI [of _ net']) auto
    qed
  qed
qed

lemma friendly_drain:
  assumes "friendly r t net" "0 \<le> e" "e \<le> r"
  obtains v net' where "drain_ack_timeout e a net = Some (v, net')" "friendly (r - v) t net'"
    "0 \<le> v" "v \<le> e" "a \<Longrightarrow> v = e" "0 < e \<Longrightarrow> 0 < v"
proof (cases "e = 0")
  case True
  then show thesis using assms by (intro that [of 0 net]) (simp_all add: drain_ack_timeout_def)
next
  case False
  from friendly_drain_loop [OF assms(1), of 0 e a] assms(2,3) obtain v net' where
    "drain_loop e a 0 net = Some (v, net')" "friendly (r - v) t net'" "0 \<le> v" "v \<le> e" "a \<longrightarrow> v = e" "0 < e \<longrightarrow> 0 < v" by auto
  with False show thesis by (intro that [of v net']) (simp_all add: drain_ack_timeout_def)
qed

lemma friendly_sendto:
  "friendly r t net \<Longrightarrow> 1 \<le> t \<Longrightarrow>
    \<exists>ts ls. sendto_loop (n_tx net) (n_late net) = Some (True, ts, ls) \<and> friendly r (t - 1) (net\<lparr>n_tx := ts, n_late := ls\<rparr>)"
proof (induction "n_tx net" arbitrary: net)
  case Nil
  then show ?case by (auto simp: friendly_def)
next
  case (Cons x xs)
  show ?case
  proof (cases x)
    case TxOk
    then show ?thesis using Cons.prems Cons.hyps(2) [symmetric] by (auto simp: friendly_def)
  next
    case TxError
    then show ?thesis using Cons.prems Cons.hyps(2) [symmetric] by (auto simp: friendly_def)
  next
    case TxAgain
    obtain l ls where l: "n_late net = l # ls"
      using Cons.prems(1) Cons.hyps(2) [symmetric] by (cases "n_late net") (auto simp: friendly_def)
    let ?n = "net\<lparr>n_tx := xs, n_late := ls\<rparr>"
    have "friendly r t ?n" using Cons.prems(1) Cons.hyps(2) [symmetric] l TxAgain by (auto simp: friendly_def)
    from Cons.hyps(1) [OF _ this Cons.prems(2)] obtain ts ls' where
      "sendto_loop xs ls = Some (True, ts, ls')" "friendly r (t - 1) (net\<lparr>n_tx := ts, n_late := ls'\<rparr>)" by auto
    moreover have "\<not> l" using Cons.prems(1) l by (simp add: friendly_def)
    ultimately show ?thesis using Cons.hyps(2) [symmetric] l TxAgain by simp
  qed
qed

lemma friendly_send:
  assumes "friendly r t net" "1 \<le> t" "0 \<le> w" "w \<le> wt" "1 \<le> wt" "w = 0 \<Longrightarrow> wt \<le> r"
  obtains w' net' where "send_single cur buf ps fl mid True w wt net = Some (0, w', net')"
    "friendly (r - (w' + 1 - w)) (t - 1) net'" "0 \<le> w'" "w' \<le> wt"
proof -
  obtain w1 n1 where n1: "window_loop True wt w net = Some (Some w1, n1)" "friendly (r - (w1 - w)) t n1" "1 \<le> w1" "w1 \<le> wt"
  proof (cases "w = 0")
    case True
    from friendly_drain [OF assms(1) _ assms(6) [OF True], of False] assms(5) obtain v net' where
      "drain_ack_timeout wt False net = Some (v, net')" "friendly (r - v) t net'" "v \<le> wt" "0 < v" by auto
    with True assms show thesis by (intro that [of v net']) (simp_all add: window_loop_once)
  next
    case False
    with assms show thesis by (intro that [of w net]) (simp_all add: window_loop_once)
  qed
  from friendly_sendto [OF n1(2) assms(2)] obtain ts ls where
    ts: "sendto_loop (n_tx n1) (n_late n1) = Some (True, ts, ls)" "friendly (r - (w1 - w)) (t - 1) (n1\<lparr>n_tx := ts, n_late := ls\<rparr>)" by blast
  let ?net = "n1\<lparr>n_tx := ts, n_late := ls,
    n_wire := n_wire n1 @ [(\<lparr>slmp_flags = htons fl, msg_id = htonl mid, pkt_off = htonl (of_nat cur)\<rparr>,
      take (if length buf - cur > ps then ps else length buf - cur) (drop cur buf))]\<rparr>"
  have "send_single cur buf ps fl mid True w wt net = Some (0, w1 - 1, ?net)"
    unfolding send_single_def n1(1) by (simp add: ts(1) Let_def)
  moreover have "friendly (r - (w1 - 1 + 1 - w)) (t - 1) ?net" using ts(2) by (simp add: friendly_def)
  ultimately show thesis using n1(3,4) by (intro that [of "w1 - 1" ?net]) auto
qed

text \<open>Threads that have not failed, with windows between zero and the limit; \<open>owed\<close> are the acknowledgements to come.\<close>

definition par_fine :: "int \<Rightarrow> par_state \<Rightarrow> bool" where
  "par_fine limit s \<longleftrightarrow> \<not> p_exit s \<and> set (p_ret s) \<subseteq> {0} \<and> length (p_window s) = length (p_ret s)
     \<and> (\<forall>w \<in> set (p_window s). 0 \<le> w \<and> w \<le> limit)"

definition owed :: "int \<Rightarrow> int list \<Rightarrow> int" where
  "owed limit ws = sum_list (map (\<lambda>w. limit - w) ws)"

lemma owed_ge:
  assumes "\<forall>w \<in> set ws. w \<le> limit" "w \<in> set ws"
  shows "limit - w \<le> owed limit ws"
  unfolding owed_def using assms by (intro member_le_sum_list) auto

lemma owed_sum: "owed limit ws = int (length ws) * limit - sum_list ws"
  by (induction ws) (auto simp: owed_def algebra_simps)

lemma owed_set: "i < length ws \<Longrightarrow> owed limit (ws[i := w]) = owed limit ws - (w - ws ! i)"
  by (simp add: owed_sum sum_list_set)

lemma friendly_iter:
  assumes "par_fine limit s" "friendly r t (p_net s)" "1 \<le> t" "1 \<le> limit" "owed limit (p_window s) \<le> r"
    and "0 < ps" "1 \<le> k" "th < length (p_ret s)"
  obtains s' d where "par_iter True buf ps mid limit (k, th, e) s = Some s'" "par_fine limit s'"
    "length (p_ret s') = length (p_ret s)" "friendly (r - d) (t - 1) (p_net s')" "owed limit (p_window s') = owed limit (p_window s) - d + 1"
proof -
  let ?w = "p_window s ! th"
  have th: "th < length (p_window s)" using assms(1,8) by (simp add: par_fine_def)
  have w: "0 \<le> ?w" "?w \<le> limit" using assms(1) nth_mem [OF th] by (simp_all add: par_fine_def)
  have "limit \<le> r" if "?w = 0"
    using owed_ge [of "p_window s" limit ?w] nth_mem [OF th] assms(1,5) that by (simp add: par_fine_def)
  from friendly_send [OF assms(2,3) w assms(4) this] obtain w' net' where
    n: "send_single (k * ps) buf ps MKSYN mid True ?w limit (p_net s) = Some (0, w', net')"
      "friendly (r - (w' + 1 - ?w)) (t - 1) net'" "0 \<le> w'" "w' \<le> limit" by blast
  have r0: "p_ret s ! th = 0" using assms(1) nth_mem [OF assms(8)] by (auto simp: par_fine_def)
  let ?s = "s\<lparr>p_exit := p_exit s \<or> False, p_window := (p_window s)[th := w'], p_ret := (p_ret s)[th := 0], p_net := net'\<rparr>"
  have "par_iter True buf ps mid limit (k, th, e) s = Some ?s"
    using assms(1,6,7) r0 n(1) by (simp add: par_iter_def par_fine_def)
  moreover have "par_fine limit ?s"
    using assms(1) n(3,4) set_update_subset_insert [of "p_window s" th w'] set_update_subset_insert [of "p_ret s" th 0]
    unfolding par_fine_def by auto
  ultimately show thesis using n(2) owed_set [OF th, of limit w'] by (intro that [of ?s "w' + 1 - ?w"]) simp_all
qed

lemma friendly_par_loop:
  "par_fine limit s \<Longrightarrow> friendly r t (p_net s) \<Longrightarrow> 1 \<le> limit \<Longrightarrow> 0 < ps \<Longrightarrow>
    \<forall>(k, th, e) \<in> set sched. 1 \<le> k \<and> th < length (p_ret s) \<Longrightarrow>
    owed limit (p_window s) + int (length sched) + r0 \<le> r \<Longrightarrow> 0 \<le> r0 \<Longrightarrow> int (length sched) + t0 \<le> t \<Longrightarrow> 0 \<le> t0 \<Longrightarrow>
    \<exists>s' r' t'. par_loop True buf ps mid limit sched s = Some s' \<and> par_fine limit s' \<and> length (p_ret s') = length (p_ret s)
      \<and> friendly r' t' (p_net s') \<and> owed limit (p_window s') + r0 \<le> r' \<and> t0 \<le> t'"
proof (induction sched arbitrary: s r t)
  case (Cons i sched)
  obtain k th e where i: "i = (k, th, e)" by (cases i)
  have kt: "1 \<le> k" "th < length (p_ret s)" using Cons.prems(5) i by auto
  from friendly_iter [OF Cons.prems(1,2) _ Cons.prems(3) _ Cons.prems(4) kt, of buf mid e] Cons.prems(6-9) obtain s1 d where
    s1: "par_iter True buf ps mid limit (k, th, e) s = Some s1" "par_fine limit s1" "length (p_ret s1) = length (p_ret s)"
      "friendly (r - d) (t - 1) (p_net s1)" "owed limit (p_window s1) = owed limit (p_window s) - d + 1" by auto
  have "\<exists>s' r' t'. par_loop True buf ps mid limit sched s1 = Some s' \<and> par_fine limit s' \<and> length (p_ret s') = length (p_ret s1)
      \<and> friendly r' t' (p_net s') \<and> owed limit (p_window s') + r0 \<le> r' \<and> t0 \<le> t'"
    by (rule Cons.IH [OF s1(2,4) Cons.prems(3,4)]) (use Cons.prems s1(3,5) in auto)
  then show ?case using s1(1,3) i by simp
qed auto

lemma sum_list_zeros: "set xs \<subseteq> {0} \<Longrightarrow> sum_list xs = 0" for xs :: "int list"
  by (induction xs) auto

lemma friendly_finish:
  assumes "par_fine limit s" "friendly r t (p_net s)" "1 \<le> limit" "owed limit (p_window s) + 1 \<le> r" "1 \<le> t"
    and "p_ret s \<noteq> []" "wt = limit * int (length (p_ret s))"
  shows "\<exists>net'. slmp_finish sock mid buf ps wt cur s = Some (Returned 0 True, net')"
proof -
  have r0: "sum_list (p_ret s) = 0" using assms(1) by (intro sum_list_zeros) (simp add: par_fine_def)
  let ?w = "sum_list (p_window s)"
  have o: "owed limit (p_window s) = wt - ?w" using assms(1,7) by (simp add: owed_sum par_fine_def mult.commute)
  have w: "0 \<le> ?w" using assms(1) by (intro sum_list_nonneg) (auto simp: par_fine_def)
  have o0: "0 \<le> owed limit (p_window s)" unfolding owed_def using assms(1) by (intro sum_list_nonneg) (auto simp: par_fine_def)
  have "1 * 1 \<le> limit * int (length (p_ret s))" using assms(3,6) by (intro mult_mono) (auto simp: Suc_le_eq)
  then have wt: "1 \<le> wt" using assms(7) by simp
  define last_send where "last_send = (if cur < length buf
      then send_single cur buf ps (MKEOM OR MKSYN) mid True ?w wt (p_net s) else Some (0, ?w, p_net s))"
  obtain w' r' t' n1 where l: "last_send = Some (0, w', n1)" "friendly r' t' n1" "wt - w' \<le> r'" "0 \<le> wt - w'"
  proof (cases "cur < length buf")
    case True
    have "?w \<le> wt" "?w = 0 \<Longrightarrow> wt \<le> r" using o o0 assms(4) by auto
    from friendly_send [OF assms(2,5) w this(1) wt this(2)] obtain w' net' where
      "send_single cur buf ps (MKEOM OR MKSYN) mid True ?w wt (p_net s) = Some (0, w', net')"
      "friendly (r - (w' + 1 - ?w)) (t - 1) net'" "w' \<le> wt" by blast
    with True o o0 assms(4) show thesis by (intro that [of w' net']) (auto simp: last_send_def)
  next
    case False
    with o o0 assms(2,4) show thesis by (intro that [of ?w "p_net s" r t]) (auto simp: last_send_def)
  qed
  from friendly_drain [OF l(2,4,3), of True] obtain net' where "drain_ack_timeout (wt - w') True n1 = Some (wt - w', net')" by auto
  with l(1) r0 show ?thesis unfolding slmp_finish_def Let_def last_send_def [symmetric] by simp
qed

lemma slmp_send_progress:
  assumes "slmp_socket wnd align fc threads = Inr sock" "0 < wnd" "0 < slmp_payload_size align"
    and "mset (map fst sched) = mset [1..<Suc (par_trips (length buf) (slmp_payload_size align))]"
    and "\<forall>(k, t, e) \<in> set sched. t < nat threads"
    and "friendly (2 + int (length sched)) (2 + int (length sched)) net" "wnd + threads \<le> 2 ^ 31"
  shows "\<exists>net'. slmp_sendmsg (True, True) sched cur0 sock mid buf net = Some (Returned 0 True, net')"
proof -
  define ps where "ps = slmp_payload_size align"
  define lim where "lim = (wnd + threads - 1) div threads"
  have sk: "sk_align sock = align" "sk_wnd_sz sock = wnd" "sk_num_threads sock = threads" "0 < threads"
    using assms(1) by (auto simp: slmp_socket_def split: if_splits)
  have "threads \<le> wnd + threads - 1" using assms(2) by simp
  then have lim: "1 \<le> lim" using pos_imp_zdiv_pos_iff [OF sk(4), of "wnd + threads - 1"] unfolding lim_def by linarith
  have al: "align \<noteq> 0" using assms(3) by (auto simp: slmp_payload_size_def)
  let ?f = "if ps \<ge> length buf then MKSYN OR MKEOM else MKSYN" and ?L = "int (length sched)"
  from friendly_send [OF assms(6), of 1 1 0 buf ps ?f mid] obtain w1 n1 where
    n1: "send_single 0 buf ps ?f mid True 1 1 net = Some (0, w1, n1)" "friendly (2 + ?L - w1) (1 + ?L) n1" "0 \<le> w1" "w1 \<le> 1" by auto
  from friendly_drain [OF n1(2), of 1 True] n1(4) obtain n2 where
    n2: "drain_ack_timeout 1 True n1 = Some (1, n2)" "friendly (2 + ?L - w1 - 1) (1 + ?L) n2" by auto
  have "w1 = 0" using n1(1) by (simp add: send_single_def window_loop_once Let_def split: option.splits prod.splits bool.splits)
  let ?s0 = "\<lparr>p_exit = False, p_window = replicate (nat threads) lim, p_ret = replicate (nat threads) 0, p_net = n2\<rparr>"
  have ks: "k \<in> {1..par_trips (length buf) ps}" if "(k, t, e) \<in> set sched" for k t e
    using arg_cong [OF assms(4), of set_mset] image_eqI [OF _ that, of k fst]
    by (simp add: ps_def set_eq_iff less_Suc_eq_le del: upt_Suc)
  have "par_fine lim ?s0" using lim by (auto simp: par_fine_def)
  moreover have "\<forall>(k, t, e) \<in> set sched. 1 \<le> k \<and> t < length (p_ret ?s0)" using ks assms(5) by fastforce
  moreover have "owed lim (p_window ?s0) = 0" using sk(4) by (simp add: owed_def sum_list_replicate)
  ultimately obtain s r' t' where s: "par_loop True buf ps mid lim sched ?s0 = Some s" "par_fine lim s"
      "length (p_ret s) = nat threads" "friendly r' t' (p_net s)" "owed lim (p_window s) + 1 \<le> r'" "1 \<le> t'"
    using friendly_par_loop [of lim ?s0 "1 + ?L" "1 + ?L" ps sched 1 1 buf mid] lim n2(2) assms(3) \<open>w1 = 0\<close> by (auto simp: ps_def)
  have "\<exists>net'. slmp_finish sock mid buf ps (lim * threads) (cur_after cur0 (length buf) ps) s = Some (Returned 0 True, net')"
    by (rule friendly_finish [OF s(2,4) lim s(5,6)]) (use s(3) sk(4) in auto)
  then show ?thesis
    using n1(1) n2(1) s(1) assms(2,3,7) al unfolding slmp_sendmsg_def Let_def sk ps_def [symmetric] lim_def [symmetric] by simp
qed

text \<open>
  Property C36. With a window (whose sum with the number of threads fits into an \<open>int\<close>) the call succeeds for a
  message of any size when the network takes the packets and the NIC acknowledges them before the deadlines: the
  socket may answer EAGAIN any number of times before each packet is taken and before each acknowledgement, and the
  sender polls on, also when it gets a part of its window only; no thread starves for a window that another one holds.
\<close>

theorem slmp_send_succeeds:
  assumes "slmp_socket wnd align fc threads = Inr sock" "0 < wnd" "0 < slmp_payload_size align"
    and "mset (map fst sched) = mset [1..<Suc (par_trips (length buf) (slmp_payload_size align))]"
    and "\<forall>(k, t, e) \<in> set sched. t < nat threads"
    and "friendly (2 + int (length sched)) (2 + int (length sched)) net" "wnd + threads \<le> 2 ^ 31"
  shows "\<exists>net'. slmp_sendmsg (True, True) sched cur0 sock mid buf net = Some (Returned 0 True, net')"
  using assms by (rule slmp_send_progress)

definition example_sock :: slmp_sock where
  "example_sock = \<lparr>sk_wnd_sz = 4, sk_align = 1000, sk_fc_us = 0, sk_num_threads = 2\<rparr>"

definition example_ack :: rx where
  "example_ack = RxMsg 10 \<lparr>slmp_flags = htons MKACK, msg_id = 0, pkt_off = 0\<rparr>"

definition example_net :: slmp_net where
  "example_net = \<lparr>n_rx = [RxAgain, RxAgain, example_ack, example_ack, RxAgain, example_ack], n_late = replicate 10 False,
     n_tx = [TxOk, TxAgain, TxOk, TxOk], n_acks = 0, n_wire = []\<rparr>"

definition example_buf :: "u8 list" where
  "example_buf = replicate 2500 7"

lemma example_net_friendly: "friendly 3 3 example_net" "only_acks example_net"
proof -
  have "ACK (ntohs (htons MKACK))" by code_simp
  then show "friendly 3 3 example_net" "only_acks example_net"
    by (simp_all add: friendly_def only_acks_def example_net_def example_ack_def sizeof_slmp_hdr_def list_all_iff)
qed

lemma example_send:
  "slmp_socket 4 1000 0 2 = Inr example_sock" "slmp_payload_size 1000 = 1000"
  "par_trips (length example_buf) 1000 = 1" "length (slmp_packets example_sock 7 example_buf) = 3"
  by (simp_all add: slmp_socket_def example_sock_def slmp_payload_size_def SLMP_PAYLOAD_SIZE_def par_trips_def example_buf_def
      slmp_packets_def slmp_npkts_def Let_def)

lemma example_send_runs: "\<exists>net'. slmp_sendmsg (True, True) [(1, 1, False)] 1000 example_sock 7 example_buf example_net = Some (Returned 0 True, net')"
  using example_net_friendly(1) by (intro slmp_send_progress [OF example_send(1)]) (simp_all add: example_send)

theorem slmp_send_succeeds_witness:
  "\<exists>net'. slmp_sendmsg (True, True) [(1, 1, False)] 0 example_sock 7 example_buf example_net = Some (Returned 0 True, net')"
  using example_net_friendly(1) by (intro slmp_send_succeeds [OF example_send(1)]) (simp_all add: example_send)

theorem slmp_send_complete_witness:
  "\<exists>net' ws. slmp_sendmsg (True, True) [(1, 1, False)] 1000 example_sock 7 example_buf example_net = Some (Returned 0 True, net')
    \<and> n_wire net' = ws \<and> mset ws = mset (slmp_packets example_sock 7 example_buf) \<and> 3 \<le> n_acks net'"
proof -
  obtain net' where r: "slmp_sendmsg (True, True) [(1, 1, False)] 1000 example_sock 7 example_buf example_net = Some (Returned 0 True, net')"
    using example_send_runs by blast
  have n: "n_wire example_net = []" "n_acks example_net = 0" by (simp_all add: example_net_def)
  have "mset (map fst [(1 :: nat, 1 :: nat, False)]) = mset [1..<Suc (par_trips (length example_buf) (slmp_payload_size 1000))]"
    unfolding example_send by simp
  from slmp_send_complete [OF example_send(1) r this] have
    "(\<exists>ws. n_wire net' = n_wire example_net @ ws \<and> mset ws = mset (slmp_packets example_sock 7 example_buf)
        \<and> hd ws = hd (slmp_packets example_sock 7 example_buf) \<and> last ws = last (slmp_packets example_sock 7 example_buf))
     \<and> 3 \<le> n_acks net'"
    using example_net_friendly(2) by (simp add: example_send n)
  then obtain ws where "n_wire net' = ws" "mset ws = mset (slmp_packets example_sock 7 example_buf)" "3 \<le> n_acks net'"
    unfolding n append_Nil by blast
  with r show ?thesis by blast
qed

section \<open>Limits of the sender\<close>

text \<open>
  A window of size zero is documented as an unlimited window without acknowledgements. The final drain still waits for an
  acknowledgement of every packet, although only the first and the last packet ask for one.
\<close>

lemma unlimited_window_acks:
  assumes "slmp_socket 0 align fc threads = Inr sock" "ps = slmp_payload_size align" "0 < ps" "ps < length buf"
  shows "length (filter (\<lambda>p. SYN (ntohs (slmp_flags (fst p)))) (slmp_packets sock mid buf)) = 2"
proof -
  have sk: "sk_align sock = align" "sk_wnd_sz sock = 0" using assms(1) by (auto simp: slmp_socket_def split: if_splits)
  have "SYN MKSYN" "SYN (MKEOM OR MKSYN)" "\<not> SYN 0" by code_simp+
  then show ?thesis unfolding slmp_packets_split [of ps sock mid buf, unfolded sk, OF assms(2,3)]
    using assms(4) by (simp add: packet_at_def filter_empty_conv del: upt_Suc)
qed

text \<open>
  If the variable \<open>cur\<close> keeps its value over a parallel loop without iterations, a message of two packets is sent without its
  second half, and the call succeeds.
\<close>

lemma two_packets_lose_tail:
  assumes "slmp_socket wnd align fc threads = Inr sock" "ps = slmp_payload_size align" "ps < length buf" "length buf \<le> 2 * ps"
    and "slmp_sendmsg opts [] 0 sock mid buf net = Some (Returned 0 c, net')"
  shows "n_wire net' = n_wire net @ [packet_at buf ps mid 0 MKSYN, packet_at buf ps mid 0 (MKEOM OR MKSYN)]"
proof -
  have "(length buf - 1) div ps < 2" using assms(3,4) by (intro div_less_iff_less_mult [THEN iffD2]) auto
  then have tr: "par_trips (length buf) ps = 0" by (simp add: par_trips_def)
  have "mset (map fst ([] :: (nat \<times> nat \<times> bool) list)) = mset [1..<Suc (par_trips (length buf) (slmp_payload_size align))]"
    using tr assms(2) by simp
  from slmp_send_trace [OF assms(1,5) this _ assms(2)] have
    "n_wire net' = n_wire net @ packet_at buf ps mid 0 (if length buf \<le> ps then MKSYN OR MKEOM else MKSYN)
        # (if cur_after 0 (length buf) ps < length buf then [packet_at buf ps mid (cur_after 0 (length buf) ps) (MKEOM OR MKSYN)] else [])"
    by simp
  moreover have "cur_after 0 (length buf) ps = 0" using tr by (simp add: cur_after_def)
  moreover have "0 < length buf" using assms(3) by linarith
  ultimately show ?thesis using assms(3) by (simp only: not_le [symmetric] if_True if_False not_False_eq_True)
qed

text \<open>The exit after a missing first acknowledgement leaves the socket open.\<close>

definition tiny_net :: "rx \<Rightarrow> slmp_net" where
  "tiny_net r = \<lparr>n_rx = [r], n_late = [True], n_tx = [TxOk], n_acks = 0, n_wire = []\<rparr>"

lemmas tiny_run = slmp_sendmsg_def slmp_finish_def example_sock_def tiny_net_def slmp_payload_size_def SLMP_PAYLOAD_SIZE_def send_single_def
  window_loop_once drain_ack_timeout_def drain_loop.simps drain_ack_def Let_def cur_after_def par_trips_def sum_list_replicate

lemma syn_timeout_keeps_socket:
  "\<exists>net'. slmp_sendmsg (True, True) [] 1000 example_sock 7 [1] (tiny_net RxAgain) = Some (Returned (-2) False, net')"
  by (simp add: tiny_run)

text \<open>An error while waiting for the first acknowledgement counts as the acknowledgement.\<close>

lemma syn_error_succeeds:
  "\<exists>net'. slmp_sendmsg (True, True) [] 1000 example_sock 7 [1] (tiny_net RxError) = Some (Returned 0 True, net') \<and> n_acks net' = 0"
  by (simp add: tiny_run)

end
