(* ===== verification/Slmp_Message.thy ===== *)
theory Slmp_Message
  imports Slmp_Nic Slmp_Sender
begin

text \<open>
  The path of an SLMP message from the sender to host memory: what the payload handlers of the NIC
  do, in any order of delivery and with duplicates, to the memory window of the host.
\<close>

unbundle bit_operations_syntax

section \<open>Stores into the message area\<close>

lemma host_store_at:
  assumes "p + length bs \<le> N" "N < 2 ^ 32"
  shows "host_store m (a + of_nat p) bs x
    = (if p \<le> unat (x - a) \<and> unat (x - a) < p + length bs then bs ! (unat (x - a) - p) else m x)"
proof -
  define d where "d = unat (x - a)"
  have d: "d < 2 ^ 64" using unsigned_less [of "x - a", where ?'a = nat] by (simp add: d_def)
  have x: "x - (a + of_nat p) = (x - a) - of_nat p" by simp
  have p: "unat (of_nat p :: u64) = p" using assms by (simp add: unat_of_nat take_bit_nat_eq_self)
  have u: "unat (x - (a + of_nat p)) = (if p \<le> d then d - p else d + 2 ^ 64 - p)"
    using unat_sub_if' [of "x - a" "of_nat p :: u64"] unfolding x d_def p by simp
  show ?thesis
  proof (cases "p \<le> d")
    case True
    then show ?thesis using u by (auto simp: host_store_def d_def)
  next
    case False
    have "p + length bs < 4294967296" using assms by simp
    then have "\<not> d + 2 ^ 64 - p < length bs" by simp
    then show ?thesis using u False by (simp add: host_store_def d_def)
  qed
qed

text \<open>A frame: the task of the HPU that handles it, the headers, the payload and the padding.\<close>

type_synonym frame = "task \<times> slmp_pkt_hdr \<times> u8 list \<times> u8 list"

definition frame_packet :: "frame \<Rightarrow> slmp_hdr \<times> u8 list" where
  "frame_packet = (\<lambda>(t, h, payload, pad). (sp_slmp h, payload))"

definition frame_bytes :: "frame \<Rightarrow> u8 list" where
  "frame_bytes = (\<lambda>(t, h, payload, pad). slmp_wire h payload pad)"

definition frame_ok :: "u64 \<Rightarrow> frame \<Rightarrow> bool" where
  "frame_ok base = (\<lambda>(t, h, payload, pad). slmp_wire_ok h payload \<and> HOST_ADDR t = base)"

definition deliver :: "frame list \<Rightarrow> (u64 \<Rightarrow> u8) \<Rightarrow> u64 \<Rightarrow> u8" where
  "deliver = fold (\<lambda>f. fold (run_action (t_pkt_mem (fst f)) (frame_bytes f)) (fst (slmp_ph (fst f) (frame_bytes f))))"

lemma deliver_Cons:
  assumes "frame_ok base f"
  shows "deliver (f # fs) m = deliver fs (host_store m (base + 0x10000 + ucast (ntohl (pkt_off (fst (frame_packet f))))) (snd (frame_packet f)))"
proof -
  obtain t h payload pad where f: "f = (t, h, payload, pad)" by (cases f)
  with assms have "slmp_wire_ok h payload" "HOST_ADDR t = base" by (simp_all add: frame_ok_def)
  with slmp_ph_store [of h payload t pad m] f show ?thesis by (simp add: deliver_def frame_bytes_def frame_packet_def)
qed

text \<open>A packet that carries a piece of the message at its place.\<close>

definition piece_of :: "u8 list \<Rightarrow> slmp_hdr \<times> u8 list \<Rightarrow> nat \<Rightarrow> bool" where
  "piece_of buf p cur \<longleftrightarrow> ntohl (pkt_off (fst p)) = of_nat cur \<and> cur + length (snd p) \<le> length buf
     \<and> snd p = take (length (snd p)) (drop cur buf)"

lemma deliver_pieces:
  assumes "\<forall>f \<in> set fs. frame_ok base f \<and> (\<exists>cur. piece_of buf (frame_packet f) cur)" "length buf < 2 ^ 32"
  shows "deliver fs m x = (if \<exists>f \<in> set fs. \<exists>cur. piece_of buf (frame_packet f) cur
        \<and> cur \<le> unat (x - (base + 0x10000)) \<and> unat (x - (base + 0x10000)) < cur + length (snd (frame_packet f))
      then buf ! unat (x - (base + 0x10000)) else m x)"
  using assms(1)
proof (induction fs arbitrary: m)
  case Nil
  then show ?case by (simp add: deliver_def)
next
  case (Cons f fs)
  let ?d = "unat (x - (base + 0x10000))"
  obtain cur where c: "frame_ok base f" "piece_of buf (frame_packet f) cur" using Cons.prems by auto
  define p where "p = snd (frame_packet f)"
  have pc: "ntohl (pkt_off (fst (frame_packet f))) = of_nat cur" "cur + length p \<le> length buf" "p = take (length p) (drop cur buf)"
    using c(2) by (simp_all add: piece_of_def p_def)
  have u: "(ucast (of_nat cur :: u32) :: u64) = of_nat cur"
    using pc(2) assms(2) by (simp add: word_unat_eq_iff unat_of_nat take_bit_nat_eq_self unsigned_ucast_eq)
  have only: "cur' = cur" if "piece_of buf (frame_packet f) cur'" for cur'
  proof -
    have "(of_nat cur' :: u32) = of_nat cur" "cur' \<le> length buf" using that c(2) by (auto simp: piece_of_def)
    then have "unat (of_nat cur' :: u32) = unat (of_nat cur :: u32)" by simp
    then show ?thesis using pc(2) \<open>cur' \<le> length buf\<close> assms(2) by (simp add: unat_of_nat take_bit_nat_eq_self)
  qed
  have nth: "p ! (?d - cur) = buf ! ?d" if "cur \<le> ?d" "?d < cur + length p"
  proof -
    have "p ! (?d - cur) = take (length p) (drop cur buf) ! (?d - cur)" using pc(3) by (rule arg_cong)
    also have "\<dots> = buf ! ?d" using that pc(2) by simp
    finally show ?thesis .
  qed
  let ?Q = "\<lambda>f. \<exists>cur. piece_of buf (frame_packet f) cur \<and> cur \<le> ?d \<and> ?d < cur + length (snd (frame_packet f))"
  have Q: "?Q f \<longleftrightarrow> cur \<le> ?d \<and> ?d < cur + length p" using only c(2) unfolding p_def by blast
  have "deliver (f # fs) m x = deliver fs (host_store m (base + 0x10000 + of_nat cur) p) x"
    using deliver_Cons [OF c(1), of fs m] pc(1) u by (simp add: p_def)
  also have "\<dots> = (if \<exists>f \<in> set fs. ?Q f then buf ! ?d else host_store m (base + 0x10000 + of_nat cur) p x)"
    using Cons.prems by (intro Cons.IH) simp
  also have "host_store m (base + 0x10000 + of_nat cur) p x = (if ?Q f then buf ! ?d else m x)"
    unfolding host_store_at [OF pc(2) assms(2)] Q using nth by simp
  finally show ?case unfolding list.set Set.bex_simps(5) by (simp only: if_splits) argo
qed

section \<open>The packets of the sender as pieces\<close>

lemma packet_piece:
  assumes "k * ps \<le> length buf"
  shows "piece_of buf (packet_at buf ps mid (k * ps) fl) (k * ps)"
  using assms by (auto simp: piece_of_def packet_at_def min_def)

lemma slmp_packets_mem:
  assumes "ps = slmp_payload_size (sk_align sock)" "p \<in> set (slmp_packets sock mid buf)" "0 < ps"
  obtains k where "k < slmp_npkts (length buf) ps" "k * ps \<le> length buf"
    "p = packet_at buf ps mid (k * ps) (slmp_pkt_flags (sk_wnd_sz sock > 0) (slmp_npkts (length buf) ps) k)"
proof -
  from assms(1,2) obtain k where k: "k < slmp_npkts (length buf) ps"
    "p = packet_at buf ps mid (k * ps) (slmp_pkt_flags (sk_wnd_sz sock > 0) (slmp_npkts (length buf) ps) k)"
    by (auto simp: slmp_packets_def Let_def)
  have "k * ps \<le> (length buf - 1) div ps * ps" using k(1) by (intro mult_right_mono) (simp_all add: slmp_npkts_def)
  also have "\<dots> \<le> length buf" by (meson div_times_less_eq_dividend diff_le_self le_trans)
  finally show thesis using k by (intro that)
qed

lemma slmp_packets_cover:
  assumes "ps = slmp_payload_size (sk_align sock)" "0 < ps" "i < length buf"
  shows "\<exists>p \<in> set (slmp_packets sock mid buf). \<exists>cur. piece_of buf p cur \<and> cur \<le> i \<and> i < cur + length (snd p)"
proof -
  let ?k = "i div ps" and ?n = "slmp_npkts (length buf) ps"
  let ?p = "packet_at buf ps mid (?k * ps) (slmp_pkt_flags (sk_wnd_sz sock > 0) ?n ?k)"
  have "?k \<le> (length buf - 1) div ps" using assms(3) by (intro div_le_mono) simp
  then have "?p \<in> set (slmp_packets sock mid buf)"
    by (auto simp: slmp_packets_def assms(1) [symmetric] Let_def slmp_npkts_def simp del: upt_Suc intro!: imageI)
  moreover have b: "?k * ps \<le> i" "i < ?k * ps + ps" using dividend_less_div_times [OF assms(2), of i] by (simp_all add: add.commute)
  then have "piece_of buf ?p (?k * ps)" using assms(3) by (intro packet_piece) linarith
  moreover have "i < ?k * ps + length (snd ?p)" using b assms(3) by (simp add: packet_at_def)
  ultimately show ?thesis using b(1) by blast
qed

lemma eom_flag:
  assumes "k < n"
  shows "EOM (slmp_pkt_flags afa n k) \<longleftrightarrow> k = n - 1" "k = 0 \<Longrightarrow> SYN (slmp_pkt_flags afa n k)"
proof -
  have "EOM (MKSYN OR MKEOM)" "\<not> EOM MKSYN" "EOM (MKEOM OR MKSYN)" "\<not> EOM 0" "SYN (MKSYN OR MKEOM)" "SYN MKSYN" by code_simp+
  then show "EOM (slmp_pkt_flags afa n k) \<longleftrightarrow> k = n - 1" "k = 0 \<Longrightarrow> SYN (slmp_pkt_flags afa n k)"
    using assms by (auto simp: slmp_pkt_flags_def)
qed

text \<open>The head and the tail handler on the packets of a message.\<close>

lemma slmp_head_tail:
  assumes "ps = slmp_payload_size (sk_align sock)" "0 < ps" "length buf < 2 ^ 32" "frame_ok base f"
    and "frame_packet f \<in> set (slmp_packets sock mid buf)"
  shows "ntohl (pkt_off (fst (frame_packet f))) = 0 \<Longrightarrow> slmp_hh (frame_bytes f) = []"
    "slmp_th (frame_bytes f) = (if EOM (ntohs (slmp_flags (fst (frame_packet f)))) then [HostReq (of_nat (length buf))] else [Printed])"
proof -
  obtain t h payload pad where f: "f = (t, h, payload, pad)" by (cases f)
  with assms(4) have w: "slmp_wire_ok h payload" "eth_ok (sp_eth h)" by (simp_all add: frame_ok_def slmp_wire_ok_def)
  have g: "get_slmp_pkt (frame_bytes f) = h" using w(2) by (simp add: f frame_bytes_def slmp_wire_def get_slmp_pkt_bytes)
  have fp: "frame_packet f = (sp_slmp h, payload)" by (simp add: f frame_packet_def)
  let ?n = "slmp_npkts (length buf) ps"
  from slmp_packets_mem [OF assms(1,5,2)] obtain k where k: "k < ?n" "k * ps \<le> length buf"
    "(sp_slmp h, payload) = packet_at buf ps mid (k * ps) (slmp_pkt_flags (sk_wnd_sz sock > 0) ?n k)"
    by (auto simp: fp)
  then have p: "pkt_off (sp_slmp h) = htonl (of_nat (k * ps))" "slmp_flags (sp_slmp h) = htons (slmp_pkt_flags (sk_wnd_sz sock > 0) ?n k)"
    "payload = take ps (drop (k * ps) buf)" by (simp_all add: packet_at_def)
  have "unat (of_nat (k * ps) :: u32) = k * ps"
    using k(2) assms(3) by (simp add: unat_of_nat take_bit_nat_eq_self del: of_nat_mult)
  then have "k = 0" if "(of_nat (k * ps) :: u32) = 0" using that assms(2) by simp
  then show "slmp_hh (frame_bytes f) = []" if "ntohl (pkt_off (fst (frame_packet f))) = 0"
    using that eom_flag(2) [OF k(1)] by (simp add: slmp_hh_def g p(1,2) fp Let_def del: of_nat_mult)
  have "k * ps + length payload = length buf" if "k = ?n - 1"
  proof -
    have "length buf - 1 < k * ps + ps" using that dividend_less_div_times [OF assms(2), of "length buf - 1"] by (simp add: slmp_npkts_def)
    then show ?thesis using k(2) p(3) by simp
  qed
  then have "(of_nat (k * ps) + SLMP_PAYLOAD_LEN h :: u32) = of_nat (length buf)" if "k = ?n - 1"
    using slmp_payload_len(1) [OF w(1)] that by (metis of_nat_add)
  then show "slmp_th (frame_bytes f) = (if EOM (ntohs (slmp_flags (fst (frame_packet f)))) then [HostReq (of_nat (length buf))] else [Printed])"
    using eom_flag(1) [OF k(1)] by (simp add: slmp_th_def g p(1,2) fp Let_def del: of_nat_mult)
qed

end
