(* ===== verification/Mqnic_Res.thy ===== *)
theory Mqnic_Res
  imports Fp_Prelude
begin

text \<open>
  Two small services of the NIC driver in \<open>modules/mqnic\<close>: the pools that hand out queue numbers
  (\<open>mqnic_res.c\<close>) and the list of register blocks that the driver finds by following pointers in the
  device (\<open>mqnic_reg_block.c\<close>).
\<close>

unbundle bit_operations_syntax

section \<open>Pools of queue numbers\<close>

text \<open>
  What the queues rely on: an allocation returns an index that was free, or fails when none is; freeing an
  index makes it free again and touches no other.
\<close>

locale index_pool =
  fixes alloc :: "'p \<Rightarrow> int \<times> 'p" and free :: "'p \<Rightarrow> int \<Rightarrow> 'p" and used :: "'p \<Rightarrow> int set" and universe :: "'p \<Rightarrow> int set"
  assumes alloc_new: "alloc p = (i, p') \<Longrightarrow> 0 \<le> i \<Longrightarrow> i \<in> universe p \<and> i \<notin> used p \<and> used p' = insert i (used p)"
    and alloc_full: "alloc p = (i, p') \<Longrightarrow> i < 0 \<Longrightarrow> used p = universe p \<and> p' = p"
    and alloc_universe: "alloc p = (i, p') \<Longrightarrow> universe p' = universe p"
    and free_used: "used (free p i) = used p - {i}"
    and free_universe: "universe (free p i) = universe p"
    and used_universe: "used p \<subseteq> universe p"
    and universe_nonneg: "i \<in> universe p \<Longrightarrow> 0 \<le> i"
begin

text \<open>Clients that hold indices: an allocation is given to nobody else before it is freed.\<close>

lemma alloc_distinct:
  assumes "alloc p = (i, p')" "0 \<le> i" "alloc p' = (j, p'')" "0 \<le> j"
  shows "i \<noteq> j"
  using alloc_new [OF assms(1,2)] alloc_new [OF assms(3,4)] by auto

lemma alloc_free_inverse:
  assumes "alloc p = (i, p')"
  shows "used (free p' i) = used p"
proof (cases "0 \<le> i")
  case True
  then show ?thesis using alloc_new [OF assms] free_used by auto
next
  case False
  then have "p' = p" "i \<notin> used p" using alloc_full [OF assms] used_universe [of p] universe_nonneg by auto
  then show ?thesis using free_used [of p i] by simp
qed

lemma alloc_succeeds:
  assumes "used p \<noteq> universe p" "alloc p = (i, p')"
  shows "0 \<le> i"
  using alloc_full [OF assms(2)] assms(1) by (cases "0 \<le> i") auto

end

record mqnic_res =
  res_count :: nat
  res_base :: u64
  res_stride :: u32
  res_bmap :: "bool list"

text \<open>
  \<open>bitmap_find_free_region\<close> of order 0 sets the first clear bit and returns its number, or returns \<open>-ENOMEM\<close>
  (here -12) when all bits are set.
\<close>

fun first_clear :: "bool list \<Rightarrow> nat option" where
  "first_clear [] = None"
| "first_clear (b # bs) = (if \<not> b then Some 0 else map_option Suc (first_clear bs))"

definition mqnic_create_res :: "bool \<Rightarrow> bool \<Rightarrow> nat \<Rightarrow> u64 \<Rightarrow> u32 \<Rightarrow> errno + (mqnic_res \<times> bool)" where
  "mqnic_create_res res_ok bmap_ok cnt base stride =
     (if \<not> res_ok then Inl ENOMEM
      else Inr (\<lparr>res_count = cnt, res_base = base, res_stride = stride, res_bmap = replicate cnt False\<rparr>, bmap_ok))"

definition mqnic_res_alloc :: "mqnic_res \<Rightarrow> int \<times> mqnic_res" where
  "mqnic_res_alloc res =
     (case first_clear (take (res_count res) (res_bmap res)) of
        None \<Rightarrow> (-12, res)
      | Some i \<Rightarrow> (int i, res\<lparr>res_bmap := (res_bmap res)[i := True]\<rparr>))"

definition mqnic_res_free :: "mqnic_res \<Rightarrow> int \<Rightarrow> mqnic_res" where
  "mqnic_res_free res index =
     (if index < 0 \<or> index \<ge> int (res_count res) then res
      else res\<lparr>res_bmap := (res_bmap res)[nat index := False]\<rparr>)"

definition mqnic_res_get_count :: "mqnic_res \<Rightarrow> nat" where
  "mqnic_res_get_count res = res_count res"

definition mqnic_res_get_addr :: "mqnic_res \<Rightarrow> int \<Rightarrow> u64 option" where
  "mqnic_res_get_addr res index =
     (if index < 0 \<or> index \<ge> int (res_count res) then None
      else Some (res_base res + ucast (of_int index * res_stride res)))"

definition res_universe :: "mqnic_res \<Rightarrow> int set" where
  "res_universe res = {i. 0 \<le> i \<and> i < int (res_count res) \<and> i < int (length (res_bmap res))}"

definition res_used :: "mqnic_res \<Rightarrow> int set" where
  "res_used res = {i \<in> res_universe res. res_bmap res ! nat i}"

lemma first_clear_spec:
  "first_clear bs = Some i \<Longrightarrow> i < length bs \<and> \<not> bs ! i"
  "first_clear bs = None \<Longrightarrow> j < length bs \<Longrightarrow> bs ! j"
proof (induction bs arbitrary: i j)
  case (Cons b bs)
  { case 1 then show ?case using Cons.IH(1) by (auto split: if_splits) }
  { case 2 then show ?case using Cons.IH(2) by (cases j) (auto split: if_splits) }
qed auto

interpretation res_pool: index_pool mqnic_res_alloc mqnic_res_free res_used res_universe
proof
  fix p i p'
  assume a: "mqnic_res_alloc p = (i, p')"
  show "0 \<le> i \<Longrightarrow> i \<in> res_universe p \<and> i \<notin> res_used p \<and> res_used p' = insert i (res_used p)"
    using a first_clear_spec(1) [of "take (res_count p) (res_bmap p)"]
    by (auto simp: mqnic_res_alloc_def res_universe_def res_used_def nth_list_update split: option.splits)
  show "i < 0 \<Longrightarrow> res_used p = res_universe p \<and> p' = p"
    using a first_clear_spec(2) [of "take (res_count p) (res_bmap p)" "nat x" for x]
    by (auto simp: mqnic_res_alloc_def res_universe_def res_used_def nat_less_iff split: option.splits)
  show "res_universe p' = res_universe p" using a by (auto simp: mqnic_res_alloc_def res_universe_def split: option.splits)
next
  fix p i
  show "res_used (mqnic_res_free p i) = res_used p - {i}"
    by (cases "nat i < length (res_bmap p)")
      (auto simp: mqnic_res_free_def res_used_def res_universe_def nth_list_update eq_nat_nat_iff list_update_beyond split: if_splits)
qed (auto simp: mqnic_res_free_def res_used_def res_universe_def)

text \<open>Different indices of a pool have disjoint register windows, as long as the windows fit into 4 GiB.\<close>

lemma res_addr_disjoint:
  assumes "mqnic_res_get_addr res i = Some a" "mqnic_res_get_addr res j = Some b" "i < j"
    and "res_count res * unat (res_stride res) < 2 ^ 32" "x < unat (res_stride res)" "y < unat (res_stride res)"
  shows "a + of_nat x \<noteq> b + of_nat y"
proof -
  let ?s = "unat (res_stride res)"
  obtain m n where mn: "i = int m" "j = int n" "m < n" "n < res_count res"
    using assms(1-3) by (auto simp: mqnic_res_get_addr_def split: if_splits intro!: that [of "nat i" "nat j"])
  have b: "n * ?s + ?s \<le> res_count res * ?s" using mn(4) mult_le_mono1 [of "Suc n" "res_count res" ?s] by simp
  have "m * ?s + ?s \<le> n * ?s" using mn(3) mult_le_mono1 [of "Suc m" n ?s] by simp
  moreover have u: "unat (of_nat k * res_stride res :: u32) = k * ?s" if "k * ?s < 2 ^ 32" for k
    using that by (cases "?s = 0") (auto simp: unat_word_ariths unat_of_nat mod_mult_left_eq take_bit_nat_def)
  ultimately have ab: "unat (ucast (of_nat m * res_stride res :: u32) :: u64) = m * ?s"
    "unat (ucast (of_nat n * res_stride res :: u32) :: u64) = n * ?s" "m * ?s + x < n * ?s + y" "n * ?s + y < 2 ^ 32"
    using b assms(4-6) by (simp_all add: unat_ucast_up)
  have "unat (ucast (of_nat m * res_stride res :: u32) + of_nat x :: u64) \<noteq> unat (ucast (of_nat n * res_stride res :: u32) + of_nat y :: u64)"
    using ab by (simp add: unat_word_ariths unat_of_nat take_bit_nat_eq_self)
  then show ?thesis
    using assms(1,2) mn by (auto simp: mqnic_res_get_addr_def add.assoc split: if_splits)
qed

section \<open>Register blocks\<close>

record mqnic_reg_block =
  rb_type :: u32
  rb_version :: u32
  rb_regs :: u64
  rb_base :: u64

definition MQNIC_RB_REG_TYPE :: u64 where "MQNIC_RB_REG_TYPE = 0x00"
definition MQNIC_RB_REG_VER :: u64 where "MQNIC_RB_REG_VER = 0x04"
definition MQNIC_RB_REG_NEXT_PTR :: u64 where "MQNIC_RB_REG_NEXT_PTR = 0x08"

text \<open>
  The enumeration. \<open>rd\<close> are the registers of the device, \<open>grow n\<close> tells whether \<open>krealloc\<close> to \<open>n\<close> entries
  succeeds. The result None is the NULL of the C function; the terminating entry of zeros is not part of the list.
\<close>

function enumerate_loop :: "(u64 \<Rightarrow> u32) \<Rightarrow> (nat \<Rightarrow> bool) \<Rightarrow> u64 \<Rightarrow> u64 \<Rightarrow> nat \<Rightarrow> u64 \<Rightarrow> mqnic_reg_block list
    \<Rightarrow> mqnic_reg_block list option" where
  "enumerate_loop rd grow base siz max_count offset blocks =
     (if (offset = 0 \<and> blocks \<noteq> []) \<or> offset \<ge> siz then Some blocks
      else if base + offset \<in> rb_regs ` set blocks then None
      else (let ptr = base + offset;
                blocks' = blocks @ [\<lparr>rb_type = rd (ptr + MQNIC_RB_REG_TYPE), rb_version = rd (ptr + MQNIC_RB_REG_VER),
                                     rb_regs = ptr, rb_base = base\<rparr>];
                offset' = ucast (rd (ptr + MQNIC_RB_REG_NEXT_PTR))
            in if length blocks' \<ge> max_count
               then (if \<not> grow (max_count + 4) then None
                     else enumerate_loop rd grow base siz (max_count + 4) offset' blocks')
               else enumerate_loop rd grow base siz max_count offset' blocks'))"
  by pat_completeness auto
termination
proof (relation "measure (\<lambda>(_, _, _, _, _, _, blocks). card (- rb_regs ` set blocks))", goal_cases)
  case 1
  show ?case by simp
qed (auto intro!: psubset_card_mono)

declare enumerate_loop.simps [simp del]

definition mqnic_enumerate_reg_block_list :: "(u64 \<Rightarrow> u32) \<Rightarrow> bool \<Rightarrow> (nat \<Rightarrow> bool) \<Rightarrow> u64 \<Rightarrow> u64 \<Rightarrow> u64 \<Rightarrow> mqnic_reg_block list option" where
  "mqnic_enumerate_reg_block_list rd alloc_ok grow base offset siz =
     (if \<not> alloc_ok then None else enumerate_loop rd grow base siz 8 offset [])"

fun mqnic_find_reg_block :: "mqnic_reg_block list \<Rightarrow> u32 \<Rightarrow> u32 \<Rightarrow> int \<Rightarrow> mqnic_reg_block option" where
  "mqnic_find_reg_block [] ty ver index = None"
| "mqnic_find_reg_block (rb # rbs) ty ver index =
     (if rb_regs rb = 0 then None
      else if rb_type rb = ty \<and> (ver = 0 \<or> rb_version rb = ver)
      then (if index > 0 then mqnic_find_reg_block rbs ty ver (index - 1) else Some rb)
      else mqnic_find_reg_block rbs ty ver index)"

text \<open>The blocks form the chain of the pointers in the device.\<close>

fun block_chain :: "(u64 \<Rightarrow> u32) \<Rightarrow> u64 \<Rightarrow> u64 \<Rightarrow> mqnic_reg_block list \<Rightarrow> u64 \<Rightarrow> bool" where
  "block_chain rd base offset [] fin \<longleftrightarrow> offset = fin"
| "block_chain rd base offset (b # bs) fin \<longleftrightarrow>
     b = \<lparr>rb_type = rd (base + offset + MQNIC_RB_REG_TYPE), rb_version = rd (base + offset + MQNIC_RB_REG_VER),
          rb_regs = base + offset, rb_base = base\<rparr>
     \<and> block_chain rd base (ucast (rd (base + offset + MQNIC_RB_REG_NEXT_PTR))) bs fin"

lemma block_chain_append:
  "block_chain rd base off (bs @ cs) fin \<longleftrightarrow> (\<exists>mid. block_chain rd base off bs mid \<and> block_chain rd base mid cs fin)"
  by (induction bs arbitrary: off) auto

lemma enumerate_loop_chain:
  assumes "enumerate_loop rd grow base siz mx off blocks = Some bs" "block_chain rd base start blocks off"
    and "distinct (map rb_regs blocks)" "\<forall>b \<in> set blocks. rb_regs b - base < siz"
  shows "\<exists>fin. block_chain rd base start bs fin \<and> (fin = 0 \<or> fin \<ge> siz) \<and> distinct (map rb_regs bs)
    \<and> (\<forall>b \<in> set bs. rb_regs b - base < siz)"
  using assms
proof (induction rd grow base siz mx off blocks rule: enumerate_loop.induct)
  case (1 rd grow base siz mx off blocks)
  let ?b = "\<lparr>rb_type = rd (base + off + MQNIC_RB_REG_TYPE), rb_version = rd (base + off + MQNIC_RB_REG_VER),
          rb_regs = base + off, rb_base = base\<rparr>"
  let ?o = "ucast (rd (base + off + MQNIC_RB_REG_NEXT_PTR)) :: u64"
  show ?case
  proof (cases "(off = 0 \<and> blocks \<noteq> []) \<or> off \<ge> siz")
    case True
    then show ?thesis using 1(3-6) unfolding enumerate_loop.simps [of rd grow base siz mx off blocks] by auto
  next
    case False
    then have new: "base + off \<notin> rb_regs ` set blocks"
      using 1(3) unfolding enumerate_loop.simps [of rd grow base siz mx off blocks] by (auto split: if_splits)
    have c: "block_chain rd base start (blocks @ [?b]) ?o" using 1(4) by (auto simp: block_chain_append)
    have d: "distinct (map rb_regs (blocks @ [?b]))" using 1(5) new by auto
    have s: "\<forall>b \<in> set (blocks @ [?b]). rb_regs b - base < siz" using 1(6) False by auto
    show ?thesis
    proof (cases "length (blocks @ [?b]) \<ge> mx")
      case True
      then have g: "grow (mx + 4)" "enumerate_loop rd grow base siz (mx + 4) ?o (blocks @ [?b]) = Some bs"
        using 1(3) False new unfolding enumerate_loop.simps [of rd grow base siz mx off blocks] Let_def by (auto split: if_splits)
      show ?thesis using 1(1) [OF False new refl refl refl True] g c d s by blast
    next
      case mx: False
      then have "enumerate_loop rd grow base siz mx ?o (blocks @ [?b]) = Some bs"
        using 1(3) False new unfolding enumerate_loop.simps [of rd grow base siz mx off blocks] Let_def by (auto split: if_splits)
      then show ?thesis using 1(2) [OF False new refl refl refl mx] c d s by blast
    qed
  qed
qed

lemma find_reg_block_nth:
  assumes "\<forall>b \<in> set bs. rb_regs b \<noteq> 0"
  shows "mqnic_find_reg_block bs ty ver index =
    (let ms = filter (\<lambda>rb. rb_type rb = ty \<and> (ver = 0 \<or> rb_version rb = ver)) bs
     in if nat index < length ms then Some (ms ! nat index) else None)"
  using assms
proof (induction bs arbitrary: index)
  case (Cons b bs)
  have n: "nat index = Suc (nat (index - 1))" if "0 < index" using that by simp
  show ?case using Cons by (cases "0 < index") (auto simp: Let_def n)
qed simp

end
