(* ===== verification/Mqnic_Queue.thy ===== *)
theory Mqnic_Queue
  imports Mqnic_Res
begin

text \<open>
  The queues through which the NIC reports to the driver: completion queues (\<open>mqnic_cq.c\<close>) and event queues
  (\<open>mqnic_eq.c\<close>). Both are rings in host memory whose entries carry a phase bit, so that the driver sees
  new entries without reading a register. The locale \<open>phase_ring\<close> has the protocol once; the
  completion entry and the event are its two interpretations.
\<close>

unbundle bit_operations_syntax

section \<open>Indices of a ring\<close>

lemma unat_index:
  assumes "k < 32"
  shows "unat ((c + of_nat i) AND mask k :: u32) = (unat c + i) mod 2 ^ k"
proof -
  have d: "(2 :: nat) ^ k dvd 2 ^ 32" using assms by (intro le_imp_power_dvd) simp
  have "unat (c + of_nat i :: u32) = (unat c + i) mod 2 ^ 32"
    by (simp add: unat_word_ariths unat_of_nat take_bit_nat_def mod_add_right_eq)
  then show ?thesis unfolding unat_and_mask using mod_mod_cancel [OF d] by simp
qed

lemma bit_index:
  assumes "k < 32"
  shows "bit (c + of_nat i :: u32) k \<longleftrightarrow> odd ((unat c + i) div 2 ^ k)"
proof -
  have u: "unat (c + of_nat i :: u32) = take_bit 32 (unat c + i)"
    by (simp add: unat_word_ariths unat_of_nat take_bit_nat_def mod_add_right_eq)
  have "bit (c + of_nat i :: u32) k \<longleftrightarrow> bit (unat (c + of_nat i :: u32)) k"
    using assms by (simp add: bit_unsigned_iff)
  also have "\<dots> \<longleftrightarrow> bit (unat c + i) k" using assms unfolding u by (simp add: bit_take_bit_iff)
  also have "\<dots> \<longleftrightarrow> odd ((unat c + i) div 2 ^ k)" by (rule bit_iff_odd)
  finally show ?thesis .
qed

lemma add_mod_inj:
  assumes "(a + i) mod m = (a + j) mod m" "i < m" "j < m"
  shows "i = (j :: nat)"
proof (rule ccontr)
  assume "i \<noteq> j"
  have "m dvd (a + max i j) - (a + min i j)"
    using assms(1) mod_eq_dvd_iff_nat [of "a + min i j" "a + max i j" m] by (auto simp: max_def min_def)
  then have "m dvd max i j - min i j" by simp
  then show False using \<open>i \<noteq> j\<close> assms(2,3) by (auto simp: max_def min_def dest!: dvd_imp_le split: if_splits)
qed

lemma index_inj:
  assumes "k < 32" "i < 2 ^ k" "j < 2 ^ k" "(c + of_nat i :: u32) AND mask k = (c + of_nat j) AND mask k"
  shows "i = j"
proof -
  have "(unat c + i) mod 2 ^ k = (unat c + j) mod 2 ^ k"
    using unat_index [OF assms(1), of c i] unat_index [OF assms(1), of c j] assms(4) by simp
  then show ?thesis using add_mod_inj assms(2,3) by blast
qed

section \<open>Rings with a phase bit\<close>

text \<open>
  The test of the driver loops: the entry at the consumer pointer is new when its phase bit differs from
  the bit of the pointer that counts the rounds.
\<close>

definition phase_ready :: "u32 \<Rightarrow> u32 \<Rightarrow> u32 \<Rightarrow> bool" where
  "phase_ready phase cons_ptr siz \<longleftrightarrow> (phase AND 0x80000000 \<noteq> 0) \<noteq> (cons_ptr AND siz \<noteq> 0)"

lemma and_power_eq_bit:
  assumes "k < 32"
  shows "(x :: u32) AND 2 ^ k \<noteq> 0 \<longleftrightarrow> bit x k"
proof
  assume "x AND 2 ^ k \<noteq> 0"
  then obtain n where "bit (x AND 2 ^ k) n" using bit_eqI [of "x AND 2 ^ k" 0] by auto
  then show "bit x k" by (auto simp: bit_simps)
next
  assume "bit x k"
  then have "bit (x AND 2 ^ k) k" using assms by (simp add: bit_simps)
  then show "x AND 2 ^ k \<noteq> 0" by auto
qed

locale phase_ring =
  fixes phase :: "'e \<Rightarrow> u32" and stamp :: "bool \<Rightarrow> 'e \<Rightarrow> 'e"
  assumes stamp_phase: "phase (stamp b e) AND 0x80000000 \<noteq> 0 \<longleftrightarrow> b"
begin

text \<open>
  A ring of \<open>2 ^ k\<close> entries with the consumer at \<open>c\<close> and \<open>n\<close> entries that the device has written and the
  driver has not read: their phase bits are those of their round, the others those of the round before.
\<close>

definition ring_ok :: "nat \<Rightarrow> 'e list \<Rightarrow> u32 \<Rightarrow> nat \<Rightarrow> bool" where
  "ring_ok k buf c n \<longleftrightarrow> k < 32 \<and> length buf = 2 ^ k \<and> n \<le> 2 ^ k \<and>
     (\<forall>i < 2 ^ k. (phase (buf ! unat ((c + of_nat i) AND mask k)) AND 0x80000000 \<noteq> 0)
        \<longleftrightarrow> (if i < n then \<not> bit (c + of_nat i :: u32) k else bit (c + of_nat i :: u32) k))"

definition ring_entries :: "nat \<Rightarrow> 'e list \<Rightarrow> u32 \<Rightarrow> nat \<Rightarrow> 'e list" where
  "ring_entries k buf c n = map (\<lambda>i. buf ! unat ((c + of_nat i) AND mask k)) [0..<n]"

text \<open>The device writes an entry.\<close>

definition ring_push :: "nat \<Rightarrow> 'e \<Rightarrow> 'e list \<Rightarrow> u32 \<Rightarrow> nat \<Rightarrow> 'e list" where
  "ring_push k e buf c n = buf[unat ((c + of_nat n) AND mask k) := stamp (\<not> bit (c + of_nat n :: u32) k) e]"

lemma ring_okD:
  assumes "ring_ok k buf c n" "i < 2 ^ k"
  shows "(phase (buf ! unat ((c + of_nat i) AND mask k)) AND 0x80000000 \<noteq> 0)
    \<longleftrightarrow> (if i < n then \<not> bit (c + of_nat i :: u32) k else bit (c + of_nat i :: u32) k)"
  using assms unfolding ring_ok_def by blast

lemma ready_iff:
  assumes "ring_ok k buf c n"
  shows "phase_ready (phase (buf ! unat (c AND mask k))) c (2 ^ k) \<longleftrightarrow> 0 < n"
proof -
  show ?thesis using assms ring_okD [OF assms, of 0] by (auto simp: phase_ready_def ring_ok_def and_power_eq_bit)
qed

lemma push_ok:
  assumes "ring_ok k buf c n" "n < 2 ^ k"
  shows "ring_ok k (ring_push k e buf c n) c (Suc n)"
    "ring_entries k (ring_push k e buf c n) c (Suc n) = ring_entries k buf c n @ [stamp (\<not> bit (c + of_nat n :: u32) k) e]"
proof -
  have k: "k < 32" "length buf = 2 ^ k" using assms(1) by (simp_all add: ring_ok_def)
  have l: "unat ((c + of_nat i :: u32) AND mask k) < length buf" for i using k unat_index [OF k(1), of c i] by simp
  have other: "ring_push k e buf c n ! unat ((c + of_nat i) AND mask k) = buf ! unat ((c + of_nat i) AND mask k)"
    if "i < 2 ^ k" "i \<noteq> n" for i
    using index_inj [OF k(1) that(1) assms(2), of c, unfolded word_unat_eq_iff] that(2)
    unfolding ring_push_def by (intro nth_list_update_neq) auto
  have self: "ring_push k e buf c n ! unat ((c + of_nat n) AND mask k) = stamp (\<not> bit (c + of_nat n :: u32) k) e"
    using l by (simp add: ring_push_def)
  show "ring_ok k (ring_push k e buf c n) c (Suc n)"
    unfolding ring_ok_def
  proof (intro conjI allI impI)
    fix i :: nat assume i: "i < 2 ^ k"
    show "(phase (ring_push k e buf c n ! unat ((c + of_nat i) AND mask k)) AND 0x80000000 \<noteq> 0)
      \<longleftrightarrow> (if i < Suc n then \<not> bit (c + of_nat i :: u32) k else bit (c + of_nat i :: u32) k)"
    proof (cases "i = n")
      case True
      then show ?thesis using self stamp_phase by simp
    next
      case False
      then show ?thesis using other [OF i False] ring_okD [OF assms(1) i] by (auto simp: less_Suc_eq)
    qed
  qed (use k assms(2) in \<open>simp_all add: ring_push_def\<close>)
  show "ring_entries k (ring_push k e buf c n) c (Suc n) = ring_entries k buf c n @ [stamp (\<not> bit (c + of_nat n :: u32) k) e]"
    using self other assms(2) by (auto simp: ring_entries_def)
qed

lemma pop_ok:
  assumes "ring_ok k buf c (Suc n)"
  shows "ring_ok k buf (c + 1) n"
    "ring_entries k buf c (Suc n) = buf ! unat (c AND mask k) # ring_entries k buf (c + 1) n"
proof -
  have k: "k < 32" using assms(1) by (simp add: ring_ok_def)
  have sh: "c + 1 + of_nat i = c + of_nat (Suc i)" for i :: nat by simp
  show "ring_ok k buf (c + 1) n"
    unfolding ring_ok_def
  proof (intro conjI allI impI)
    fix i :: nat assume i: "i < 2 ^ k"
    show "(phase (buf ! unat ((c + 1 + of_nat i) AND mask k)) AND 0x80000000 \<noteq> 0)
      \<longleftrightarrow> (if i < n then \<not> bit (c + 1 + of_nat i :: u32) k else bit (c + 1 + of_nat i :: u32) k)"
    proof (cases "Suc i = 2 ^ k")
      case True
      have "unat ((c + of_nat (Suc i)) AND mask k) = unat ((c + of_nat 0) AND mask k)"
        unfolding unat_index [OF k] True by simp
      moreover have "bit (c + of_nat (Suc i) :: u32) k \<longleftrightarrow> \<not> bit (c + of_nat 0 :: u32) k"
        unfolding bit_index [OF k] True by (simp add: div_add_self2)
      moreover have "(phase (buf ! unat ((c + of_nat 0) AND mask k)) AND 0x80000000 \<noteq> 0) \<longleftrightarrow> \<not> bit (c + of_nat 0 :: u32) k"
        using ring_okD [OF assms, of 0] by simp
      moreover have "\<not> i < n" using assms True by (auto simp: ring_ok_def)
      ultimately show ?thesis unfolding sh by simp
    next
      case False
      then have "Suc i < 2 ^ k" using i by simp
      then show ?thesis using ring_okD [OF assms, of "Suc i"] unfolding sh by auto
    qed
  qed (use assms in \<open>auto simp: ring_ok_def\<close>)
  show "ring_entries k buf c (Suc n) = buf ! unat (c AND mask k) # ring_entries k buf (c + 1) n"
    by (simp add: ring_entries_def map_upt_Suc sh del: upt_Suc of_nat_Suc)
qed

lemma pop_many:
  assumes "ring_ok k buf c n" "m \<le> n"
  shows "ring_ok k buf (c + of_nat m) (n - m)" "ring_entries k buf (c + of_nat m) (n - m) = drop m (ring_entries k buf c n)"
proof -
  have "ring_ok k buf (c + of_nat m) (n - m) \<and> ring_entries k buf (c + of_nat m) (n - m) = drop m (ring_entries k buf c n)"
    using assms
  proof (induction m arbitrary: c n)
    case (Suc m)
    then obtain n' where n: "n = Suc n'" by (cases n) simp_all
    note p = pop_ok [OF Suc.prems(1) [unfolded n]]
    have c: "c + of_nat (Suc m) = c + 1 + of_nat m" by simp
    show ?case using Suc.IH [OF p(1)] p(2) Suc.prems(2) n unfolding c by simp
  qed simp
  then show "ring_ok k buf (c + of_nat m) (n - m)" "ring_entries k buf (c + of_nat m) (n - m) = drop m (ring_entries k buf c n)" by simp_all
qed

end

section \<open>Entries, queues and the interface\<close>

record mqnic_cpl =
  cpl_queue :: u16
  cpl_index :: u16
  cpl_len :: u16
  cpl_ts_ns :: u32
  cpl_ts_s :: u16
  cpl_rx_csum :: u16
  cpl_phase :: u32

record mqnic_event =
  ev_type :: u16
  ev_source :: u16
  ev_phase :: u32

text \<open>The device sets the phase bit; \<open>memset (buf, 1, ...)\<close> leaves it clear.\<close>

definition cpl_stamp :: "bool \<Rightarrow> mqnic_cpl \<Rightarrow> mqnic_cpl" where
  "cpl_stamp b e = e\<lparr>cpl_phase := (if b then 0x80000000 else 0)\<rparr>"

definition ev_stamp :: "bool \<Rightarrow> mqnic_event \<Rightarrow> mqnic_event" where
  "ev_stamp b e = e\<lparr>ev_phase := (if b then 0x80000000 else 0)\<rparr>"

definition cpl_ones :: mqnic_cpl where
  "cpl_ones = \<lparr>cpl_queue = 0x0101, cpl_index = 0x0101, cpl_len = 0x0101, cpl_ts_ns = 0x01010101, cpl_ts_s = 0x0101,
     cpl_rx_csum = 0x0101, cpl_phase = 0x01010101\<rparr>"

definition ev_ones :: mqnic_event where
  "ev_ones = \<lparr>ev_type = 0x0101, ev_source = 0x0101, ev_phase = 0x01010101\<rparr>"

interpretation cq_ring: phase_ring cpl_phase cpl_stamp
  by unfold_locales (simp add: cpl_stamp_def)

interpretation eq_ring: phase_ring ev_phase ev_stamp
  by unfold_locales (simp add: ev_stamp_def)

record mqnic_eq =
  eq_prod :: u32
  eq_cons :: u32
  eq_size :: u32
  eq_mask :: u32
  eq_stride :: u32
  eq_buf :: "mqnic_event list option"
  eq_dma :: u64
  eq_eqn :: int
  eq_irq :: "u32 option"
  eq_enabled :: bool
  eq_hw :: "u64 option"
  eq_table :: "int \<rightharpoonup> nat"

datatype cq_handler = mqnic_tx_irq | mqnic_rx_irq

text \<open>\<open>cq_id\<close> stands for the address of the structure.\<close>

record mqnic_cq =
  cq_id :: nat
  cq_prod :: u32
  cq_cons :: u32
  cq_size :: u32
  cq_mask :: u32
  cq_stride :: u32
  cq_buf :: "mqnic_cpl list option"
  cq_dma :: u64
  cq_cqn :: int
  cq_eq :: bool
  cq_enabled :: bool
  cq_handler :: "cq_handler option"
  cq_hw :: "u64 option"

text \<open>The interface: the pools of queue numbers, the register writes in their order, and the DMA buffers that are allocated.\<close>

record mqnic_if =
  if_eq_res :: mqnic_res
  if_cq_res :: mqnic_res
  if_txq_res :: mqnic_res
  if_rxq_res :: mqnic_res
  if_io :: "(u64 \<times> u32) list"
  if_bufs :: "u64 list"

definition if_writes :: "u64 \<Rightarrow> (u64 \<times> u32) list \<Rightarrow> mqnic_if \<Rightarrow> mqnic_if" where
  "if_writes hw ws i = i\<lparr>if_io := if_io i @ map (\<lambda>(off, v). (hw + off, v)) ws\<rparr>"

fun ilog2 :: "nat \<Rightarrow> nat" where
  "ilog2 n = (if n < 2 then 0 else Suc (ilog2 (n div 2)))"

declare ilog2.simps [simp del]

definition roundup_pow_of_two :: "nat \<Rightarrow> nat" where
  "roundup_pow_of_two n = (if n \<le> 1 then 1 else 2 ^ Suc (ilog2 (n - 1)))"

definition MQNIC_CPL_SIZE :: nat where "MQNIC_CPL_SIZE = 32"
definition MQNIC_EVENT_SIZE :: nat where "MQNIC_EVENT_SIZE = 32"
definition MQNIC_DESC_SIZE :: nat where "MQNIC_DESC_SIZE = 16"

text \<open>The registers and commands of completion and event queues have the same numbers.\<close>

definition MQNIC_CQ_BASE_ADDR_VF_REG :: u64 where "MQNIC_CQ_BASE_ADDR_VF_REG = 0x00"
definition MQNIC_CQ_CTRL_STATUS_REG :: u64 where "MQNIC_CQ_CTRL_STATUS_REG = 0x08"
definition MQNIC_CQ_PTR_MASK :: u32 where "MQNIC_CQ_PTR_MASK = 0xFFFF"
definition MQNIC_CQ_CMD_SET_SIZE :: u32 where "MQNIC_CQ_CMD_SET_SIZE = 0x80020000"
definition MQNIC_CQ_CMD_SET_EQN :: u32 where "MQNIC_CQ_CMD_SET_EQN = 0xC0000000"
definition MQNIC_CQ_CMD_SET_PROD_PTR :: u32 where "MQNIC_CQ_CMD_SET_PROD_PTR = 0x80800000"
definition MQNIC_CQ_CMD_SET_CONS_PTR :: u32 where "MQNIC_CQ_CMD_SET_CONS_PTR = 0x80900000"
definition MQNIC_CQ_CMD_SET_ENABLE :: u32 where "MQNIC_CQ_CMD_SET_ENABLE = 0x40000100"
definition MQNIC_CQ_CMD_SET_ARM :: u32 where "MQNIC_CQ_CMD_SET_ARM = 0x40000200"

definition MQNIC_EQ_BASE_ADDR_VF_REG :: u64 where "MQNIC_EQ_BASE_ADDR_VF_REG = 0x00"
definition MQNIC_EQ_CTRL_STATUS_REG :: u64 where "MQNIC_EQ_CTRL_STATUS_REG = 0x08"
definition MQNIC_EQ_PTR_MASK :: u32 where "MQNIC_EQ_PTR_MASK = 0xFFFF"
definition MQNIC_EQ_CMD_SET_SIZE :: u32 where "MQNIC_EQ_CMD_SET_SIZE = 0x80020000"
definition MQNIC_EQ_CMD_SET_IRQN :: u32 where "MQNIC_EQ_CMD_SET_IRQN = 0xC0000000"
definition MQNIC_EQ_CMD_SET_PROD_PTR :: u32 where "MQNIC_EQ_CMD_SET_PROD_PTR = 0x80800000"
definition MQNIC_EQ_CMD_SET_CONS_PTR :: u32 where "MQNIC_EQ_CMD_SET_CONS_PTR = 0x80900000"
definition MQNIC_EQ_CMD_SET_ENABLE :: u32 where "MQNIC_EQ_CMD_SET_ENABLE = 0x40000100"
definition MQNIC_EQ_CMD_SET_ARM :: u32 where "MQNIC_EQ_CMD_SET_ARM = 0x40000200"

section \<open>Event queues\<close>

definition mqnic_create_eq :: "bool \<Rightarrow> errno + mqnic_eq" where
  "mqnic_create_eq alloc_ok =
     (if \<not> alloc_ok then Inl ENOMEM
      else Inr \<lparr>eq_prod = 0, eq_cons = 0, eq_size = 0, eq_mask = 0, eq_stride = 0, eq_buf = None, eq_dma = 0, eq_eqn = -1,
                eq_irq = None, eq_enabled = False, eq_hw = None, eq_table = Map.empty\<rparr>)"

definition mqnic_close_eq :: "mqnic_eq \<Rightarrow> mqnic_if \<Rightarrow> mqnic_eq \<times> mqnic_if" where
  "mqnic_close_eq eq i =
     (let i = (case eq_hw eq of None \<Rightarrow> i | Some hw \<Rightarrow> if_writes hw [(MQNIC_EQ_CTRL_STATUS_REG, MQNIC_EQ_CMD_SET_ENABLE OR 0)] i);
          eq = eq\<lparr>eq_irq := None, eq_hw := None\<rparr>;
          (eq, i) = (case eq_buf eq of None \<Rightarrow> (eq, i)
                     | Some _ \<Rightarrow> (eq\<lparr>eq_buf := None, eq_dma := 0\<rparr>, i\<lparr>if_bufs := remove1 (eq_dma eq) (if_bufs i)\<rparr>));
          i = i\<lparr>if_eq_res := mqnic_res_free (if_eq_res i) (eq_eqn eq)\<rparr>
      in (eq\<lparr>eq_eqn := -1, eq_enabled := False\<rparr>, i))"

text \<open>\<open>buf\<close> is the address that \<open>dma_alloc_coherent\<close> returns, \<open>reg\<close> the result of \<open>atomic_notifier_chain_register\<close>.\<close>

definition mqnic_open_eq :: "u64 option \<Rightarrow> errno option \<Rightarrow> mqnic_eq \<Rightarrow> u32 option \<Rightarrow> nat \<Rightarrow> mqnic_if \<Rightarrow> errno option \<times> mqnic_eq \<times> mqnic_if" where
  "mqnic_open_eq buf reg eq irq siz i =
     (if eq_enabled eq \<or> eq_hw eq \<noteq> None \<or> eq_buf eq \<noteq> None \<or> irq = None then (Some EINVAL, eq, i)
      else let (eqn, res) = mqnic_res_alloc (if_eq_res i);
               eq = eq\<lparr>eq_eqn := eqn\<rparr>;
               i = i\<lparr>if_eq_res := res\<rparr>
           in if eqn < 0 then (Some ENOMEM, eq, i)
              else let n = roundup_pow_of_two siz;
                       eq = eq\<lparr>eq_size := of_nat n, eq_mask := of_nat n - 1, eq_stride := of_nat (roundup_pow_of_two MQNIC_EVENT_SIZE)\<rparr>
                   in case buf of
                        None \<Rightarrow> (Some ENOMEM, mqnic_close_eq eq i)
                      | Some dma \<Rightarrow>
                          let eq = eq\<lparr>eq_buf := Some (replicate n ev_ones), eq_dma := dma\<rparr>;
                              i = i\<lparr>if_bufs := dma # if_bufs i\<rparr>
                          in case reg of
                               Some e \<Rightarrow> (Some e, mqnic_close_eq eq i)
                             | None \<Rightarrow>
                                 let hw = the (mqnic_res_get_addr (if_eq_res i) eqn);
                                     eq = eq\<lparr>eq_irq := irq, eq_hw := Some hw, eq_prod := 0, eq_cons := 0\<rparr>;
                                     i = if_writes hw
                                       [(MQNIC_EQ_CTRL_STATUS_REG, MQNIC_EQ_CMD_SET_ENABLE OR 0),
                                        (MQNIC_EQ_BASE_ADDR_VF_REG + 0, ucast (dma AND 0xfffff000)),
                                        (MQNIC_EQ_BASE_ADDR_VF_REG + 4, ucast (drop_bit 32 dma)),
                                        (MQNIC_EQ_CTRL_STATUS_REG, MQNIC_EQ_CMD_SET_SIZE OR of_nat (ilog2 n)),
                                        (MQNIC_EQ_CTRL_STATUS_REG, MQNIC_EQ_CMD_SET_IRQN OR the irq),
                                        (MQNIC_EQ_CTRL_STATUS_REG, MQNIC_EQ_CMD_SET_PROD_PTR OR (eq_prod eq AND MQNIC_EQ_PTR_MASK)),
                                        (MQNIC_EQ_CTRL_STATUS_REG, MQNIC_EQ_CMD_SET_CONS_PTR OR (eq_cons eq AND MQNIC_EQ_PTR_MASK)),
                                        (MQNIC_EQ_CTRL_STATUS_REG, MQNIC_EQ_CMD_SET_ENABLE OR 1)] i
                                 in (None, eq\<lparr>eq_enabled := True\<rparr>, i))"

definition mqnic_eq_attach_cq :: "mqnic_cq \<Rightarrow> mqnic_eq \<Rightarrow> bool \<times> mqnic_eq" where
  "mqnic_eq_attach_cq cq eq =
     (case eq_table eq (cq_cqn cq) of
        Some _ \<Rightarrow> (False, eq)
      | None \<Rightarrow> (True, eq\<lparr>eq_table := (eq_table eq)(cq_cqn cq \<mapsto> cq_id cq)\<rparr>))"

text \<open>The result tells whether the completion queue itself was in the table.\<close>

definition mqnic_eq_detach_cq :: "mqnic_cq \<Rightarrow> mqnic_eq \<Rightarrow> bool \<times> mqnic_eq" where
  "mqnic_eq_detach_cq cq eq =
     (eq_table eq (cq_cqn cq) = Some (cq_id cq), eq\<lparr>eq_table := (eq_table eq)(cq_cqn cq := None)\<rparr>)"

definition mqnic_eq_read_prod_ptr :: "u32 \<Rightarrow> mqnic_eq \<Rightarrow> mqnic_eq" where
  "mqnic_eq_read_prod_ptr reg eq = eq\<lparr>eq_prod := eq_prod eq + (((reg AND MQNIC_EQ_PTR_MASK) - eq_prod eq) AND MQNIC_EQ_PTR_MASK)\<rparr>"

definition mqnic_eq_write_cons_ptr :: "mqnic_eq \<Rightarrow> mqnic_if \<Rightarrow> mqnic_if" where
  "mqnic_eq_write_cons_ptr eq i =
     if_writes (the (eq_hw eq)) [(MQNIC_EQ_CTRL_STATUS_REG, MQNIC_EQ_CMD_SET_CONS_PTR OR (eq_cons eq AND MQNIC_EQ_PTR_MASK))] i"

definition mqnic_arm_eq :: "mqnic_eq \<Rightarrow> mqnic_if \<Rightarrow> mqnic_if" where
  "mqnic_arm_eq eq i =
     (if \<not> eq_enabled eq then i else if_writes (the (eq_hw eq)) [(MQNIC_EQ_CTRL_STATUS_REG, MQNIC_EQ_CMD_SET_ARM OR 1)] i)"

datatype eq_action = ScheduleNapi nat | NoHandler nat | UnknownSource u16 | UnknownType u16

definition MQNIC_EVENT_TYPE_CPL :: u16 where "MQNIC_EVENT_TYPE_CPL = 0"

text \<open>One event: \<open>handler\<close> tells for a completion queue whether its handler is set; both handlers schedule the poll function.\<close>

definition eq_handle :: "(nat \<Rightarrow> bool) \<Rightarrow> (int \<rightharpoonup> nat) \<Rightarrow> mqnic_event \<Rightarrow> eq_action" where
  "eq_handle handler table event =
     (if ev_type event = MQNIC_EVENT_TYPE_CPL
      then (case table (uint (ev_source event)) of
              Some cq \<Rightarrow> if handler cq then ScheduleNapi cq else NoHandler cq
            | None \<Rightarrow> UnknownSource (ev_source event))
      else UnknownType (ev_type event))"

partial_function (option) process_eq_loop :: "(mqnic_event \<Rightarrow> eq_action) \<Rightarrow> mqnic_event list \<Rightarrow> u32 \<Rightarrow> u32 \<Rightarrow> u32 \<Rightarrow> eq_action list
    \<Rightarrow> (u32 \<times> eq_action list) option" where
  "process_eq_loop handle buf siz msk cons_ptr acts =
     (let event = buf ! unat (cons_ptr AND msk)
      in if \<not> phase_ready (ev_phase event) cons_ptr siz then Some (cons_ptr, acts)
         else process_eq_loop handle buf siz msk (cons_ptr + 1) (acts @ [handle event]))"

definition mqnic_process_eq :: "(nat \<Rightarrow> bool) \<Rightarrow> mqnic_eq \<Rightarrow> mqnic_if \<Rightarrow> (mqnic_eq \<times> mqnic_if \<times> eq_action list) option" where
  "mqnic_process_eq handler eq i =
     (case process_eq_loop (eq_handle handler (eq_table eq)) (the (eq_buf eq)) (eq_size eq) (eq_mask eq) (eq_cons eq) [] of
        None \<Rightarrow> None
      | Some (cons_ptr, acts) \<Rightarrow>
          (let eq = eq\<lparr>eq_cons := cons_ptr\<rparr>
           in Some (eq, mqnic_eq_write_cons_ptr eq i, acts)))"

definition mqnic_eq_int :: "(nat \<Rightarrow> bool) \<Rightarrow> mqnic_eq \<Rightarrow> mqnic_if \<Rightarrow> (mqnic_eq \<times> mqnic_if \<times> eq_action list) option" where
  "mqnic_eq_int handler eq i =
     (case mqnic_process_eq handler eq i of
        None \<Rightarrow> None
      | Some (eq, i, acts) \<Rightarrow> Some (eq, mqnic_arm_eq eq i, acts))"

section \<open>Completion queues\<close>

definition mqnic_create_cq :: "bool \<Rightarrow> nat \<Rightarrow> errno + mqnic_cq" where
  "mqnic_create_cq alloc_ok self =
     (if \<not> alloc_ok then Inl ENOMEM
      else Inr \<lparr>cq_id = self, cq_prod = 0, cq_cons = 0, cq_size = 0, cq_mask = 0, cq_stride = 0, cq_buf = None, cq_dma = 0, cq_cqn = -1,
                cq_eq = False, cq_enabled = False, cq_handler = None, cq_hw = None\<rparr>)"

text \<open>Opening a queue on an event queue; when there is no buffer, the failure path closes the event queue.\<close>

definition mqnic_open_cq :: "u64 option \<Rightarrow> mqnic_cq \<Rightarrow> mqnic_eq option \<Rightarrow> nat \<Rightarrow> mqnic_if
    \<Rightarrow> errno option \<times> mqnic_cq \<times> mqnic_eq option \<times> mqnic_if" where
  "mqnic_open_cq buf cq eqo siz i =
     (case eqo of
        None \<Rightarrow> (Some EINVAL, cq, None, i)
      | Some eq \<Rightarrow>
          if cq_enabled cq \<or> cq_hw cq \<noteq> None \<or> cq_buf cq \<noteq> None then (Some EINVAL, cq, Some eq, i)
          else let (cqn, res) = mqnic_res_alloc (if_cq_res i);
                   cq = cq\<lparr>cq_cqn := cqn\<rparr>;
                   i = i\<lparr>if_cq_res := res\<rparr>
               in if cqn < 0 then (Some ENOMEM, cq, Some eq, i)
                  else let n = roundup_pow_of_two siz;
                           cq = cq\<lparr>cq_size := of_nat n, cq_mask := of_nat n - 1, cq_stride := of_nat (roundup_pow_of_two MQNIC_CPL_SIZE)\<rparr>
                       in case buf of
                            None \<Rightarrow> (let (eq, i) = mqnic_close_eq eq i in (Some ENOMEM, cq, Some eq, i))
                          | Some dma \<Rightarrow>
                              let cq = cq\<lparr>cq_buf := Some (replicate n cpl_ones), cq_dma := dma, cq_eq := True\<rparr>;
                                  i = i\<lparr>if_bufs := dma # if_bufs i\<rparr>;
                                  (inserted, eq) = mqnic_eq_attach_cq cq eq;
                                  hw = the (mqnic_res_get_addr (if_cq_res i) cqn);
                                  cq = cq\<lparr>cq_hw := Some hw, cq_prod := 0, cq_cons := 0\<rparr>;
                                  i = if_writes hw
                                    [(MQNIC_CQ_CTRL_STATUS_REG, MQNIC_CQ_CMD_SET_ENABLE OR 0),
                                     (MQNIC_CQ_BASE_ADDR_VF_REG + 0, ucast (dma AND 0xfffff000)),
                                     (MQNIC_CQ_BASE_ADDR_VF_REG + 4, ucast (drop_bit 32 dma)),
                                     (MQNIC_CQ_CTRL_STATUS_REG, MQNIC_CQ_CMD_SET_SIZE OR of_nat (ilog2 n)),
                                     (MQNIC_CQ_CTRL_STATUS_REG, MQNIC_CQ_CMD_SET_EQN OR of_int (eq_eqn eq)),
                                     (MQNIC_CQ_CTRL_STATUS_REG, MQNIC_CQ_CMD_SET_PROD_PTR OR (cq_prod cq AND MQNIC_CQ_PTR_MASK)),
                                     (MQNIC_CQ_CTRL_STATUS_REG, MQNIC_CQ_CMD_SET_CONS_PTR OR (cq_cons cq AND MQNIC_CQ_PTR_MASK)),
                                     (MQNIC_CQ_CTRL_STATUS_REG, MQNIC_CQ_CMD_SET_ENABLE OR 1)] i
                              in (None, cq\<lparr>cq_enabled := True\<rparr>, Some eq, i))"

definition mqnic_close_cq :: "mqnic_cq \<Rightarrow> mqnic_eq \<Rightarrow> mqnic_if \<Rightarrow> mqnic_cq \<times> mqnic_eq \<times> mqnic_if" where
  "mqnic_close_cq cq eq i =
     (let i = (case cq_hw cq of None \<Rightarrow> i | Some hw \<Rightarrow> if_writes hw [(MQNIC_CQ_CTRL_STATUS_REG, MQNIC_CQ_CMD_SET_ENABLE OR 0)] i);
          eq = (if cq_eq cq then snd (mqnic_eq_detach_cq cq eq) else eq);
          cq = cq\<lparr>cq_eq := False, cq_hw := None\<rparr>;
          (cq, i) = (case cq_buf cq of None \<Rightarrow> (cq, i)
                     | Some _ \<Rightarrow> (cq\<lparr>cq_buf := None, cq_dma := 0\<rparr>, i\<lparr>if_bufs := remove1 (cq_dma cq) (if_bufs i)\<rparr>));
          i = i\<lparr>if_cq_res := mqnic_res_free (if_cq_res i) (cq_cqn cq)\<rparr>
      in (cq\<lparr>cq_cqn := -1, cq_enabled := False\<rparr>, eq, i))"

definition mqnic_cq_read_prod_ptr :: "u32 \<Rightarrow> mqnic_cq \<Rightarrow> mqnic_cq" where
  "mqnic_cq_read_prod_ptr reg cq = cq\<lparr>cq_prod := cq_prod cq + ((drop_bit 16 reg - cq_prod cq) AND MQNIC_CQ_PTR_MASK)\<rparr>"

definition mqnic_cq_write_cons_ptr :: "mqnic_cq \<Rightarrow> mqnic_if \<Rightarrow> mqnic_if" where
  "mqnic_cq_write_cons_ptr cq i =
     if_writes (the (cq_hw cq)) [(MQNIC_CQ_CTRL_STATUS_REG, MQNIC_CQ_CMD_SET_CONS_PTR OR (cq_cons cq AND MQNIC_CQ_PTR_MASK))] i"

definition mqnic_arm_cq :: "mqnic_cq \<Rightarrow> mqnic_if \<Rightarrow> mqnic_if" where
  "mqnic_arm_cq cq i =
     (if \<not> cq_enabled cq then i else if_writes (the (cq_hw cq)) [(MQNIC_CQ_CTRL_STATUS_REG, MQNIC_CQ_CMD_SET_ARM OR 1)] i)"

section \<open>Powers of two\<close>

lemma ilog2_bounds: "0 < n \<Longrightarrow> 2 ^ ilog2 n \<le> n \<and> n < 2 ^ Suc (ilog2 n)"
proof (induction n rule: ilog2.induct)
  case (1 n)
  show ?case
  proof (cases "n < 2")
    case True
    with 1 show ?thesis by (simp add: ilog2.simps [of n])
  next
    case False
    then have "0 < n div 2" by simp
    with 1 False have b: "2 ^ ilog2 (n div 2) \<le> n div 2" "n div 2 < 2 ^ Suc (ilog2 (n div 2))" by auto
    have "ilog2 n = Suc (ilog2 (n div 2))" using False by (simp add: ilog2.simps [of n])
    with b show ?thesis by auto
  qed
qed

lemma ilog2_power [simp]: "ilog2 (2 ^ k) = k"
  by (induction k) (simp_all add: ilog2.simps [of "Suc 0"] ilog2.simps [of "2 * 2 ^ k" for k])

lemma roundup_pow:
  obtains k where "roundup_pow_of_two n = 2 ^ k" "n \<le> 2 ^ k" "\<And>m. n \<le> 2 ^ m \<Longrightarrow> k \<le> m"
proof (cases "n \<le> 1")
  case True
  then show thesis by (intro that [of 0]) (auto simp: roundup_pow_of_two_def)
next
  case False
  let ?k = "Suc (ilog2 (n - 1))"
  have b: "2 ^ ilog2 (n - 1) \<le> n - 1" "n - 1 < 2 ^ ?k" using ilog2_bounds [of "n - 1"] False by auto
  have "roundup_pow_of_two n = 2 ^ ?k" using False by (simp only: roundup_pow_of_two_def if_False)
  moreover have "n \<le> 2 ^ ?k" using b(2) by linarith
  moreover have "?k \<le> m" if "n \<le> 2 ^ m" for m
  proof -
    have "(2 :: nat) ^ ilog2 (n - 1) < 2 ^ m" using b(1) that False by linarith
    then have "ilog2 (n - 1) < m" by (rule power_less_imp_less_exp [of "2 :: nat", rotated]) simp
    then show ?thesis by (rule Suc_leI)
  qed
  ultimately show thesis by (rule that)
qed

lemma size_mask:
  assumes "k < 32"
  shows "(of_nat (2 ^ k) :: u32) = 2 ^ k" "(of_nat (2 ^ k) :: u32) - 1 = mask k"
  by (simp_all add: mask_eq_exp_minus_1)

section \<open>Events are delivered once and in order\<close>

lemma process_eq_loop_entries:
  assumes "eq_ring.ring_ok k buf c n"
  shows "process_eq_loop h buf (2 ^ k) (mask k) c acts = Some (c + of_nat n, acts @ map h (eq_ring.ring_entries k buf c n))"
  using assms
proof (induction n arbitrary: c acts)
  case 0
  have "\<not> phase_ready (ev_phase (buf ! unat (c AND mask k))) c (2 ^ k)" using eq_ring.ready_iff [OF 0] by simp
  then show ?case unfolding process_eq_loop.simps [of h buf "2 ^ k" "mask k" c acts] Let_def by (simp add: eq_ring.ring_entries_def)
next
  case (Suc n)
  have "phase_ready (ev_phase (buf ! unat (c AND mask k))) c (2 ^ k)" using eq_ring.ready_iff [OF Suc.prems] by simp
  then have "process_eq_loop h buf (2 ^ k) (mask k) c acts
      = process_eq_loop h buf (2 ^ k) (mask k) (c + 1) (acts @ [h (buf ! unat (c AND mask k))])"
    unfolding process_eq_loop.simps [of h buf "2 ^ k" "mask k" c acts] Let_def by simp
  also have "\<dots> = Some (c + 1 + of_nat n, (acts @ [h (buf ! unat (c AND mask k))]) @ map h (eq_ring.ring_entries k buf (c + 1) n))"
    by (rule Suc.IH [OF eq_ring.pop_ok(1) [OF Suc.prems]])
  finally show ?case using eq_ring.pop_ok(2) [OF Suc.prems] by (simp add: add.assoc)
qed

text \<open>An event queue that is open, with \<open>n\<close> events waiting.\<close>

definition eq_ready :: "nat \<Rightarrow> mqnic_eq \<Rightarrow> nat \<Rightarrow> bool" where
  "eq_ready k eq n \<longleftrightarrow> eq_size eq = 2 ^ k \<and> eq_mask eq = mask k
     \<and> (\<exists>buf. eq_buf eq = Some buf \<and> eq_ring.ring_ok k buf (eq_cons eq) n)"

definition eq_pending :: "nat \<Rightarrow> mqnic_eq \<Rightarrow> nat \<Rightarrow> mqnic_event list" where
  "eq_pending k eq n = eq_ring.ring_entries k (the (eq_buf eq)) (eq_cons eq) n"

text \<open>
  The device writes an event at its producer pointer, which is \<open>n\<close> ahead of the consumer. The pointers
  of the hardware are 16 bits wide (\<open>MQNIC_EQ_PTR_MASK\<close>) where those of the driver have 32; the device
  takes a slot and a phase from its pointer, and for a ring of at most \<open>2 ^ 15\<close> entries these are the
  same for both; for a larger ring this definition is not exact.
\<close>

lemma device_ptr_16:
  fixes p :: u32
  assumes "k < 16"
  shows "(p AND mask 16) AND mask k = p AND mask k" "(p AND mask 16) AND 2 ^ k = p AND 2 ^ k"
  using assms by (auto simp: bit_simps intro!: bit_word_eqI)

definition eq_device_push :: "nat \<Rightarrow> mqnic_event \<Rightarrow> mqnic_eq \<Rightarrow> nat \<Rightarrow> mqnic_eq" where
  "eq_device_push k e eq n = eq\<lparr>eq_buf := map_option (\<lambda>buf. eq_ring.ring_push k e buf (eq_cons eq) n) (eq_buf eq)\<rparr>"

datatype eq_op = DevicePush mqnic_event | Interrupt

fun eq_run :: "(nat \<Rightarrow> bool) \<Rightarrow> nat \<Rightarrow> eq_op list \<Rightarrow> mqnic_eq \<Rightarrow> nat \<Rightarrow> mqnic_if \<Rightarrow> eq_action list \<Rightarrow> (mqnic_eq \<times> nat \<times> eq_action list) option" where
  "eq_run h k [] eq n i acts = Some (eq, n, acts)"
| "eq_run h k (DevicePush e # ops) eq n i acts = eq_run h k ops (eq_device_push k e eq n) (Suc n) i acts"
| "eq_run h k (Interrupt # ops) eq n i acts =
     (case mqnic_eq_int h eq i of
        None \<Rightarrow> None
      | Some (eq, i, as) \<Rightarrow> eq_run h k ops eq 0 i (acts @ as))"

text \<open>The specification: a queue of at most \<open>m\<close> events that an interrupt empties.\<close>

fun fifo_run :: "nat \<Rightarrow> eq_op list \<Rightarrow> mqnic_event list \<Rightarrow> mqnic_event list \<Rightarrow> (mqnic_event list \<times> mqnic_event list) option" where
  "fifo_run m [] pend del = Some (pend, del)"
| "fifo_run m (DevicePush e # ops) pend del = (if length pend < m then fifo_run m ops (pend @ [e]) del else None)"
| "fifo_run m (Interrupt # ops) pend del = fifo_run m ops [] (del @ pend)"

lemma eq_push_ready:
  assumes "eq_ready k eq n" "n < 2 ^ k"
  shows "eq_ready k (eq_device_push k e eq n) (Suc n)"
    "\<exists>b. eq_pending k (eq_device_push k e eq n) (Suc n) = eq_pending k eq n @ [ev_stamp b e]"
proof -
  obtain buf where b: "eq_buf eq = Some buf" "eq_ring.ring_ok k buf (eq_cons eq) n" using assms(1) by (auto simp: eq_ready_def)
  show "eq_ready k (eq_device_push k e eq n) (Suc n)"
    using assms(1) b eq_ring.push_ok(1) [OF b(2) assms(2), of e] by (simp add: eq_ready_def eq_device_push_def)
  show "\<exists>b. eq_pending k (eq_device_push k e eq n) (Suc n) = eq_pending k eq n @ [ev_stamp b e]"
    using b eq_ring.push_ok(2) [OF b(2) assms(2), of e] by (auto simp: eq_pending_def eq_device_push_def)
qed

lemma eq_handle_stamp: "eq_handle h t (ev_stamp b e) = eq_handle h t e"
  by (cases "t (uint (ev_source e))") (simp_all add: eq_handle_def ev_stamp_def)

lemma ring_ok_read:
  assumes "eq_ring.ring_ok k buf c n"
  shows "eq_ring.ring_ok k buf (c + of_nat n) 0"
  using eq_ring.pop_many(1) [OF assms order_refl] by simp

lemma eq_int_ready:
  assumes "eq_ready k eq n"
  obtains eq' i' where "mqnic_eq_int h eq i = Some (eq', i', map (eq_handle h (eq_table eq)) (eq_pending k eq n))"
    "eq_ready k eq' 0" "eq_table eq' = eq_table eq"
proof -
  obtain buf where b: "eq_buf eq = Some buf" "eq_ring.ring_ok k buf (eq_cons eq) n" "eq_size eq = 2 ^ k" "eq_mask eq = mask k"
    using assms(1) by (auto simp: eq_ready_def)
  note l = process_eq_loop_entries [OF b(2), of "eq_handle h (eq_table eq)" "[]"]
  show thesis
    using ring_ok_read [OF b(2)] b l by (intro that [of "eq\<lparr>eq_cons := eq_cons eq + of_nat n\<rparr>"]) (auto simp: mqnic_eq_int_def mqnic_process_eq_def eq_ready_def eq_pending_def Let_def)
qed

lemma eq_run_fifo:
  assumes "fifo_run (2 ^ k) ops pend del = Some (pend', del')" "eq_ready k eq n"
    and "map (eq_handle h t) (eq_pending k eq n) = map (eq_handle h t) pend" "eq_table eq = t"
  shows "\<exists>eq' n'. eq_run h k ops eq n i (map (eq_handle h t) del) = Some (eq', n', map (eq_handle h t) del')
    \<and> eq_ready k eq' n' \<and> map (eq_handle h t) (eq_pending k eq' n') = map (eq_handle h t) pend'"
  using assms
proof (induction ops arbitrary: eq n i pend del)
  case Nil
  then show ?case by auto
next
  case (Cons op ops)
  show ?case
  proof (cases op)
    case (DevicePush e)
    have len: "length pend = n" using map_eq_imp_length_eq [OF Cons.prems(3)] by (simp add: eq_pending_def eq_ring.ring_entries_def)
    then have n: "n < 2 ^ k" using Cons.prems(1) DevicePush by (auto split: if_splits)
    obtain b where b: "eq_pending k (eq_device_push k e eq n) (Suc n) = eq_pending k eq n @ [ev_stamp b e]"
      using eq_push_ready(2) [OF Cons.prems(2) n] by blast
    have "eq_table (eq_device_push k e eq n) = t" using Cons.prems(4) by (simp add: eq_device_push_def)
    moreover have "fifo_run (2 ^ k) ops (pend @ [e]) del = Some (pend', del')" using Cons.prems(1) DevicePush len n by simp
    moreover have "map (eq_handle h t) (eq_pending k (eq_device_push k e eq n) (Suc n)) = map (eq_handle h t) (pend @ [e])"
      unfolding b using Cons.prems(3) by (simp add: eq_handle_stamp)
    ultimately show ?thesis unfolding DevicePush eq_run.simps using Cons.IH eq_push_ready(1) [OF Cons.prems(2) n] by blast
  next
    case Interrupt
    obtain eq' i' where e: "mqnic_eq_int h eq i = Some (eq', i', map (eq_handle h (eq_table eq)) (eq_pending k eq n))"
      "eq_ready k eq' 0" "eq_table eq' = eq_table eq" using eq_int_ready [OF Cons.prems(2), of h i] .
    have "eq_pending k eq' 0 = []" by (simp add: eq_pending_def eq_ring.ring_entries_def)
    moreover have "fifo_run (2 ^ k) ops [] (del @ pend) = Some (pend', del')" using Cons.prems(1) Interrupt by simp
    ultimately have "\<exists>eq'' n'. eq_run h k ops eq' 0 i' (map (eq_handle h t) (del @ pend)) = Some (eq'', n', map (eq_handle h t) del')
        \<and> eq_ready k eq'' n' \<and> map (eq_handle h t) (eq_pending k eq'' n') = map (eq_handle h t) pend'"
      using Cons.IH [OF _ e(2), of "[]" "del @ pend" i'] Cons.prems(4) e(3) by simp
    then show ?thesis using e(1) Cons.prems(3,4) Interrupt by simp
  qed
qed

lemma ones_ready: "k < 32 \<Longrightarrow> eq_ring.ring_ok k (replicate (2 ^ k) ev_ones) 0 0"
  unfolding eq_ring.ring_ok_def
proof (intro conjI allI impI)
  fix i :: nat assume k: "k < 32" and i: "i < 2 ^ k"
  have "\<not> bit (0 + of_nat i :: u32) k" unfolding bit_index [OF k] using i by simp
  moreover have "unat ((0 + of_nat i :: u32) AND mask k) < 2 ^ k" using unat_index [OF k, of 0 i] by simp
  ultimately show "(ev_phase (replicate (2 ^ k) ev_ones ! unat ((0 + of_nat i :: u32) AND mask k)) AND 0x80000000 \<noteq> 0)
      \<longleftrightarrow> (if i < 0 then \<not> bit (0 + of_nat i :: u32) k else bit (0 + of_nat i :: u32) k)"
    by (simp add: ev_ones_def)
qed simp_all

lemma open_eq_ready:
  assumes "mqnic_open_eq buf reg eq0 irq siz i = (None, eq, i')" "siz \<le> 2 ^ 31"
  obtains k where "eq_ready k eq 0" "roundup_pow_of_two siz = 2 ^ k" "siz \<le> 2 ^ k" "k < 32" "eq_table eq = eq_table eq0" "eq_enabled eq"
proof -
  obtain k where r: "roundup_pow_of_two siz = 2 ^ k" "siz \<le> 2 ^ k" "\<And>m. siz \<le> 2 ^ m \<Longrightarrow> k \<le> m"
    by (rule roundup_pow [of siz]) (rule that)
  then have k: "roundup_pow_of_two siz = 2 ^ k" "siz \<le> 2 ^ k" "k < 32" using r(1,2) r(3) [of 31] assms(2) by linarith+
  obtain eqn res where r: "mqnic_res_alloc (if_eq_res i) = (eqn, res)" by (cases "mqnic_res_alloc (if_eq_res i)")
  have "eq_size eq = 2 ^ k" "eq_mask eq = mask k" "eq_buf eq = Some (replicate (2 ^ k) ev_ones)" "eq_cons eq = 0"
      "eq_table eq = eq_table eq0" "eq_enabled eq"
    using assms(1) k size_mask [of k] by (auto simp: mqnic_open_eq_def r Let_def split: if_splits option.splits)
  then show thesis using k ones_ready [of k] by (intro that [of k]) (simp_all add: eq_ready_def)
qed

text \<open>
  Property C37. An event queue as it is opened, and any sequence of events written by the device and of interrupts that never has more
  events waiting than the queue has entries: the interrupt handler always ends, every event is handled exactly once and in
  the order of the device, and the others wait. The pointers may wrap around any number of times.
\<close>

theorem event_queue_fifo:
  assumes "mqnic_open_eq buf reg eq0 irq siz i = (None, eq, i')" "siz \<le> 2 ^ 31" "roundup_pow_of_two siz = 2 ^ k"
    and "fifo_run (2 ^ k) ops [] [] = Some (waiting, handled)"
  shows "\<exists>eq' n. eq_run h k ops eq 0 j [] = Some (eq', n, map (eq_handle h (eq_table eq0)) handled)
    \<and> map (eq_handle h (eq_table eq0)) (eq_pending k eq' n) = map (eq_handle h (eq_table eq0)) waiting"
proof -
  obtain k' where k': "eq_ready k' eq 0" "eq_table eq = eq_table eq0" "roundup_pow_of_two siz = 2 ^ k'"
    using open_eq_ready [OF assms(1,2)] by metis
  then have "k' = k" using assms(3) power_inject_exp [of "2 :: nat" k' k] by simp
  with k' have r: "eq_ready k eq 0" "eq_table eq = eq_table eq0" by simp_all
  have "eq_pending k eq 0 = []" by (simp add: eq_pending_def eq_ring.ring_entries_def)
  then show ?thesis using eq_run_fifo [OF assms(4) r(1), of h "eq_table eq0" j] r(2) by auto
qed

definition example_if :: mqnic_if where
  "example_if = (let r = \<lparr>res_count = 4, res_base = 0x1000, res_stride = 32, res_bmap = [False, False, False, False]\<rparr>
     in \<lparr>if_eq_res = r, if_cq_res = r, if_txq_res = r, if_rxq_res = r, if_io = [], if_bufs = []\<rparr>)"

definition example_eq :: mqnic_eq where
  "example_eq = \<lparr>eq_prod = 0, eq_cons = 0, eq_size = 0, eq_mask = 0, eq_stride = 0, eq_buf = None, eq_dma = 0, eq_eqn = -1,
     eq_irq = None, eq_enabled = False, eq_hw = None, eq_table = [3 \<mapsto> 7]\<rparr>"

definition example_event :: "u16 \<Rightarrow> mqnic_event" where
  "example_event src = \<lparr>ev_type = 0, ev_source = src, ev_phase = 0\<rparr>"

definition example_ops :: "eq_op list" where
  "example_ops = [DevicePush (example_event 3), DevicePush (example_event 4), Interrupt, DevicePush (example_event 3), Interrupt]"

theorem event_queue_fifo_witness:
  "\<exists>eq i' eq' n. mqnic_open_eq (Some 0x5000) None example_eq (Some 1) 2 example_if = (None, eq, i')
    \<and> eq_run (\<lambda>_. True) 1 example_ops eq 0 i' [] = Some (eq', n, [ScheduleNapi 7, UnknownSource 4, ScheduleNapi 7])"
proof -
  have r2: "roundup_pow_of_two 2 = 2 ^ 1" by (simp add: roundup_pow_of_two_def ilog2.simps [of "Suc 0"])
  obtain e eq i' where o: "mqnic_open_eq (Some 0x5000) None example_eq (Some 1) 2 example_if = (e, eq, i')"
    by (cases "mqnic_open_eq (Some 0x5000) None example_eq (Some 1) 2 example_if")
  have "fst (mqnic_open_eq (Some 0x5000) None example_eq (Some 1) 2 example_if) = None"
    by (simp add: mqnic_open_eq_def example_eq_def example_if_def mqnic_res_alloc_def Let_def)
  with o have o: "mqnic_open_eq (Some 0x5000) None example_eq (Some 1) 2 example_if = (None, eq, i')" by simp
  have f: "fifo_run (2 ^ 1) example_ops [] [] = Some ([], [example_event 3, example_event 4, example_event 3])"
    by (simp add: example_ops_def)
  have h: "map (eq_handle (\<lambda>_. True) (eq_table example_eq)) [example_event 3, example_event 4, example_event 3]
      = [ScheduleNapi 7, UnknownSource 4, ScheduleNapi 7]"
    by (simp add: eq_handle_def example_event_def example_eq_def MQNIC_EVENT_TYPE_CPL_def)
  from event_queue_fifo [OF o _ r2 f, of "\<lambda>_. True" i', unfolded h] obtain eq' n where
    "eq_run (\<lambda>_. True) 1 example_ops eq 0 i' [] = Some (eq', n, [ScheduleNapi 7, UnknownSource 4, ScheduleNapi 7])" by auto
  with o show ?thesis by blast
qed

section \<open>A completion queue without a buffer\<close>

text \<open>
  When the buffer of a completion queue cannot be allocated, the event queue is closed, which other completion queues may use, and
  the number of the completion queue stays in use.
\<close>

lemma open_cq_failure_closes_eq:
  assumes "\<not> cq_enabled cq" "cq_hw cq = None" "cq_buf cq = None" "mqnic_res_alloc (if_cq_res i) = (cqn, res)" "0 \<le> cqn"
  shows "\<exists>cq' eq' i'. mqnic_open_cq None cq (Some eq) siz i = (Some ENOMEM, cq', Some eq', i') \<and> \<not> eq_enabled eq' \<and> eq_buf eq' = None
    \<and> cqn \<in> res_used (if_cq_res i')"
proof -
  have "cqn \<in> res_used res" using res_pool.alloc_new [OF assms(4,5)] by simp
  then show ?thesis
    using assms by (auto simp: mqnic_open_cq_def mqnic_close_eq_def Let_def if_writes_def split: option.splits prod.splits)
qed

lemma close_cq_restores:
  assumes "cqn \<in> res_universe (if_cq_res i)" "cq_cqn cq = cqn"
  shows "cqn \<notin> res_used (if_cq_res (snd (snd (mqnic_close_cq cq eq i))))"
  using assms res_pool.free_used by (auto simp: mqnic_close_cq_def Let_def if_writes_def split: option.splits prod.splits)

end
