(* ===== verification/Mqnic_Ring.thy ===== *)
theory Mqnic_Ring
  imports Mqnic_Queue "HOL-Library.Multiset"
begin

text \<open>
  What the transmit and the receive rings of the NIC driver share: the ring structure, whose bookkeeping array is a
  parameter (a union of the C code), the descriptors, the queue registers, the time stamps of completions, and
  the loops over the completion queue and over the consumed slots. The DMA mappings of the kernel are
  explicit: the mappings in use, and a flag that tells whether something was unmapped that was not mapped.
  The locale \<open>slot_ring\<close> has the discipline of both rings: occupied slots lie between the consumer and
  the producer, and the mappings in use are those of the occupied slots.
\<close>

unbundle bit_operations_syntax

section \<open>Data\<close>

record mqnic_desc =
  d_csum :: u16
  d_len :: u32
  d_addr :: u64

text \<open>A descriptor block per slot is in \<open>r_buf\<close>; \<open>r_stopped\<close> is the state of the queue of the network stack.\<close>

record 'i mqnic_ring =
  r_prod :: u32
  r_bytes :: u64
  r_packets :: u64
  r_dropped :: u64
  r_stopped :: bool
  r_cons :: u32
  r_ts_s :: u64
  r_ts_valid :: bool
  r_size :: u32
  r_full_size :: u32
  r_size_mask :: u32
  r_stride :: u32
  r_page_order :: nat
  r_block :: nat
  r_log_block :: nat
  r_buf :: "mqnic_desc list list option"
  r_dma :: u64
  r_info :: "'i list"
  r_priv :: bool
  r_index :: int
  r_cq :: "nat option"
  r_enabled :: bool
  r_hw :: "u64 option"

definition MQNIC_QUEUE_BASE_ADDR_VF_REG :: u64 where "MQNIC_QUEUE_BASE_ADDR_VF_REG = 0x00"
definition MQNIC_QUEUE_CTRL_STATUS_REG :: u64 where "MQNIC_QUEUE_CTRL_STATUS_REG = 0x08"
definition MQNIC_QUEUE_PTR_MASK :: u32 where "MQNIC_QUEUE_PTR_MASK = 0xFFFF"
definition MQNIC_QUEUE_CMD_SET_SIZE :: u32 where "MQNIC_QUEUE_CMD_SET_SIZE = 0x80020000"
definition MQNIC_QUEUE_CMD_SET_CQN :: u32 where "MQNIC_QUEUE_CMD_SET_CQN = 0xC0000000"
definition MQNIC_QUEUE_CMD_SET_PROD_PTR :: u32 where "MQNIC_QUEUE_CMD_SET_PROD_PTR = 0x80800000"
definition MQNIC_QUEUE_CMD_SET_CONS_PTR :: u32 where "MQNIC_QUEUE_CMD_SET_CONS_PTR = 0x80900000"
definition MQNIC_QUEUE_CMD_SET_ENABLE :: u32 where "MQNIC_QUEUE_CMD_SET_ENABLE = 0x40000100"

text \<open>The register writes with which both kinds of rings are set up.\<close>

definition queue_setup :: "'i mqnic_ring \<Rightarrow> int \<Rightarrow> (u64 \<times> u32) list" where
  "queue_setup r cqn =
     [(MQNIC_QUEUE_CTRL_STATUS_REG, MQNIC_QUEUE_CMD_SET_ENABLE OR 0),
      (MQNIC_QUEUE_BASE_ADDR_VF_REG + 0, ucast (r_dma r AND 0xfffff000)),
      (MQNIC_QUEUE_BASE_ADDR_VF_REG + 4, ucast (drop_bit 32 (r_dma r))),
      (MQNIC_QUEUE_CTRL_STATUS_REG, MQNIC_QUEUE_CMD_SET_SIZE OR of_nat (ilog2 (unat (r_size r))) OR push_bit 8 (of_nat (r_log_block r))),
      (MQNIC_QUEUE_CTRL_STATUS_REG, MQNIC_QUEUE_CMD_SET_CQN OR of_int cqn),
      (MQNIC_QUEUE_CTRL_STATUS_REG, MQNIC_QUEUE_CMD_SET_PROD_PTR OR (r_prod r AND MQNIC_QUEUE_PTR_MASK)),
      (MQNIC_QUEUE_CTRL_STATUS_REG, MQNIC_QUEUE_CMD_SET_CONS_PTR OR (r_cons r AND MQNIC_QUEUE_PTR_MASK))]"

text \<open>The size fields of a ring that is opened for \<open>siz\<close> entries of \<open>blk\<close> descriptors.\<close>

definition ring_sizes :: "nat \<Rightarrow> nat \<Rightarrow> 'i mqnic_ring \<Rightarrow> 'i mqnic_ring" where
  "ring_sizes siz blk r =
     (let lb = (if blk < 2 then 0 else ilog2 (blk - 1) + 1);
          n = roundup_pow_of_two siz
      in r\<lparr>r_log_block := lb, r_block := 2 ^ lb, r_size := of_nat n, r_full_size := drop_bit 1 (of_nat n),
           r_size_mask := of_nat n - 1, r_stride := of_nat (roundup_pow_of_two (MQNIC_DESC_SIZE * 2 ^ lb))\<rparr>)"

definition queue_init :: "'i mqnic_ring" where
  "queue_init = \<lparr>r_prod = 0, r_bytes = 0, r_packets = 0, r_dropped = 0, r_stopped = False, r_cons = 0, r_ts_s = 0, r_ts_valid = False,
     r_size = 0, r_full_size = 0, r_size_mask = 0, r_stride = 0, r_page_order = 0, r_block = 0, r_log_block = 0, r_buf = None,
     r_dma = 0, r_info = [], r_priv = False, r_index = -1, r_cq = None, r_enabled = False, r_hw = None\<rparr>"

section \<open>DMA mappings\<close>

text \<open>
  \<open>dma_live\<close> are the mappings in use, \<open>dma_freed\<close> the socket buffers or pages given back to the
  kernel, \<open>dma_next\<close> counts the pages that were allocated, and \<open>dma_synced\<close> are the addresses that were synchronised for the CPU.
\<close>

record dma_state =
  dma_live :: "(u64 \<times> u32) list"
  dma_bad :: bool
  dma_freed :: "nat list"
  dma_next :: nat
  dma_synced :: "u64 list"

definition dma_map :: "u64 \<times> u32 \<Rightarrow> dma_state \<Rightarrow> dma_state" where
  "dma_map m d = d\<lparr>dma_live := m # dma_live d\<rparr>"

definition dma_unmap :: "u64 \<times> u32 \<Rightarrow> dma_state \<Rightarrow> dma_state" where
  "dma_unmap m d = (if m \<in> set (dma_live d) then d\<lparr>dma_live := remove1 m (dma_live d)\<rparr> else d\<lparr>dma_bad := True\<rparr>)"

definition give_back :: "nat option \<Rightarrow> dma_state \<Rightarrow> dma_state" where
  "give_back x d = d\<lparr>dma_freed := dma_freed d @ (case x of None \<Rightarrow> [] | Some i \<Rightarrow> [i])\<rparr>"

lemma dma_unmap_keeps [simp]:
  "dma_freed (dma_unmap m d) = dma_freed d" "dma_next (dma_unmap m d) = dma_next d" "dma_synced (dma_unmap m d) = dma_synced d"
  by (simp_all add: dma_unmap_def)

lemma unmap_live:
  assumes "mset ms \<subseteq># mset (dma_live d)"
  shows "mset (dma_live (fold dma_unmap ms d)) = mset (dma_live d) - mset ms"
    "dma_bad (fold dma_unmap ms d) = dma_bad d"
    "dma_freed (fold dma_unmap ms d) = dma_freed d" "dma_next (fold dma_unmap ms d) = dma_next d"
    "dma_synced (fold dma_unmap ms d) = dma_synced d"
proof -
  have "mset (dma_live (fold dma_unmap ms d)) = mset (dma_live d) - mset ms \<and> dma_bad (fold dma_unmap ms d) = dma_bad d
    \<and> dma_freed (fold dma_unmap ms d) = dma_freed d \<and> dma_next (fold dma_unmap ms d) = dma_next d
    \<and> dma_synced (fold dma_unmap ms d) = dma_synced d"
    using assms
  proof (induction ms arbitrary: d)
    case (Cons m ms)
    then have m: "m \<in> set (dma_live d)" using mset_subset_eqD [of _ _ m] by fastforce
    then have "mset ms \<subseteq># mset (dma_live (dma_unmap m d))"
      using Cons.prems by (simp add: dma_unmap_def insert_subset_eq_iff)
    from Cons.IH [OF this] m show ?case by (simp add: dma_unmap_def)
  qed simp
  then show "mset (dma_live (fold dma_unmap ms d)) = mset (dma_live d) - mset ms"
    "dma_bad (fold dma_unmap ms d) = dma_bad d"
    "dma_freed (fold dma_unmap ms d) = dma_freed d" "dma_next (fold dma_unmap ms d) = dma_next d"
    "dma_synced (fold dma_unmap ms d) = dma_synced d" by simp_all
qed

section \<open>Time stamps of completions\<close>

text \<open>The time stamp of a completion has 16 bits of seconds; \<open>phc\<close> are the two words of the clock, if there is one.\<close>

definition mqnic_read_cpl_ts :: "(u32 \<times> u32) option \<Rightarrow> mqnic_cpl \<Rightarrow> 'i mqnic_ring \<Rightarrow> (u64 \<times> u32) \<times> 'i mqnic_ring" where
  "mqnic_read_cpl_ts phc cpl r =
     (let ts_s = ucast (cpl_ts_s cpl);
          r = (if \<not> r_ts_valid r \<or> (r_ts_s r XOR ts_s) AND 0xff00 \<noteq> 0
               then (case phc of
                       None \<Rightarrow> r
                     | Some (sec_l, sec_h) \<Rightarrow> r\<lparr>r_ts_s := ucast sec_l OR push_bit 32 (ucast sec_h), r_ts_valid := True\<rparr>)
               else r)
      in ((ts_s OR (r_ts_s r AND 0xffffffffffffff00), cpl_ts_ns cpl), r))"

text \<open>
  A completion of second \<open>0xff\<close> that is read in second \<open>0x100\<close> gets a time stamp 256 seconds late:
  the bits of the clock are joined with those of the completion, not replaced by them.
\<close>

lemma cpl_ts_boundary:
  "fst (mqnic_read_cpl_ts (Some (0x100, 0)) (cpl_ones\<lparr>cpl_ts_s := 0xff, cpl_ts_ns := 5\<rparr>) (queue_init :: nat mqnic_ring)) = (0x1ff, 5)"
  by code_simp

lemma read_cpl_ts_keeps [simp]:
  "r_prod (snd (mqnic_read_cpl_ts phc cpl r)) = r_prod r"
  "r_cons (snd (mqnic_read_cpl_ts phc cpl r)) = r_cons r"
  "r_info (snd (mqnic_read_cpl_ts phc cpl r)) = r_info r"
  "r_buf (snd (mqnic_read_cpl_ts phc cpl r)) = r_buf r"
  "r_size (snd (mqnic_read_cpl_ts phc cpl r)) = r_size r"
  "r_size_mask (snd (mqnic_read_cpl_ts phc cpl r)) = r_size_mask r"
  "r_full_size (snd (mqnic_read_cpl_ts phc cpl r)) = r_full_size r"
  "r_block (snd (mqnic_read_cpl_ts phc cpl r)) = r_block r"
  "r_stopped (snd (mqnic_read_cpl_ts phc cpl r)) = r_stopped r"
  "r_page_order (snd (mqnic_read_cpl_ts phc cpl r)) = r_page_order r"
  "r_priv (snd (mqnic_read_cpl_ts phc cpl r)) = r_priv r"
  by (simp_all add: mqnic_read_cpl_ts_def Let_def split: option.split)

section \<open>Slots\<close>

lemma minus_one_less: "p \<noteq> c \<Longrightarrow> unat (p - (c + 1)) < unat (p - c)" for p c :: u32
proof -
  assume "p \<noteq> c"
  then have "p - c \<noteq> 0" by simp
  then have "0 < unat (p - c)" by (simp add: unat_gt_0)
  with \<open>p - c \<noteq> 0\<close> have "unat (p - c - 1) < unat (p - c)" using unat_minus_one [of "p - c"] by simp
  then show ?thesis by (simp add: diff_diff_eq)
qed

text \<open>The loop of both poll functions that moves the consumer pointer over the slots that are free again.\<close>

function ring_advance :: "('i \<Rightarrow> bool) \<Rightarrow> 'i list \<Rightarrow> u32 \<Rightarrow> u32 \<Rightarrow> u32 \<Rightarrow> u32" where
  "ring_advance occ info msk prod_ptr cons_ptr =
     (if cons_ptr = prod_ptr then cons_ptr
      else if occ (info ! unat (cons_ptr AND msk)) then cons_ptr
      else ring_advance occ info msk prod_ptr (cons_ptr + 1))"
  by pat_completeness auto
termination
  by (relation "measure (\<lambda>(_, _, _, p, c). unat (p - c))") (auto intro!: minus_one_less)

declare ring_advance.simps [simp del]

locale slot_ring =
  fixes occ :: "'i \<Rightarrow> bool" and maps :: "'i \<Rightarrow> (u64 \<times> u32) list"
  assumes occ_mapped: "occ x \<Longrightarrow> maps x \<noteq> []"
begin

definition held :: "('i \<Rightarrow> 'x list) \<Rightarrow> 'i list \<Rightarrow> 'x multiset" where
  "held f info = (\<Sum>x\<leftarrow>info. if occ x then mset (f x) else {#})"

text \<open>The occupied slots lie in the window of the ring.\<close>

definition window_ok :: "nat \<Rightarrow> 'i list \<Rightarrow> u32 \<Rightarrow> u32 \<Rightarrow> bool" where
  "window_ok k info p c \<longleftrightarrow> k < 32 \<and> length info = 2 ^ k \<and> unat (p - c) \<le> 2 ^ k \<and>
     (\<forall>i < 2 ^ k. unat (p - c) \<le> i \<longrightarrow> \<not> occ (info ! unat ((c + of_nat i) AND mask k)))"

definition dma_ok :: "'i list \<Rightarrow> dma_state \<Rightarrow> bool" where
  "dma_ok info d \<longleftrightarrow> mset (dma_live d) = held maps info \<and> \<not> dma_bad d"

lemma held_update:
  assumes "i < length info"
  shows "held f (info[i := x]) + (if occ (info ! i) then mset (f (info ! i)) else {#}) = held f info + (if occ x then mset (f x) else {#})"
  using assms
proof (induction info arbitrary: i)
  case (Cons y ys)
  show ?case
  proof (cases i)
    case (Suc j)
    then have "held f (ys[j := x]) + (if occ (ys ! j) then mset (f (ys ! j)) else {#}) = held f ys + (if occ x then mset (f x) else {#})"
      using Cons by simp
    then show ?thesis using Suc by (simp add: held_def add.assoc split: if_splits)
  qed (simp add: held_def ac_simps)
qed simp

lemma held_none: "(\<And>x. x \<in> set info \<Longrightarrow> \<not> occ x) \<Longrightarrow> held f info = {#}"
  by (induction info) (simp_all add: held_def)

lemma held_filter: "held f info = mset (concat (map f (filter occ info)))"
  by (induction info) (simp_all add: held_def)

text \<open>Nothing is mapped exactly when the ring is idle.\<close>

lemma idle_iff: "dma_ok info d \<Longrightarrow> dma_live d = [] \<longleftrightarrow> (\<forall>x\<in>set info. \<not> occ x)"
proof -
  assume "dma_ok info d"
  then have "dma_live d = [] \<longleftrightarrow> concat (map maps (filter occ info)) = []"
    unfolding dma_ok_def held_filter by (metis mset_zero_iff)
  also have "\<dots> \<longleftrightarrow> (\<forall>x\<in>set info. \<not> occ x)" using occ_mapped by auto
  finally show ?thesis .
qed

lemma slot_less: "window_ok k info p c \<Longrightarrow> unat (q AND mask k) < length info" for q :: u32
  by (simp add: window_ok_def unat_and_mask)

lemma slot_window:
  assumes "window_ok k info p c" "j < 2 ^ k"
  obtains i where "i < 2 ^ k" "unat ((c + of_nat i) AND mask k) = j"
proof -
  let ?i = "(j + (2 ^ k - unat c mod 2 ^ k)) mod 2 ^ k"
  have k: "k < 32" using assms(1) by (simp add: window_ok_def)
  have "unat c mod 2 ^ k \<le> 2 ^ k" by (simp add: less_imp_le)
  then have "unat c mod 2 ^ k + (j + (2 ^ k - unat c mod 2 ^ k)) = j + 2 ^ k" by linarith
  moreover have "(unat c + ?i) mod 2 ^ k = (unat c mod 2 ^ k + (j + (2 ^ k - unat c mod 2 ^ k))) mod 2 ^ k"
    by (simp only: mod_add_left_eq mod_add_right_eq)
  ultimately have "(unat c + ?i) mod 2 ^ k = j" using assms(2) by simp
  then have "unat ((c + of_nat ?i) AND mask k) = j" unfolding unat_index [OF k] .
  then show thesis using that [of ?i] by simp
qed

lemma free_slot_prod:
  assumes "window_ok k info p c" "unat (p - c) < 2 ^ k"
  shows "\<not> occ (info ! unat (p AND mask k))"
proof -
  have "p = c + of_nat (unat (p - c))" by simp
  then show ?thesis using assms unfolding window_ok_def by (metis order_refl)
qed

lemma window_fill:
  assumes "window_ok k info p c" "unat (p - c) < 2 ^ k"
  shows "window_ok k (info[unat (p AND mask k) := x]) (p + 1) c" "unat (p + 1 - c) = Suc (unat (p - c))"
proof -
  have k: "k < 32" and l: "length info = 2 ^ k" using assms(1) by (simp_all add: window_ok_def)
  have "(2 :: nat) ^ k \<le> 2 ^ 31" using k by (intro power_increasing) simp_all
  with assms(2) have lt: "Suc (unat (p - c)) < 2 ^ 32" by simp
  have s: "p + 1 - c = (p - c) + 1" by simp
  show u: "unat (p + 1 - c) = Suc (unat (p - c))" unfolding s using lt by (simp add: unat_word_ariths)
  have "\<not> occ (info[unat (p AND mask k) := x] ! unat ((c + of_nat i) AND mask k))" if i: "i < 2 ^ k" "Suc (unat (p - c)) \<le> i" for i
  proof -
    have "(c + of_nat i) AND mask k \<noteq> (c + of_nat (unat (p - c))) AND mask k"
      using index_inj [OF k i(1) assms(2), of c] i(2) by auto
    then have "unat (p AND mask k) \<noteq> unat ((c + of_nat i) AND mask k)" by (simp add: word_unat_eq_iff [symmetric])
    then show ?thesis using assms(1) i by (simp add: window_ok_def)
  qed
  then show "window_ok k (info[unat (p AND mask k) := x]) (p + 1) c" using k l assms(2) unfolding window_ok_def u by simp
qed

lemma window_clear:
  assumes "window_ok k info p c" "\<not> occ x"
  shows "window_ok k (info[i := x]) p c"
proof -
  have "\<not> occ (info[i := x] ! j)" if "\<not> occ (info ! j)" "j < length info" for j
    using that assms(2) by (cases "i = j") simp_all
  then show ?thesis using assms(1) slot_less [OF assms(1)] by (simp add: window_ok_def)
qed

lemma window_pop:
  assumes "window_ok k info p c" "p \<noteq> c" "\<not> occ (info ! unat (c AND mask k))"
  shows "window_ok k info p (c + 1)" "unat (p - (c + 1)) < unat (p - c)"
proof -
  have k: "k < 32" and l: "length info = 2 ^ k" using assms(1) by (simp_all add: window_ok_def)
  show less: "unat (p - (c + 1)) < unat (p - c)" by (rule minus_one_less [OF assms(2)])
  have "p - c \<noteq> 0" using assms(2) by simp
  then have u: "unat (p - (c + 1)) = unat (p - c) - 1" using unat_minus_one [of "p - c"] by (simp add: diff_diff_eq)
  have "\<not> occ (info ! unat ((c + 1 + of_nat i) AND mask k))" if i: "i < 2 ^ k" "unat (p - (c + 1)) \<le> i" for i
  proof (cases "Suc i = 2 ^ k")
    case True
    have "unat ((c + of_nat (Suc i)) AND mask k) = unat ((c + of_nat 0) AND mask k)" unfolding unat_index [OF k] True by simp
    then show ?thesis using assms(3) by (simp add: add.assoc)
  next
    case False
    then have "Suc i < 2 ^ k" "unat (p - c) \<le> Suc i" using i u less by linarith+
    then have "\<not> occ (info ! unat ((c + of_nat (Suc i)) AND mask k))" using assms(1) unfolding window_ok_def by blast
    then show ?thesis by (simp add: add.assoc)
  qed
  then show "window_ok k info p (c + 1)" using assms(1) less by (auto simp: window_ok_def)
qed

lemma window_advance:
  assumes "window_ok k info p c"
  shows "window_ok k info p (ring_advance occ info (mask k) p c) \<and> unat (p - ring_advance occ info (mask k) p c) \<le> unat (p - c)
    \<and> (let c' = ring_advance occ info (mask k) p c in c' = p \<or> occ (info ! unat (c' AND mask k)))"
  using assms
proof (induction "unat (p - c)" arbitrary: c rule: less_induct)
  case less
  show ?case
  proof (cases "c = p \<or> occ (info ! unat (c AND mask k))")
    case True
    then show ?thesis using less.prems by (auto simp: ring_advance.simps [of occ info "mask k" p c])
  next
    case False
    have w: "window_ok k info p (c + 1)" "unat (p - (c + 1)) < unat (p - c)"
      using window_pop [OF less.prems] False by auto
    have "ring_advance occ info (mask k) p c = ring_advance occ info (mask k) p (c + 1)"
      using False by (simp add: ring_advance.simps [of occ info "mask k" p c])
    then show ?thesis using less.hyps [OF w(2,1)] w(2) by auto
  qed
qed

lemma window_empty:
  assumes "window_ok k info p p"
  shows "held f info = {#}"
proof (rule held_none)
  fix x assume "x \<in> set info"
  then obtain j where "j < 2 ^ k" "x = info ! j" using assms by (auto simp: in_set_conv_nth window_ok_def)
  then show "\<not> occ x" using slot_window [OF assms \<open>j < 2 ^ k\<close>] assms by (auto simp: window_ok_def)
qed

text \<open>The mappings of a slot that is freed are in use, so that unmapping them is right.\<close>

lemma dma_free:
  assumes "dma_ok info d" "i < length info" "occ (info ! i)" "\<not> occ x"
  shows "dma_ok (info[i := x]) (fold dma_unmap (maps (info ! i)) d)"
    "dma_freed (fold dma_unmap (maps (info ! i)) d) = dma_freed d" "dma_next (fold dma_unmap (maps (info ! i)) d) = dma_next d"
    "held f info = held f (info[i := x]) + mset (f (info ! i))"
proof -
  show h: "held f info = held f (info[i := x]) + mset (f (info ! i))" for f :: "'i \<Rightarrow> 'y list"
    using held_update [OF assms(2), of f x] assms(3,4) by simp
  have s: "mset (maps (info ! i)) \<subseteq># mset (dma_live d)" using h [of maps] assms(1) by (simp add: dma_ok_def)
  show "dma_ok (info[i := x]) (fold dma_unmap (maps (info ! i)) d)" using unmap_live [OF s] h [of maps] assms(1) by (simp add: dma_ok_def)
  show "dma_freed (fold dma_unmap (maps (info ! i)) d) = dma_freed d" "dma_next (fold dma_unmap (maps (info ! i)) d) = dma_next d"
    using unmap_live [OF s] by simp_all
qed

end

section \<open>Ready completions\<close>

lemma unat_pow2_u32: "k < 32 \<Longrightarrow> unat (2 ^ k :: u32) = 2 ^ k"
proof -
  assume "k < 32"
  then have "(2 :: nat) ^ k < 2 ^ 32" by (intro power_strict_increasing) simp_all
  then have "unat (of_nat (2 ^ k) :: u32) = 2 ^ k" unfolding unat_of_nat by simp
  then show ?thesis by simp
qed

lemma roundup_pow_less:
  assumes "siz \<le> 2 ^ 31"
  obtains k where "roundup_pow_of_two siz = 2 ^ k" "k < 32"
proof -
  obtain k where r: "roundup_pow_of_two siz = 2 ^ k" "\<And>m. siz \<le> 2 ^ m \<Longrightarrow> k \<le> m" by (rule roundup_pow [of siz]) (rule that)
  then show thesis using that [of k] assms r(2) [of 31] by linarith
qed

text \<open>The slot that a completion names, in the driver's computation and for a ring of \<open>2 ^ k\<close> slots.\<close>

definition cpl_ring_index :: "'i mqnic_ring \<Rightarrow> mqnic_cpl \<Rightarrow> nat" where
  "cpl_ring_index r e = unat (ucast (cpl_index e) AND r_size_mask r)"

definition cpl_slot :: "nat \<Rightarrow> mqnic_cpl \<Rightarrow> nat" where
  "cpl_slot k e = unat (ucast (cpl_index e) AND mask k :: u32)"

lemma cpl_slot_less [simp]: "cpl_slot k e < 2 ^ k"
  by (simp add: cpl_slot_def unat_and_mask)

lemma cpl_slot_stamp [simp]: "cpl_slot k (cpl_stamp b e) = cpl_slot k e"
  by (simp add: cpl_slot_def cpl_stamp_def)

text \<open>The completions that a poll with a budget finds in the completion queue.\<close>

fun ready_cpls :: "mqnic_cpl list \<Rightarrow> u32 \<Rightarrow> u32 \<Rightarrow> nat \<Rightarrow> u32 \<Rightarrow> mqnic_cpl list" where
  "ready_cpls buf siz msk 0 cons_ptr = []"
| "ready_cpls buf siz msk (Suc budget) cons_ptr =
     (let cpl = buf ! unat (cons_ptr AND msk)
      in if \<not> phase_ready (cpl_phase cpl) cons_ptr siz then [] else cpl # ready_cpls buf siz msk budget (cons_ptr + 1))"

lemma distinct_map_take_drop: "distinct (map f xs) \<Longrightarrow> x \<in> set (drop m xs) \<Longrightarrow> f x \<notin> f ` set (take m xs)"
  using distinct_append [of "map f (take m xs)" "map f (drop m xs)"] by (auto simp: map_append [symmetric])

text \<open>A completion queue that is open, with \<open>n\<close> completions that the driver has not read, and these completions.\<close>

definition cq_waiting :: "mqnic_cq \<Rightarrow> nat \<Rightarrow> mqnic_cpl list" where
  "cq_waiting cq n = map (\<lambda>j. the (cq_buf cq) ! unat ((cq_cons cq + of_nat j) AND cq_mask cq)) [0..<n]"

definition cq_ready :: "nat \<Rightarrow> mqnic_cq \<Rightarrow> nat \<Rightarrow> bool" where
  "cq_ready k cq n \<longleftrightarrow> cq_size cq = 2 ^ k \<and> cq_mask cq = mask k \<and> cq_buf cq \<noteq> None \<and> cq_ring.ring_ok k (the (cq_buf cq)) (cq_cons cq) n"

text \<open>
  The device writes a completion at its producer pointer, which is \<open>n\<close> ahead of the consumer; as for
  event queues, slot and phase are those of the 16-bit pointer of the hardware
  (\<open>MQNIC_CQ_PTR_MASK\<close>) for rings of at most \<open>2 ^ 15\<close> entries.
\<close>

definition cq_device_push :: "mqnic_cpl \<Rightarrow> mqnic_cq \<Rightarrow> nat \<Rightarrow> mqnic_cq" where
  "cq_device_push e cq n =
     (let p = cq_cons cq + of_nat n
      in cq\<lparr>cq_buf := map_option (\<lambda>buf. buf[unat (p AND cq_mask cq) := cpl_stamp (p AND cq_size cq = 0) e]) (cq_buf cq)\<rparr>)"

lemma cq_waiting_entries: "cq_ready k cq n \<Longrightarrow> cq_waiting cq m = cq_ring.ring_entries k (the (cq_buf cq)) (cq_cons cq) m"
  by (simp add: cq_waiting_def cq_ready_def cq_ring.ring_entries_def)

lemma cq_push_ready:
  assumes "cq_ready k cq n" "n < 2 ^ k"
  shows "cq_ready k (cq_device_push e cq n) (Suc n)" "\<exists>b. cq_waiting (cq_device_push e cq n) (Suc n) = cq_waiting cq n @ [cpl_stamp b e]"
proof -
  obtain buf where b: "cq_buf cq = Some buf" "cq_ring.ring_ok k buf (cq_cons cq) n" using assms(1) by (auto simp: cq_ready_def)
  have k: "k < 32" using b(2) by (simp add: cq_ring.ring_ok_def)
  have e: "cq_device_push e cq n = cq\<lparr>cq_buf := Some (cq_ring.ring_push k e buf (cq_cons cq) n)\<rparr>"
    using assms(1) b(1) and_power_eq_bit [OF k, of "cq_cons cq + of_nat n", symmetric]
    by (simp add: cq_device_push_def cq_ring.ring_push_def cq_ready_def Let_def)
  show r: "cq_ready k (cq_device_push e cq n) (Suc n)"
    using assms(1) b cq_ring.push_ok(1) [OF b(2) assms(2), of e] by (simp add: cq_ready_def e)
  show "\<exists>b. cq_waiting (cq_device_push e cq n) (Suc n) = cq_waiting cq n @ [cpl_stamp b e]"
    using b cq_ring.push_ok(2) [OF b(2) assms(2), of e]
    unfolding cq_waiting_entries [OF r] cq_waiting_entries [OF assms(1)] unfolding e by auto
qed

lemma cq_pop_ready:
  assumes "cq_ready k cq n" "m \<le> n"
  shows "cq_ready k (cq\<lparr>cq_cons := cq_cons cq + of_nat m\<rparr>) (n - m)"
    "cq_waiting (cq\<lparr>cq_cons := cq_cons cq + of_nat m\<rparr>) (n - m) = drop m (cq_waiting cq n)"
proof -
  have o: "cq_ring.ring_ok k (the (cq_buf cq)) (cq_cons cq) n" using assms(1) by (simp add: cq_ready_def)
  show r: "cq_ready k (cq\<lparr>cq_cons := cq_cons cq + of_nat m\<rparr>) (n - m)"
    using cq_ring.pop_many(1) [OF o assms(2)] assms(1) by (simp add: cq_ready_def)
  show "cq_waiting (cq\<lparr>cq_cons := cq_cons cq + of_nat m\<rparr>) (n - m) = drop m (cq_waiting cq n)"
    using cq_ring.pop_many(2) [OF o assms(2)] unfolding cq_waiting_entries [OF r] cq_waiting_entries [OF assms(1)] by simp
qed

lemma cq_ones_ready: "k < 32 \<Longrightarrow> cq_ring.ring_ok k (replicate (2 ^ k) cpl_ones) 0 0"
  unfolding cq_ring.ring_ok_def
proof (intro conjI allI impI)
  fix i :: nat assume k: "k < 32" and i: "i < 2 ^ k"
  have "\<not> bit (0 + of_nat i :: u32) k" unfolding bit_index [OF k] using i by simp
  moreover have "unat ((0 + of_nat i :: u32) AND mask k) < 2 ^ k" using unat_index [OF k, of 0 i] by simp
  ultimately show "(cpl_phase (replicate (2 ^ k) cpl_ones ! unat ((0 + of_nat i :: u32) AND mask k)) AND 0x80000000 \<noteq> 0)
      \<longleftrightarrow> (if i < 0 then \<not> bit (0 + of_nat i :: u32) k else bit (0 + of_nat i :: u32) k)"
    by (simp add: cpl_ones_def)
qed simp_all

lemma ready_cpls_entries:
  assumes "cq_ring.ring_ok k buf c n"
  shows "ready_cpls buf (2 ^ k) (mask k) budget c = take budget (cq_ring.ring_entries k buf c n)"
  using assms
proof (induction budget arbitrary: c n)
  case (Suc budget)
  show ?case
  proof (cases n)
    case 0
    then show ?thesis using cq_ring.ready_iff [OF Suc.prems] by (simp add: cq_ring.ring_entries_def)
  next
    case (Suc m)
    note p = cq_ring.pop_ok [OF Suc.prems [unfolded Suc]]
    have "phase_ready (cpl_phase (buf ! unat (c AND mask k))) c (2 ^ k)" using cq_ring.ready_iff [OF Suc.prems] Suc by simp
    then show ?thesis using Suc.IH [OF p(1)] p(2) Suc by simp
  qed
qed simp

lemma open_cq_ready:
  assumes "mqnic_open_cq buf cq0 eqo siz i = (None, cq, eq', i')" "roundup_pow_of_two siz = 2 ^ k" "k < 32"
  shows "cq_ready k cq 0"
proof -
  obtain cqn res where a: "mqnic_res_alloc (if_cq_res i) = (cqn, res)" by (cases "mqnic_res_alloc (if_cq_res i)")
  have "cq_size cq = 2 ^ k" "cq_mask cq = mask k" "cq_buf cq = Some (replicate (2 ^ k) cpl_ones)" "cq_cons cq = 0"
    using assms size_mask [OF assms(3)] by (auto simp: mqnic_open_cq_def a Let_def split: if_splits option.splits prod.splits)
  then show ?thesis using cq_ones_ready [OF assms(3)] by (simp add: cq_ready_def)
qed

section \<open>Example structures\<close>

definition example_cq :: mqnic_cq where
  "example_cq = \<lparr>cq_id = 1, cq_prod = 0, cq_cons = 0, cq_size = 0, cq_mask = 0, cq_stride = 0, cq_buf = None, cq_dma = 0, cq_cqn = -1, cq_eq = False,
     cq_enabled = False, cq_handler = None, cq_hw = None\<rparr>"

definition dma_init :: dma_state where
  "dma_init = \<lparr>dma_live = [], dma_bad = False, dma_freed = [], dma_next = 0, dma_synced = []\<rparr>"

definition example_cq_open :: "errno option \<times> mqnic_cq \<times> mqnic_eq option \<times> mqnic_if" where
  "example_cq_open = mqnic_open_cq (Some 0x5000) example_cq (Some example_eq) 2 example_if"

end
