(* ===== verification/Mqnic_Tx.thy ===== *)
theory Mqnic_Tx
  imports Mqnic_Ring
begin

text \<open>
  The transmit rings of the NIC driver, \<open>mqnic_tx.c\<close>: opening and closing a ring, the transmission of a socket buffer with
  its DMA mappings, and the completion of transmissions from the completion queue. The environment of the
  driver (failing allocations, mappings and checksums, and the decisions of the network stack) is a
  parameter. The last section composes the driver with the device, which writes completions.
\<close>

unbundle bit_operations_syntax

section \<open>Data\<close>

definition MQNIC_MAX_FRAGS :: nat where "MQNIC_MAX_FRAGS = 8"

text \<open>A socket buffer: the lengths of its linear part and of its fragments, and the checksum to insert, if any.\<close>

record sk_buff =
  skb_id :: nat
  skb_headlen :: u32
  skb_frags :: "u32 list"
  skb_len :: u32
  skb_data_len :: u32
  skb_csum :: "(nat \<times> nat) option"
  skb_tstamp :: bool

record mqnic_tx_info =
  ti_skb :: "nat option"
  ti_dma :: u64
  ti_len :: u32
  ti_frag_count :: nat
  ti_frags :: "(u64 \<times> u32) list"
  ti_ts :: bool

type_synonym tx_ring = "mqnic_tx_info mqnic_ring"

definition tx_info_zero :: mqnic_tx_info where
  "tx_info_zero = \<lparr>ti_skb = None, ti_dma = 0, ti_len = 0, ti_frag_count = 0, ti_frags = replicate (MQNIC_MAX_FRAGS - 1) (0, 0), ti_ts = False\<rparr>"

definition mqnic_is_tx_ring_empty :: "tx_ring \<Rightarrow> bool" where
  "mqnic_is_tx_ring_empty r \<longleftrightarrow> r_prod r = r_cons r"

definition mqnic_is_tx_ring_full :: "tx_ring \<Rightarrow> bool" where
  "mqnic_is_tx_ring_full r \<longleftrightarrow> r_prod r - r_cons r \<ge> r_full_size r"

definition mqnic_tx_read_cons_ptr :: "u32 \<Rightarrow> tx_ring \<Rightarrow> tx_ring" where
  "mqnic_tx_read_cons_ptr reg r = r\<lparr>r_cons := r_cons r + ((drop_bit 16 reg - r_cons r) AND MQNIC_QUEUE_PTR_MASK)\<rparr>"

definition mqnic_tx_write_prod_ptr :: "tx_ring \<Rightarrow> mqnic_if \<Rightarrow> mqnic_if" where
  "mqnic_tx_write_prod_ptr r i =
     if_writes (the (r_hw r)) [(MQNIC_QUEUE_CTRL_STATUS_REG, MQNIC_QUEUE_CMD_SET_PROD_PTR OR (r_prod r AND MQNIC_QUEUE_PTR_MASK))] i"

section \<open>Completion\<close>

definition mqnic_free_tx_desc :: "nat \<Rightarrow> tx_ring \<Rightarrow> dma_state \<Rightarrow> tx_ring \<times> dma_state" where
  "mqnic_free_tx_desc index r d =
     (let ti = r_info r ! index;
          d = dma_unmap (ti_dma ti, ti_len ti) d;
          d = fold dma_unmap (take (ti_frag_count ti) (ti_frags ti)) d;
          d = give_back (ti_skb ti) d
      in (r\<lparr>r_info := (r_info r)[index := ti\<lparr>ti_dma := 0, ti_skb := None\<rparr>]\<rparr>, d))"

function mqnic_free_tx_buf :: "tx_ring \<Rightarrow> dma_state \<Rightarrow> nat \<Rightarrow> nat \<times> tx_ring \<times> dma_state" where
  "mqnic_free_tx_buf r d cnt =
     (if mqnic_is_tx_ring_empty r then (cnt, r, d)
      else (let (r', d') = mqnic_free_tx_desc (unat (r_cons r AND r_size_mask r)) r d
            in mqnic_free_tx_buf (r'\<lparr>r_cons := r_cons r + 1\<rparr>) d' (Suc cnt)))"
  by pat_completeness auto
termination
  by (relation "measure (\<lambda>(r, _, _). unat (r_prod r - r_cons r))")
    (auto simp: mqnic_is_tx_ring_empty_def mqnic_free_tx_desc_def Let_def intro!: minus_one_less)

declare mqnic_free_tx_buf.simps [simp del]

text \<open>The loop over the completions; the result has the consumer pointer of the queue, the number of completions, and the time stamps that were reported.\<close>

fun tx_cq_loop :: "(u32 \<times> u32) option \<Rightarrow> mqnic_cpl list \<Rightarrow> u32 \<Rightarrow> u32 \<Rightarrow> nat \<Rightarrow> u32 \<Rightarrow> tx_ring \<Rightarrow> dma_state \<Rightarrow> nat \<Rightarrow> (u64 \<times> u32) list
    \<Rightarrow> u32 \<times> tx_ring \<times> dma_state \<times> nat \<times> (u64 \<times> u32) list" where
  "tx_cq_loop phc buf siz msk 0 cons_ptr r d n ts = (cons_ptr, r, d, n, ts)"
| "tx_cq_loop phc buf siz msk (Suc budget) cons_ptr r d n ts =
     (let cpl = buf ! unat (cons_ptr AND msk)
      in if \<not> phase_ready (cpl_phase cpl) cons_ptr siz then (cons_ptr, r, d, n, ts)
         else (let index = unat (ucast (cpl_index cpl) AND r_size_mask r);
                   (r, ts) = (if ti_ts (r_info r ! index)
                              then (let (t, r) = mqnic_read_cpl_ts phc cpl r in (r, ts @ [t])) else (r, ts));
                   (r, d) = mqnic_free_tx_desc index r d
               in tx_cq_loop phc buf siz msk budget (cons_ptr + 1) r d (Suc n) ts))"

definition mqnic_process_tx_cq :: "bool \<Rightarrow> (u32 \<times> u32) option \<Rightarrow> nat \<Rightarrow> mqnic_cq \<Rightarrow> tx_ring \<Rightarrow> dma_state \<Rightarrow> mqnic_if
    \<Rightarrow> nat \<times> mqnic_cq \<times> tx_ring \<times> dma_state \<times> mqnic_if \<times> (u64 \<times> u32) list" where
  "mqnic_process_tx_cq port_up phc budget cq r d i =
     (if \<not> r_priv r \<or> \<not> port_up then (0, cq, r, d, i, [])
      else (let (cons_ptr, r, d, n, ts) = tx_cq_loop phc (the (cq_buf cq)) (cq_size cq) (cq_mask cq) budget (cq_cons cq) r d 0 [];
                cq = cq\<lparr>cq_cons := cons_ptr\<rparr>;
                i = mqnic_cq_write_cons_ptr cq i;
                r = r\<lparr>r_cons := ring_advance (\<lambda>ti. ti_skb ti \<noteq> None) (r_info r) (r_size_mask r) (r_prod r) (r_cons r)\<rparr>;
                r = (if r_stopped r \<and> \<not> mqnic_is_tx_ring_full r then r\<lparr>r_stopped := False\<rparr> else r)
            in (n, cq, r, d, i, ts)))"

text \<open>The poll function of the kernel; the flag tells whether polling is complete.\<close>

definition mqnic_poll_tx_cq :: "bool \<Rightarrow> (u32 \<times> u32) option \<Rightarrow> nat \<Rightarrow> mqnic_cq \<Rightarrow> tx_ring \<Rightarrow> dma_state \<Rightarrow> mqnic_if
    \<Rightarrow> nat \<times> bool \<times> mqnic_cq \<times> tx_ring \<times> dma_state \<times> mqnic_if \<times> (u64 \<times> u32) list" where
  "mqnic_poll_tx_cq port_up phc budget cq r d i =
     (let (n, cq, r, d, i, ts) = mqnic_process_tx_cq port_up phc budget cq r d i
      in if n = budget then (n, False, cq, r, d, i, ts)
         else (n, True, cq, r, d, mqnic_arm_cq cq i, ts))"

section \<open>Opening and closing\<close>

definition mqnic_create_tx_ring :: "bool \<Rightarrow> errno + tx_ring" where
  "mqnic_create_tx_ring alloc_ok =
     (if \<not> alloc_ok then Inl ENOMEM
      else Inr (queue_init\<lparr>r_index := -1, r_enabled := False, r_hw := None, r_prod := 0, r_cons := 0\<rparr>))"

definition mqnic_enable_tx_ring :: "tx_ring \<Rightarrow> mqnic_if \<Rightarrow> errno option \<times> tx_ring \<times> mqnic_if" where
  "mqnic_enable_tx_ring r i =
     (case r_hw r of
        None \<Rightarrow> (Some EINVAL, r, i)
      | Some hw \<Rightarrow> (None, r\<lparr>r_enabled := True\<rparr>, if_writes hw [(MQNIC_QUEUE_CTRL_STATUS_REG, MQNIC_QUEUE_CMD_SET_ENABLE OR 1)] i))"

definition mqnic_disable_tx_ring :: "tx_ring \<Rightarrow> mqnic_if \<Rightarrow> tx_ring \<times> mqnic_if" where
  "mqnic_disable_tx_ring r i =
     (r\<lparr>r_enabled := False\<rparr>,
      case r_hw r of None \<Rightarrow> i | Some hw \<Rightarrow> if_writes hw [(MQNIC_QUEUE_CTRL_STATUS_REG, MQNIC_QUEUE_CMD_SET_ENABLE OR 0)] i)"

definition mqnic_close_tx_ring :: "tx_ring \<Rightarrow> mqnic_cq \<Rightarrow> dma_state \<Rightarrow> mqnic_if \<Rightarrow> tx_ring \<times> mqnic_cq \<times> dma_state \<times> mqnic_if" where
  "mqnic_close_tx_ring r cq d i =
     (let (r, i) = mqnic_disable_tx_ring r i;
          cq = (if r_cq r \<noteq> None then cq\<lparr>cq_handler := None\<rparr> else cq);
          r = r\<lparr>r_priv := False, r_cq := None, r_hw := None\<rparr>;
          (r, d, i) = (case r_buf r of
                         None \<Rightarrow> (r, d, i)
                       | Some _ \<Rightarrow> (let (_, r', d') = mqnic_free_tx_buf r d 0
                                    in (r'\<lparr>r_buf := None, r_dma := 0\<rparr>, d', i\<lparr>if_bufs := remove1 (r_dma r) (if_bufs i)\<rparr>)));
          r = r\<lparr>r_info := []\<rparr>;
          i = i\<lparr>if_txq_res := mqnic_res_free (if_txq_res i) (r_index r)\<rparr>
      in (r\<lparr>r_index := -1\<rparr>, cq, d, i))"

text \<open>\<open>info_ok\<close> and \<open>buf\<close> are the results of the two allocations.\<close>

definition mqnic_open_tx_ring :: "bool \<Rightarrow> u64 option \<Rightarrow> tx_ring \<Rightarrow> bool \<Rightarrow> mqnic_cq option \<Rightarrow> nat \<Rightarrow> nat \<Rightarrow> dma_state \<Rightarrow> mqnic_if
    \<Rightarrow> errno option \<times> tx_ring \<times> mqnic_cq option \<times> dma_state \<times> mqnic_if" where
  "mqnic_open_tx_ring info_ok buf r priv cqo siz blk d i =
     (case cqo of
        None \<Rightarrow> (Some EINVAL, r, None, d, i)
      | Some cq \<Rightarrow>
          if r_enabled r \<or> r_hw r \<noteq> None \<or> r_buf r \<noteq> None \<or> \<not> priv then (Some EINVAL, r, Some cq, d, i)
          else let (index, res) = mqnic_res_alloc (if_txq_res i);
                   r = r\<lparr>r_index := index\<rparr>;
                   i = i\<lparr>if_txq_res := res\<rparr>
               in if index < 0 then (Some ENOMEM, r, Some cq, d, i)
                  else let r = ring_sizes siz blk r;
                           fail = (\<lambda>r. let (r, cq, d, i) = mqnic_close_tx_ring r cq d i in (Some ENOMEM, r, Some cq, d, i))
                       in if \<not> info_ok then fail r
                          else let r = r\<lparr>r_info := replicate (unat (r_size r)) tx_info_zero\<rparr>
                               in case buf of
                                    None \<Rightarrow> fail r
                                  | Some dma \<Rightarrow>
                                      let r = r\<lparr>r_buf := Some (replicate (unat (r_size r)) (replicate (r_block r) \<lparr>d_csum = 0, d_len = 0, d_addr = 0\<rparr>)),
                                                r_dma := dma, r_priv := True, r_cq := Some (cq_id cq)\<rparr>;
                                          i = i\<lparr>if_bufs := dma # if_bufs i\<rparr>;
                                          cq = cq\<lparr>cq_handler := Some mqnic_tx_irq\<rparr>;
                                          hw = the (mqnic_res_get_addr (if_txq_res i) index);
                                          r = r\<lparr>r_hw := Some hw, r_prod := 0, r_cons := 0\<rparr>;
                                          i = if_writes hw (queue_setup r (cq_cqn cq)) i
                                      in (None, r, Some cq, d, i))"

definition mqnic_destroy_tx_ring :: "tx_ring \<Rightarrow> mqnic_cq \<Rightarrow> dma_state \<Rightarrow> mqnic_if \<Rightarrow> mqnic_cq \<times> dma_state \<times> mqnic_if" where
  "mqnic_destroy_tx_ring r cq d i = snd (mqnic_close_tx_ring r cq d i)"

section \<open>Transmission\<close>

text \<open>\<open>maps j\<close> is the result of the \<open>j\<close>-th mapping: the fragments in their order, then the linear part.\<close>

fun map_frags :: "(nat \<Rightarrow> u64 option) \<Rightarrow> nat \<Rightarrow> u32 list \<Rightarrow> mqnic_tx_info \<Rightarrow> mqnic_desc list \<Rightarrow> dma_state
    \<Rightarrow> bool \<times> mqnic_tx_info \<times> mqnic_desc list \<times> dma_state" where
  "map_frags maps i [] ti ds d = (True, ti, ds, d)"
| "map_frags maps i (len # lens) ti ds d =
     (case maps i of
        None \<Rightarrow> (False, ti, ds, d)
      | Some a \<Rightarrow>
          map_frags maps (Suc i) lens (ti\<lparr>ti_frag_count := Suc i, ti_frags := (ti_frags ti)[i := (a, len)]\<rparr>)
            (ds[Suc i := (ds ! Suc i)\<lparr>d_len := len, d_addr := a\<rparr>]) (dma_map (a, len) d))"

definition clear_descs :: "nat \<Rightarrow> nat \<Rightarrow> mqnic_desc list \<Rightarrow> mqnic_desc list" where
  "clear_descs i n ds = fold (\<lambda>j ds. ds[Suc j := (ds ! Suc j)\<lparr>d_len := 0, d_addr := 0\<rparr>]) [i..<n] ds"

definition mqnic_map_skb :: "(nat \<Rightarrow> u64 option) \<Rightarrow> nat \<Rightarrow> sk_buff \<Rightarrow> mqnic_tx_info \<Rightarrow> mqnic_desc list \<Rightarrow> dma_state
    \<Rightarrow> bool \<times> mqnic_tx_info \<times> mqnic_desc list \<times> dma_state" where
  "mqnic_map_skb maps block skb ti ds d =
     (let fail = (\<lambda>ti ds d. (False, ti\<lparr>ti_skb := None, ti_frag_count := 0\<rparr>, ds, fold dma_unmap (take (ti_frag_count ti) (ti_frags ti)) d));
          (ok, ti, ds, d) = map_frags maps 0 (skb_frags skb) (ti\<lparr>ti_skb := Some (skb_id skb), ti_frag_count := 0\<rparr>) ds d
      in if \<not> ok then fail ti ds d
         else (let ds = clear_descs (ti_frag_count ti) (block - 1) ds;
                   len = skb_headlen skb
               in case maps (length (skb_frags skb)) of
                    None \<Rightarrow> fail ti ds d
                  | Some a \<Rightarrow> (True, ti\<lparr>ti_dma := a, ti_len := len\<rparr>, ds[0 := (ds ! 0)\<lparr>d_len := len, d_addr := a\<rparr>],
                               dma_map (a, len) d)))"

text \<open>
  The environment of a transmission: whether the port is up, the queue known and time stamps supported, whether the software checksum and the
  linearisation succeed, the mappings, and whether the stack announces more packets.
\<close>

record xmit_env =
  x_port_up :: bool
  x_ring :: bool
  x_ptp :: bool
  x_csum_help :: bool
  x_linearize :: bool
  x_maps :: "nat \<Rightarrow> u64 option"
  x_more :: bool

definition skb_linearize :: "sk_buff \<Rightarrow> sk_buff" where
  "skb_linearize skb = skb\<lparr>skb_headlen := skb_len skb, skb_frags := [], skb_data_len := 0\<rparr>"

text \<open>The checksum command of the descriptor, \<open>None\<close> when the software checksum fails.\<close>

definition tx_csum_cmd :: "xmit_env \<Rightarrow> sk_buff \<Rightarrow> u16 option" where
  "tx_csum_cmd env skb =
     (case skb_csum skb of
        None \<Rightarrow> Some 0
      | Some (csum_start, csum_offset) \<Rightarrow>
          if csum_start > 255 \<or> csum_offset > 127 then (if x_csum_help env then Some 0 else None)
          else Some (0x8000 OR push_bit 8 (of_nat csum_offset) OR of_nat csum_start))"

definition mqnic_start_xmit :: "xmit_env \<Rightarrow> sk_buff \<Rightarrow> tx_ring \<Rightarrow> dma_state \<Rightarrow> mqnic_if \<Rightarrow> tx_ring \<times> dma_state \<times> mqnic_if" where
  "mqnic_start_xmit env skb r d i =
     (let drop = (\<lambda>r d. (r, give_back (Some (skb_id skb)) d, i));
          drop_count = (\<lambda>r d. drop (r\<lparr>r_dropped := r_dropped r + 1\<rparr>) d)
      in if \<not> x_port_up env \<or> \<not> x_ring env then drop r d
         else
           let index = unat (r_prod r AND r_size_mask r);
               ds = the (r_buf r) ! index;
               ti = (r_info r ! index)\<lparr>ti_ts := x_ptp env \<and> skb_tstamp skb\<rparr>;
               r = r\<lparr>r_info := (r_info r)[index := ti]\<rparr>
           in case tx_csum_cmd env skb of
                None \<Rightarrow> drop_count r d
              | Some c \<Rightarrow>
                  let ds = ds[0 := (ds ! 0)\<lparr>d_csum := c\<rparr>];
                      r = r\<lparr>r_buf := Some ((the (r_buf r))[index := ds])\<rparr>;
                      linear = (length (skb_frags skb) > r_block r - 1 \<or> skb_data_len skb \<noteq> 0 \<and> skb_data_len skb < 32)
                  in if linear \<and> \<not> x_linearize env then drop_count r d
                     else
                       let skb = (if linear then skb_linearize skb else skb);
                           (ok, ti, ds, d) = mqnic_map_skb (x_maps env) (r_block r) skb ti ds d;
                           r = r\<lparr>r_info := (r_info r)[index := ti], r_buf := Some ((the (r_buf r))[index := ds])\<rparr>
                       in if \<not> ok then drop_count r d
                          else
                            let r = r\<lparr>r_packets := r_packets r + 1, r_bytes := r_bytes r + ucast (skb_len skb), r_prod := r_prod r + 1\<rparr>;
                                stop_queue = mqnic_is_tx_ring_full r;
                                r = (if stop_queue then r\<lparr>r_stopped := True\<rparr> else r);
                                i = (if \<not> x_more env \<or> stop_queue then mqnic_tx_write_prod_ptr r i else i);
                                r = (if stop_queue \<and> \<not> mqnic_is_tx_ring_full r then r\<lparr>r_stopped := False\<rparr> else r)
                            in (r, d, i))"

section \<open>Mapping a socket buffer\<close>

definition tx_occ :: "mqnic_tx_info \<Rightarrow> bool" where
  "tx_occ ti \<longleftrightarrow> ti_skb ti \<noteq> None"

definition tx_frags :: "mqnic_tx_info \<Rightarrow> (u64 \<times> u32) list" where
  "tx_frags ti = take (ti_frag_count ti) (ti_frags ti)"

definition tx_maps :: "mqnic_tx_info \<Rightarrow> (u64 \<times> u32) list" where
  "tx_maps ti = (ti_dma ti, ti_len ti) # tx_frags ti"

interpretation tx_slots: slot_ring tx_occ tx_maps
  by unfold_locales (simp add: tx_maps_def)

definition desc_view :: "mqnic_desc list \<Rightarrow> (u64 \<times> u32) list" where
  "desc_view ds = map (\<lambda>e. (d_addr e, d_len e)) ds"

lemma length_desc_view [simp]: "length (desc_view ds) = length ds"
  by (simp add: desc_view_def)

lemma desc_view_set: "j < length ds \<Longrightarrow> desc_view (ds[j := (ds ! j)\<lparr>d_len := l, d_addr := a\<rparr>]) = (desc_view ds)[j := (a, l)]"
  by (simp add: desc_view_def map_update)

lemma tl_update_Suc: "tl (xs[Suc i := x]) = (tl xs)[i := x]"
  by (cases xs) simp_all

lemma update_head: "xs \<noteq> [] \<Longrightarrow> xs[0 := x] = x # tl xs"
  by (cases xs) simp_all

lemma take_Suc_update: "i < length xs \<Longrightarrow> take (Suc i) (xs[i := x]) = take i xs @ [x]"
  by (simp add: take_Suc_conv_app_nth)

lemma map_frags_spec:
  assumes "map_frags maps i lens ti ds d = (ok, ti', ds', d')" "ti_frag_count ti = i"
    and "i + length lens < length ds" "i + length lens \<le> length (ti_frags ti)"
    and "mset (dma_live d) = L + mset (tx_frags ti)" "take i (tl (desc_view ds)) = tx_frags ti"
  shows "mset (dma_live d') = L + mset (tx_frags ti')" "take (ti_frag_count ti') (tl (desc_view ds')) = tx_frags ti'"
    "length ds' = length ds" "length (ti_frags ti') = length (ti_frags ti)" "ti_skb ti' = ti_skb ti"
    "dma_bad d' = dma_bad d" "dma_freed d' = dma_freed d" "dma_next d' = dma_next d" "ti_frag_count ti' \<le> i + length lens"
    "ok \<Longrightarrow> map snd (tx_frags ti') = map snd (tx_frags ti) @ lens"
    "d_csum (ds' ! 0) = d_csum (ds ! 0)" "ok \<Longrightarrow> ti_frag_count ti' = i + length lens"
proof -
  have "mset (dma_live d') = L + mset (tx_frags ti') \<and> take (ti_frag_count ti') (tl (desc_view ds')) = tx_frags ti' \<and>
    length ds' = length ds \<and> length (ti_frags ti') = length (ti_frags ti) \<and> ti_skb ti' = ti_skb ti \<and>
    dma_bad d' = dma_bad d \<and> dma_freed d' = dma_freed d \<and> dma_next d' = dma_next d \<and> ti_frag_count ti' \<le> i + length lens \<and>
    (ok \<longrightarrow> map snd (tx_frags ti') = map snd (tx_frags ti) @ lens) \<and> d_csum (ds' ! 0) = d_csum (ds ! 0)
    \<and> (ok \<longrightarrow> ti_frag_count ti' = i + length lens)"
    using assms
  proof (induction lens arbitrary: i ti ds d)
    case (Cons len lens)
    show ?case
    proof (cases "maps i")
      case None
      then show ?thesis using Cons.prems by auto
    next
      case (Some a)
      let ?ti = "ti\<lparr>ti_frag_count := Suc i, ti_frags := (ti_frags ti)[i := (a, len)]\<rparr>"
      let ?ds = "ds[Suc i := (ds ! Suc i)\<lparr>d_len := len, d_addr := a\<rparr>]"
      have f: "tx_frags ?ti = tx_frags ti @ [(a, len)]" using Cons.prems(2,4) by (simp add: tx_frags_def take_Suc_update)
      have v: "take (Suc i) (tl (desc_view ?ds)) = tx_frags ?ti"
        using Cons.prems(3,6) f by (simp add: desc_view_set tl_update_Suc take_Suc_update)
      have e: "map_frags maps (Suc i) lens ?ti ?ds (dma_map (a, len) d) = (ok, ti', ds', d')" using Cons.prems(1) Some by simp
      have l: "mset (dma_live (dma_map (a, len) d)) = L + mset (tx_frags ?ti)" using Cons.prems(5) f by (simp add: dma_map_def)
      show ?thesis using Cons.IH [OF e _ _ _ l v] Cons.prems(3,4) f by (simp add: dma_map_def)
    qed
  qed auto
  then show "mset (dma_live d') = L + mset (tx_frags ti')" "take (ti_frag_count ti') (tl (desc_view ds')) = tx_frags ti'"
    "length ds' = length ds" "length (ti_frags ti') = length (ti_frags ti)" "ti_skb ti' = ti_skb ti"
    "dma_bad d' = dma_bad d" "dma_freed d' = dma_freed d" "dma_next d' = dma_next d" "ti_frag_count ti' \<le> i + length lens"
    "ok \<Longrightarrow> map snd (tx_frags ti') = map snd (tx_frags ti) @ lens"
    "d_csum (ds' ! 0) = d_csum (ds ! 0)" "ok \<Longrightarrow> ti_frag_count ti' = i + length lens" by simp_all
qed

lemma clear_descs_spec:
  assumes "n < length ds"
  shows "length (clear_descs i n ds) = length ds" "d_csum (clear_descs i n ds ! 0) = d_csum (ds ! 0)"
    "i \<le> n \<Longrightarrow> take n (tl (desc_view (clear_descs i n ds))) = take i (tl (desc_view ds)) @ replicate (n - i) (0, 0)"
proof -
  have "length (clear_descs i n ds) = length ds \<and> d_csum (clear_descs i n ds ! 0) = d_csum (ds ! 0) \<and>
    (i \<le> n \<longrightarrow> take n (tl (desc_view (clear_descs i n ds))) = take i (tl (desc_view ds)) @ replicate (n - i) (0, 0))"
    using assms
  proof (induction n)
    case (Suc n)
    let ?c = "clear_descs i n ds"
    have IH: "length ?c = length ds" "d_csum (?c ! 0) = d_csum (ds ! 0)"
      "i \<le> n \<Longrightarrow> take n (tl (desc_view ?c)) = take i (tl (desc_view ds)) @ replicate (n - i) (0, 0)" using Suc by auto
    show ?case
    proof (cases "i \<le> n")
      case True
      then have c: "clear_descs i (Suc n) ds = ?c[Suc n := (?c ! Suc n)\<lparr>d_len := 0, d_addr := 0\<rparr>]" by (simp add: clear_descs_def)
      have "take (Suc n) (tl (desc_view (clear_descs i (Suc n) ds))) = take n (tl (desc_view ?c)) @ [(0, 0)]"
        using Suc.prems IH(1) by (simp add: c desc_view_set tl_update_Suc take_Suc_update)
      then show ?thesis using IH(1,2) IH(3) [OF True] True by (simp add: c Suc_diff_le replicate_append_same)
    next
      case False
      then have "[i..<Suc n] = []" by simp
      then show ?thesis using False by (auto simp: clear_descs_def le_Suc_eq)
    qed
  qed (auto simp: clear_descs_def)
  then show "length (clear_descs i n ds) = length ds" "d_csum (clear_descs i n ds ! 0) = d_csum (ds ! 0)"
    "i \<le> n \<Longrightarrow> take n (tl (desc_view (clear_descs i n ds))) = take i (tl (desc_view ds)) @ replicate (n - i) (0, 0)" by simp_all
qed

text \<open>
  A mapped socket buffer has one new mapping per fragment and one for its linear part, and the descriptors name exactly these, the rest of the
  block being zero. When a mapping fails, the mappings that were made are gone.
\<close>

lemma map_skb_spec:
  assumes map: "mqnic_map_skb maps block skb ti ds d = (ok, ti', ds', d')"
    and "length (skb_frags skb) < length ds" "length (skb_frags skb) \<le> length (ti_frags ti)" and block: "length ds = block"
  shows "ok \<Longrightarrow> mset (dma_live d') = mset (dma_live d) + mset (tx_maps ti')" "\<not> ok \<Longrightarrow> mset (dma_live d') = mset (dma_live d)"
    "dma_bad d' = dma_bad d" "dma_freed d' = dma_freed d" "dma_next d' = dma_next d"
    "ti_skb ti' = (if ok then Some (skb_id skb) else None)"
    "length ds' = length ds" "length (ti_frags ti') = length (ti_frags ti)" "ti_frag_count ti' \<le> length (ti_frags ti')"
    "ok \<Longrightarrow> desc_view ds' = tx_maps ti' @ replicate (length ds - 1 - ti_frag_count ti') (0, 0)"
    "ok \<Longrightarrow> map snd (tx_maps ti') = skb_headlen skb # skb_frags skb"
    "d_csum (ds' ! 0) = d_csum (ds ! 0)"
proof -
  let ?ti = "ti\<lparr>ti_skb := Some (skb_id skb), ti_frag_count := 0\<rparr>"
  obtain ok1 ti1 ds1 d1 where m: "map_frags maps 0 (skb_frags skb) ?ti ds d = (ok1, ti1, ds1, d1)"
    by (cases "map_frags maps 0 (skb_frags skb) ?ti ds d")
  have z: "tx_frags ?ti = []" by (simp add: tx_frags_def)
  have s: "mset (dma_live d) = mset (dma_live d) + mset (tx_frags ?ti)" "take 0 (tl (desc_view ds)) = tx_frags ?ti" by (simp_all add: z)
  note f = map_frags_spec [OF m _ _ _ s, simplified, OF assms(2,3)]
  have sub: "mset (tx_frags ti1) \<subseteq># mset (dma_live d1)" using f(1) by simp
  note u = unmap_live [OF sub]
  let ?ds = "clear_descs (ti_frag_count ti1) (length ds - 1) ds1"
  have n: "length ds - 1 < length ds1" using f(3) assms(2) by simp
  note c = clear_descs_spec [OF n, of "ti_frag_count ti1"]
  have fc: "ti_frag_count ti1 \<le> length ds - 1" using f(9) assms(2) by simp
  define b where "b \<longleftrightarrow> ok1 \<and> maps (length (skb_frags skb)) \<noteq> None"
  have "(ok \<longrightarrow> mset (dma_live d') = mset (dma_live d) + mset (tx_maps ti')) \<and> (\<not> ok \<longrightarrow> mset (dma_live d') = mset (dma_live d)) \<and>
    dma_bad d' = dma_bad d \<and> dma_freed d' = dma_freed d \<and> dma_next d' = dma_next d \<and> ti_skb ti' = (if ok then Some (skb_id skb) else None) \<and>
    length ds' = length ds \<and> length (ti_frags ti') = length (ti_frags ti) \<and> ti_frag_count ti' \<le> length (ti_frags ti') \<and>
    (ok \<longrightarrow> desc_view ds' = tx_maps ti' @ replicate (length ds - 1 - ti_frag_count ti') (0, 0)) \<and>
    (ok \<longrightarrow> map snd (tx_maps ti') = skb_headlen skb # skb_frags skb) \<and> d_csum (ds' ! 0) = d_csum (ds ! 0)"
  proof (cases b)
    case True
    then obtain a where a: "ok1" "maps (length (skb_frags skb)) = Some a" by (auto simp: b_def)
    have r: "ok" "ti' = ti1\<lparr>ti_dma := a, ti_len := skb_headlen skb\<rparr>" "ds' = ?ds[0 := (?ds ! 0)\<lparr>d_len := skb_headlen skb, d_addr := a\<rparr>]"
      "d' = dma_map (a, skb_headlen skb) d1" using map [unfolded block [symmetric]] a m by (auto simp: mqnic_map_skb_def Let_def)
    have t: "tx_maps ti' = (a, skb_headlen skb) # tx_frags ti1" by (simp add: r tx_maps_def tx_frags_def)
    have l0: "0 < length ?ds" "length ?ds = length ds" using c(1) f(3) assms(2) by auto
    have "tl (desc_view ?ds) = take (length ds - 1) (tl (desc_view ?ds))" using l0 by simp
    then have "tl (desc_view ?ds) = tx_frags ti1 @ replicate (length ds - 1 - ti_frag_count ti1) (0, 0)" using c(3) [OF fc] f(2) by simp
    moreover have "desc_view ds' = (a, skb_headlen skb) # tl (desc_view ?ds)"
      using l0(1) update_head [of "desc_view ?ds"] unfolding r(3) desc_view_set [OF l0(1)] by (simp add: desc_view_def)
    ultimately have "desc_view ds' = tx_maps ti' @ replicate (length ds - 1 - ti_frag_count ti') (0, 0)" using t r(2) by simp
    moreover have "d_csum (ds' ! 0) = d_csum (?ds ! 0)" using l0(1) by (simp add: r(3) nth_list_update)
    ultimately show ?thesis using r f c l0 t z assms(3) a(1) by (simp add: dma_map_def)
  next
    case False
    then have r: "\<not> ok" "ti' = ti1\<lparr>ti_skb := None, ti_frag_count := 0\<rparr>" "ds' = (if ok1 then ?ds else ds1)"
      "d' = fold dma_unmap (tx_frags ti1) d1"
      using map [unfolded block [symmetric]] m by (auto simp: mqnic_map_skb_def b_def Let_def tx_frags_def split: if_splits option.splits)
    then show ?thesis using r f c u by (cases ok1) simp_all
  qed
  then show "ok \<Longrightarrow> mset (dma_live d') = mset (dma_live d) + mset (tx_maps ti')" "\<not> ok \<Longrightarrow> mset (dma_live d') = mset (dma_live d)"
    "dma_bad d' = dma_bad d" "dma_freed d' = dma_freed d" "dma_next d' = dma_next d"
    "ti_skb ti' = (if ok then Some (skb_id skb) else None)"
    "length ds' = length ds" "length (ti_frags ti') = length (ti_frags ti)" "ti_frag_count ti' \<le> length (ti_frags ti')"
    "ok \<Longrightarrow> desc_view ds' = tx_maps ti' @ replicate (length ds - 1 - ti_frag_count ti') (0, 0)"
    "ok \<Longrightarrow> map snd (tx_maps ti') = skb_headlen skb # skb_frags skb"
    "d_csum (ds' ! 0) = d_csum (ds ! 0)" by blast+
qed

section \<open>The invariant of a ring\<close>

text \<open>
  An open ring of \<open>2 ^ k\<close> slots: the shape of its arrays, the window, the mappings, room when the queue is not stopped, and
  the descriptors of the slots in flight. \<open>sub\<close> are the socket buffers that were handed to the driver.
\<close>

definition tx_shape :: "nat \<Rightarrow> tx_ring \<Rightarrow> bool" where
  "tx_shape k r \<longleftrightarrow> r_size r = 2 ^ k \<and> r_size_mask r = mask k \<and> r_full_size r = drop_bit 1 (2 ^ k) \<and> 0 < r_block r \<and> r_block r \<le> MQNIC_MAX_FRAGS
     \<and> (\<exists>buf. r_buf r = Some buf \<and> length buf = 2 ^ k \<and> (\<forall>ds\<in>set buf. length ds = r_block r))
     \<and> (\<forall>ti\<in>set (r_info r). length (ti_frags ti) = MQNIC_MAX_FRAGS - 1 \<and> ti_frag_count ti \<le> MQNIC_MAX_FRAGS - 1)"

definition slot_desc :: "tx_ring \<Rightarrow> nat \<Rightarrow> bool" where
  "slot_desc r j \<longleftrightarrow> desc_view (the (r_buf r) ! j) = tx_maps (r_info r ! j) @ replicate (r_block r - 1 - ti_frag_count (r_info r ! j)) (0, 0)"

definition tx_ring_ok :: "nat \<Rightarrow> tx_ring \<Rightarrow> dma_state \<Rightarrow> nat list \<Rightarrow> bool" where
  "tx_ring_ok k r d sub \<longleftrightarrow> tx_shape k r \<and> tx_slots.window_ok k (r_info r) (r_prod r) (r_cons r) \<and> tx_slots.dma_ok (r_info r) d
     \<and> (\<not> r_stopped r \<longrightarrow> unat (r_prod r - r_cons r) < 2 ^ k)
     \<and> (\<forall>j < 2 ^ k. tx_occ (r_info r ! j) \<longrightarrow> slot_desc r j)
     \<and> mset sub = mset (dma_freed d) + tx_slots.held (\<lambda>ti. [the (ti_skb ti)]) (r_info r)"

lemma tx_ring_okD:
  assumes "tx_ring_ok k r d sub"
  shows "tx_shape k r" "tx_slots.window_ok k (r_info r) (r_prod r) (r_cons r)" "tx_slots.dma_ok (r_info r) d"
    "\<not> r_stopped r \<Longrightarrow> unat (r_prod r - r_cons r) < 2 ^ k" "\<And>j. j < 2 ^ k \<Longrightarrow> tx_occ (r_info r ! j) \<Longrightarrow> slot_desc r j"
    "mset sub = mset (dma_freed d) + tx_slots.held (\<lambda>ti. [the (ti_skb ti)]) (r_info r)"
    "length (r_info r) = 2 ^ k"
  using assms by (auto simp: tx_ring_ok_def tx_slots.window_ok_def)

lemma free_tx_desc_ok:
  assumes "tx_ring_ok k r d sub" "j < 2 ^ k" "tx_occ (r_info r ! j)" "mqnic_free_tx_desc j r d = (r', d')"
  shows "tx_ring_ok k r' d' sub" "r' = r\<lparr>r_info := (r_info r)[j := (r_info r ! j)\<lparr>ti_dma := 0, ti_skb := None\<rparr>]\<rparr>"
proof -
  note i = tx_ring_okD [OF assms(1)]
  let ?x = "(r_info r ! j)\<lparr>ti_dma := 0, ti_skb := None\<rparr>"
  show r: "r' = r\<lparr>r_info := (r_info r)[j := ?x]\<rparr>" using assms(4) by (simp add: mqnic_free_tx_desc_def Let_def)
  have d: "d' = give_back (ti_skb (r_info r ! j)) (fold dma_unmap (tx_maps (r_info r ! j)) d)"
    using assms(4) by (simp add: mqnic_free_tx_desc_def Let_def tx_maps_def tx_frags_def)
  have j: "j < length (r_info r)" and x: "\<not> tx_occ ?x" using assms(2) i(7) by (simp_all add: tx_occ_def)
  note f = tx_slots.dma_free [OF i(3) j assms(3) x]
  have "tx_shape k r'" using i(1) j nth_mem [OF j] by (auto simp: tx_shape_def r dest!: set_update_subset_insert [THEN subsetD])
  moreover have "tx_slots.window_ok k (r_info r') (r_prod r') (r_cons r')" using tx_slots.window_clear [OF i(2) x] by (simp add: r)
  moreover have "tx_slots.dma_ok (r_info r') d'" using f(1) by (simp add: r d tx_slots.dma_ok_def give_back_def)
  moreover have "slot_desc r' l" if "l < 2 ^ k" "tx_occ (r_info r' ! l)" for l
    using that x j i(5) [OF that(1)] by (cases "l = j") (auto simp: r slot_desc_def)
  moreover have "mset sub = mset (dma_freed d') + tx_slots.held (\<lambda>ti. [the (ti_skb ti)]) (r_info r')"
    using i(6) f(2) f(4) [of "\<lambda>ti. [the (ti_skb ti)]"] assms(3) by (auto simp: r d give_back_def tx_occ_def)
  ultimately show "tx_ring_ok k r' d' sub" using i(4) by (simp add: tx_ring_ok_def r)
qed

section \<open>Transmission keeps the invariant\<close>

text \<open>The two ways a transmission ends, for a ring whose next slot is free.\<close>

lemma start_xmit_cases:
  assumes "tx_shape k r" "j = unat (r_prod r AND mask k)" "j < length (r_info r)" "\<not> tx_occ (r_info r ! j)"
    and "mqnic_start_xmit env skb r d i = (r', d', i')"
  obtains (dropped) ti ds n where "r' = r\<lparr>r_info := (r_info r)[j := ti], r_buf := Some ((the (r_buf r))[j := ds]), r_dropped := n\<rparr>"
      "\<not> tx_occ ti" "length ds = r_block r" "length (ti_frags ti) = MQNIC_MAX_FRAGS - 1" "ti_frag_count ti \<le> MQNIC_MAX_FRAGS - 1"
      "mset (dma_live d') = mset (dma_live d)" "dma_bad d' = dma_bad d" "dma_freed d' = dma_freed d @ [skb_id skb]"
    | (sent) ti ds packets bytes where "r' = r\<lparr>r_info := (r_info r)[j := ti], r_buf := Some ((the (r_buf r))[j := ds]), r_packets := packets,
        r_bytes := bytes, r_prod := r_prod r + 1, r_stopped := r_stopped r \<or> r_prod r + 1 - r_cons r \<ge> r_full_size r\<rparr>"
      "ti_skb ti = Some (skb_id skb)" "length ds = r_block r" "length (ti_frags ti) = MQNIC_MAX_FRAGS - 1" "ti_frag_count ti \<le> MQNIC_MAX_FRAGS - 1"
      "mset (dma_live d') = mset (dma_live d) + mset (tx_maps ti)" "dma_bad d' = dma_bad d" "dma_freed d' = dma_freed d"
      "desc_view ds = tx_maps ti @ replicate (r_block r - 1 - ti_frag_count ti) (0, 0)"
proof -
  let ?ti = "(r_info r ! j)\<lparr>ti_ts := x_ptp env \<and> skb_tstamp skb\<rparr>"
  let ?linear = "length (skb_frags skb) > r_block r - 1 \<or> skb_data_len skb \<noteq> 0 \<and> skb_data_len skb < 32"
  let ?skb = "if ?linear then skb_linearize skb else skb"
  obtain buf where b: "r_buf r = Some buf" "length buf = 2 ^ k" "\<And>ds. ds \<in> set buf \<Longrightarrow> length ds = r_block r"
    using assms(1) by (auto simp: tx_shape_def)
  have msk: "r_size_mask r = mask k" and blk: "0 < r_block r" "r_block r \<le> MQNIC_MAX_FRAGS" using assms(1) by (simp_all add: tx_shape_def)
  have jl: "j < 2 ^ k" unfolding assms(2) by (simp add: unat_and_mask)
  then have lb: "length (buf ! j) = r_block r" using b(2) by (intro b(3)) simp
  have ti: "length (ti_frags (r_info r ! j)) = MQNIC_MAX_FRAGS - 1" "ti_frag_count (r_info r ! j) \<le> MQNIC_MAX_FRAGS - 1"
    using assms(1) nth_mem [OF assms(3)] by (auto simp: tx_shape_def)
  have free: "ti_skb (r_info r ! j) = None" using assms(4) by (simp add: tx_occ_def)
  consider (down) "\<not> x_port_up env \<or> \<not> x_ring env" | (csum) "x_port_up env" "x_ring env" "tx_csum_cmd env skb = None"
    | (lin) c where "x_port_up env" "x_ring env" "tx_csum_cmd env skb = Some c" "?linear" "\<not> x_linearize env"
    | (mapped) c where "x_port_up env" "x_ring env" "tx_csum_cmd env skb = Some c" "\<not> (?linear \<and> \<not> x_linearize env)" by blast
  then show thesis
  proof cases
    case down
    then have "r' = r" "d' = give_back (Some (skb_id skb)) d" using assms(5) by (auto simp: mqnic_start_xmit_def Let_def)
    then show thesis
      using b lb ti free by (intro dropped [where ti = "r_info r ! j" and ds = "buf ! j" and n = "r_dropped r"]) (simp_all add: give_back_def tx_occ_def)
  next
    case csum
    then have "r' = r\<lparr>r_info := (r_info r)[j := ?ti], r_dropped := r_dropped r + 1\<rparr>" "d' = give_back (Some (skb_id skb)) d"
      using assms(2,5) msk by (auto simp: mqnic_start_xmit_def Let_def)
    then show thesis
      using b lb ti free by (intro dropped [where ti = ?ti and ds = "buf ! j" and n = "r_dropped r + 1"]) (simp_all add: give_back_def tx_occ_def)
  next
    case lin
    let ?ds = "(buf ! j)[0 := (buf ! j ! 0)\<lparr>d_csum := c\<rparr>]"
    have "r' = r\<lparr>r_info := (r_info r)[j := ?ti], r_buf := Some (buf[j := ?ds]), r_dropped := r_dropped r + 1\<rparr>"
        "d' = give_back (Some (skb_id skb)) d"
      using lin assms(2,5) msk b(1) by (auto simp: mqnic_start_xmit_def Let_def)
    then show thesis
      using b lb ti free by (intro dropped [where ti = ?ti and ds = ?ds and n = "r_dropped r + 1"]) (simp_all add: give_back_def tx_occ_def)
  next
    case mapped
    let ?ds = "(buf ! j)[0 := (buf ! j ! 0)\<lparr>d_csum := c\<rparr>]"
    obtain ok ti' ds' d1 where m: "mqnic_map_skb (x_maps env) (r_block r) ?skb ?ti ?ds d = (ok, ti', ds', d1)"
      by (cases "mqnic_map_skb (x_maps env) (r_block r) ?skb ?ti ?ds d")
    have l: "length ?ds = r_block r" "length (skb_frags ?skb) < length ?ds" "length (skb_frags ?skb) \<le> length (ti_frags ?ti)"
      using lb blk ti(1) by (auto simp: skb_linearize_def)
    note s = map_skb_spec [OF m l(2,3,1), unfolded l(1)]
    have id: "skb_id ?skb = skb_id skb" by (simp add: skb_linearize_def)
    show thesis
    proof (cases ok)
      case False
      then have "r' = r\<lparr>r_info := (r_info r)[j := ti'], r_buf := Some (buf[j := ds']), r_dropped := r_dropped r + 1\<rparr>"
          "d' = give_back (Some (skb_id skb)) d1"
        using mapped assms(2,5) msk b(1) m by (auto simp: mqnic_start_xmit_def Let_def id)
      then show thesis
        using s False ti(1) b(1) by (intro dropped [where ti = ti' and ds = ds' and n = "r_dropped r + 1"]) (simp_all add: give_back_def tx_occ_def)
    next
      case True
      have "r' = r\<lparr>r_info := (r_info r)[j := ti'], r_buf := Some (buf[j := ds']), r_packets := r_packets r + 1,
          r_bytes := r_bytes r + ucast (skb_len ?skb), r_prod := r_prod r + 1,
          r_stopped := r_stopped r \<or> r_prod r + 1 - r_cons r \<ge> r_full_size r\<rparr>" "d' = d1"
        using mapped assms(2,5) msk b(1) m True by (auto simp: mqnic_start_xmit_def Let_def mqnic_is_tx_ring_full_def id split: if_splits)
      then show thesis
        using s True ti(1) b(1) id by (intro sent [where ti = ti' and ds = ds' and packets = "r_packets r + 1" and bytes = "r_bytes r + ucast (skb_len ?skb)"]) simp_all
    qed
  qed
qed

lemma half_le: "k < 32 \<Longrightarrow> unat (drop_bit 1 (2 ^ k :: u32)) \<le> 2 ^ k"
  using unat_pow2_u32 [of k] by (simp add: drop_bit_eq_div unat_div)

lemma not_full_room:
  assumes "tx_shape k r" "k < 32" "\<not> r_full_size r \<le> p"
  shows "unat p < 2 ^ k"
proof -
  have "unat p < unat (r_full_size r)" using assms(3) by (simp add: word_le_nat_alt not_le)
  then show ?thesis using assms(1) half_le [OF assms(2)] by (simp add: tx_shape_def)
qed

lemma start_xmit_ok:
  assumes "tx_ring_ok k r d sub" "\<not> r_stopped r" "mqnic_start_xmit env skb r d i = (r', d', i')"
  shows "tx_ring_ok k r' d' (sub @ [skb_id skb])"
proof -
  note o = tx_ring_okD [OF assms(1)]
  define j where "j = unat (r_prod r AND mask k)"
  have k: "k < 32" using o(2) by (simp add: tx_slots.window_ok_def)
  have room: "unat (r_prod r - r_cons r) < 2 ^ k" by (rule o(4) [OF assms(2)])
  have jl: "j < length (r_info r)" "j < 2 ^ k" using tx_slots.slot_less [OF o(2)] o(7) by (simp_all add: j_def)
  have free: "\<not> tx_occ (r_info r ! j)" using tx_slots.free_slot_prod [OF o(2) room] by (simp add: j_def)
  obtain buf where b: "r_buf r = Some buf" "length buf = 2 ^ k" using o(1) by (auto simp: tx_shape_def)
  have shape: "tx_shape k (r\<lparr>r_info := (r_info r)[j := ti], r_buf := Some (buf[j := ds])\<rparr>)"
    if "length ds = r_block r" "length (ti_frags ti) = MQNIC_MAX_FRAGS - 1" "ti_frag_count ti \<le> MQNIC_MAX_FRAGS - 1" for ti ds
    using o(1) that b by (auto simp: tx_shape_def dest!: set_update_subset_insert [THEN subsetD])
  have held: "tx_slots.held f ((r_info r)[j := x]) = tx_slots.held f (r_info r) + (if tx_occ x then mset (f x) else {#})"
    for f :: "mqnic_tx_info \<Rightarrow> 'b list" and x
    using tx_slots.held_update [OF jl(1), of f x] free by simp
  from o(1) j_def jl(1) free assms(3) show ?thesis
  proof (cases rule: start_xmit_cases)
    case (dropped ti ds n)
    have "tx_slots.window_ok k ((r_info r)[j := ti]) (r_prod r) (r_cons r)" by (rule tx_slots.window_clear [OF o(2) dropped(2)])
    moreover have "slot_desc r' l" if "l < 2 ^ k" "tx_occ (r_info r' ! l)" for l
      using that jl b dropped(1,2) o(5) [of l] by (cases "l = j") (auto simp: slot_desc_def)
    ultimately show ?thesis
      using shape [OF dropped(3-5)] dropped held [of tx_maps ti] held [of "\<lambda>ti. [the (ti_skb ti)]" ti] o b room
      by (simp add: tx_ring_ok_def tx_slots.dma_ok_def tx_shape_def)
  next
    case (sent ti ds packets bytes)
    have occ: "tx_occ ti" using sent(2) by (simp add: tx_occ_def)
    have "tx_slots.window_ok k ((r_info r)[j := ti]) (r_prod r + 1) (r_cons r)"
      using tx_slots.window_fill(1) [OF o(2) room] by (simp add: j_def)
    moreover have "slot_desc r' l" if "l < 2 ^ k" "tx_occ (r_info r' ! l)" for l
      using that jl b sent(1,9) o(5) [of l] by (cases "l = j") (auto simp: slot_desc_def)
    moreover have "unat (r_prod r + 1 - r_cons r) < 2 ^ k" if "\<not> r_stopped r'"
      using not_full_room [OF o(1) k] that sent(1) by simp
    ultimately show ?thesis
      using shape [OF sent(3-5)] sent held [of tx_maps ti] held [of "\<lambda>ti. [the (ti_skb ti)]" ti] o b occ
      by (simp add: tx_ring_ok_def tx_slots.dma_ok_def tx_shape_def)
  qed
qed

section \<open>Completion keeps the invariant\<close>

lemma tx_ring_ok_ts: "tx_ring_ok k (snd (mqnic_read_cpl_ts phc cpl r)) d sub \<longleftrightarrow> tx_ring_ok k r d sub"
  by (simp add: tx_ring_ok_def tx_shape_def slot_desc_def)

lemma tx_cq_loop_ok:
  assumes "tx_ring_ok k r d sub" "tx_cq_loop phc buf siz msk budget c r d n ts = (c', r', d', n', ts')"
    and "cpls = ready_cpls buf siz msk budget c" "distinct (map (cpl_slot k) cpls)"
    and "\<And>e. e \<in> set cpls \<Longrightarrow> tx_occ (r_info r ! cpl_slot k e)"
  shows "tx_ring_ok k r' d' sub \<and> c' = c + of_nat (length cpls) \<and> n' = n + length cpls
    \<and> r_prod r' = r_prod r \<and> r_cons r' = r_cons r \<and> r_priv r' = r_priv r \<and> r_stopped r' = r_stopped r
    \<and> (\<forall>j < 2 ^ k. tx_occ (r_info r' ! j) \<longleftrightarrow> tx_occ (r_info r ! j) \<and> j \<notin> cpl_slot k ` set cpls)"
  using assms
proof (induction budget arbitrary: c r d n ts cpls)
  case (Suc budget)
  let ?e = "buf ! unat (c AND msk)"
  show ?case
  proof (cases "phase_ready (cpl_phase ?e) c siz")
    case False
    then show ?thesis using Suc.prems by auto
  next
    case True
    define rest where "rest = ready_cpls buf siz msk budget (c + 1)"
    have cpls: "cpls = ?e # rest" using Suc.prems(3) True by (simp add: rest_def Let_def)
    have msk: "r_size_mask r = mask k" using tx_ring_okD(1) [OF Suc.prems(1)] by (simp add: tx_shape_def)
    let ?j = "cpl_slot k ?e"
    define r1 where "r1 = (if ti_ts (r_info r ! ?j) then snd (mqnic_read_cpl_ts phc ?e r) else r)"
    define ts1 where "ts1 = (if ti_ts (r_info r ! ?j) then ts @ [fst (mqnic_read_cpl_ts phc ?e r)] else ts)"
    have ok1: "tx_ring_ok k r1 d sub" using Suc.prems(1) by (simp add: r1_def tx_ring_ok_ts)
    have keep: "r_info r1 = r_info r" "r_prod r1 = r_prod r" "r_cons r1 = r_cons r" "r_priv r1 = r_priv r" "r_stopped r1 = r_stopped r"
      by (simp_all add: r1_def)
    obtain r2 d2 where f: "mqnic_free_tx_desc ?j r1 d = (r2, d2)" by (cases "mqnic_free_tx_desc ?j r1 d")
    have occ: "tx_occ (r_info r1 ! ?j)" using Suc.prems(5) cpls by (simp add: keep)
    note g = free_tx_desc_ok [OF ok1 cpl_slot_less occ f]
    have len: "length (r_info r) = 2 ^ k" by (rule tx_ring_okD(7) [OF Suc.prems(1)])
    have o2: "tx_occ (r_info r2 ! j) \<longleftrightarrow> tx_occ (r_info r ! j) \<and> j \<noteq> ?j" if "j < 2 ^ k" for j
      using that len by (cases "j = ?j") (simp_all add: g(2) keep tx_occ_def)
    have "tx_cq_loop phc buf siz msk (Suc budget) c r d n ts = tx_cq_loop phc buf siz msk budget (c + 1) r2 d2 (Suc n) ts1"
      using True f by (auto simp: Let_def msk cpl_slot_def r1_def ts1_def case_prod_beta split: if_splits)
    then have l: "tx_cq_loop phc buf siz msk budget (c + 1) r2 d2 (Suc n) ts1 = (c', r', d', n', ts')" using Suc.prems(2) by simp
    have "distinct (map (cpl_slot k) rest)" "?j \<notin> cpl_slot k ` set rest" using Suc.prems(4) cpls by auto
    moreover have "tx_occ (r_info r2 ! cpl_slot k e)" if "e \<in> set rest" for e
      using Suc.prems(5) [of e] that cpls o2 [of "cpl_slot k e"] calculation(2) by (metis cpl_slot_less imageI list.set_intros(2))
    ultimately show ?thesis
      using Suc.IH [OF g(1) l rest_def] o2 by (auto simp: cpls g(2) keep)
  qed
qed simp

lemma tx_poll_ok:
  assumes "tx_ring_ok k r d sub" "cq_ready kc cq n" "distinct (map (cpl_slot k) (cq_waiting cq n))"
    and "\<forall>e\<in>set (cq_waiting cq n). tx_occ (r_info r ! cpl_slot k e)"
    and "mqnic_poll_tx_cq up phc budget cq r d i = (m, fin, cq', r', d', i', ts)"
  shows "tx_ring_ok k r' d' sub" "m = (if r_priv r \<and> up then min budget n else 0)" "cq_ready kc cq' (n - m)"
    "cq_waiting cq' (n - m) = drop m (cq_waiting cq n)" "r_priv r' = r_priv r" "r_prod r' = r_prod r"
    "\<And>j. j < 2 ^ k \<Longrightarrow> tx_occ (r_info r' ! j) \<longleftrightarrow> tx_occ (r_info r ! j) \<and> j \<notin> cpl_slot k ` set (take m (cq_waiting cq n))"
    "r_priv r \<and> up \<Longrightarrow> r_cons r' = r_prod r' \<or> tx_occ (r_info r' ! unat (r_cons r' AND mask k))"
    "r_priv r \<and> up \<Longrightarrow> r_stopped r' \<Longrightarrow> mqnic_is_tx_ring_full r'"
proof -
  note w = cq_waiting_entries [OF assms(2)]
  have cq: "cq_size cq = 2 ^ kc" "cq_mask cq = mask kc" "cq_ring.ring_ok kc (the (cq_buf cq)) (cq_cons cq) n"
    using assms(2) by (simp_all add: cq_ready_def)
  define cpls where "cpls = ready_cpls (the (cq_buf cq)) (cq_size cq) (cq_mask cq) budget (cq_cons cq)"
  have cpls: "cpls = take budget (cq_waiting cq n)" unfolding cpls_def cq(1,2) w by (rule ready_cpls_entries [OF cq(3)])
  have len: "length (cq_waiting cq n) = n" by (simp add: cq_waiting_def)
  have "tx_ring_ok k r' d' sub \<and> m = (if r_priv r \<and> up then min budget n else 0) \<and> cq_ready kc cq' (n - m)
    \<and> cq_waiting cq' (n - m) = drop m (cq_waiting cq n) \<and> r_priv r' = r_priv r \<and> r_prod r' = r_prod r
    \<and> (\<forall>j < 2 ^ k. tx_occ (r_info r' ! j) \<longleftrightarrow> tx_occ (r_info r ! j) \<and> j \<notin> cpl_slot k ` set (take m (cq_waiting cq n)))
    \<and> (r_priv r \<and> up \<longrightarrow> r_cons r' = r_prod r' \<or> tx_occ (r_info r' ! unat (r_cons r' AND mask k)))
    \<and> (r_priv r \<and> up \<longrightarrow> r_stopped r' \<longrightarrow> mqnic_is_tx_ring_full r')"
  proof (cases "r_priv r \<and> up")
    case False
    then have "m = 0" "cq' = cq" "r' = r" "d' = d"
      using assms(5) by (auto simp: mqnic_poll_tx_cq_def mqnic_process_tx_cq_def split: if_splits)
    then show ?thesis using assms(1,2) False by auto
  next
    case True
    obtain c1 r1 d1 n1 ts1 where l: "tx_cq_loop phc (the (cq_buf cq)) (cq_size cq) (cq_mask cq) budget (cq_cons cq) r d 0 [] = (c1, r1, d1, n1, ts1)"
      by (cases "tx_cq_loop phc (the (cq_buf cq)) (cq_size cq) (cq_mask cq) budget (cq_cons cq) r d 0 []")
    have "distinct (map (cpl_slot k) cpls)" using assms(3) by (simp add: cpls take_map [symmetric])
    moreover have "tx_occ (r_info r ! cpl_slot k e)" if "e \<in> set cpls" for e using that assms(4) by (auto simp: cpls dest: in_set_takeD)
    ultimately have L: "tx_ring_ok k r1 d1 sub \<and> c1 = cq_cons cq + of_nat (length cpls) \<and> n1 = 0 + length cpls
      \<and> r_prod r1 = r_prod r \<and> r_cons r1 = r_cons r \<and> r_priv r1 = r_priv r \<and> r_stopped r1 = r_stopped r
      \<and> (\<forall>j < 2 ^ k. tx_occ (r_info r1 ! j) \<longleftrightarrow> tx_occ (r_info r ! j) \<and> j \<notin> cpl_slot k ` set cpls)"
      using tx_cq_loop_ok [OF assms(1) l cpls_def] by blast
    define c2 where "c2 = ring_advance tx_occ (r_info r1) (mask k) (r_prod r1) (r_cons r1)"
    define r2 where "r2 = r1\<lparr>r_cons := c2\<rparr>"
    define r3 where "r3 = (if r_stopped r2 \<and> \<not> mqnic_is_tx_ring_full r2 then r2\<lparr>r_stopped := False\<rparr> else r2)"
    have ok1: "tx_ring_ok k r1 d1 sub" using L by blast
    note o = tx_ring_okD [OF ok1]
    have occ: "(\<lambda>ti. ti_skb ti \<noteq> None) = tx_occ" by (simp add: fun_eq_iff tx_occ_def)
    have res: "m = n1" "cq' = cq\<lparr>cq_cons := c1\<rparr>" "r' = r3" "d' = d1"
      using assms(5) True l o(1)
      by (auto simp: mqnic_poll_tx_cq_def mqnic_process_tx_cq_def Let_def tx_shape_def c2_def r2_def r3_def occ [unfolded not_None_eq] occ split: if_splits)
    note a = tx_slots.window_advance [OF o(2), folded c2_def, unfolded Let_def]
    have k: "k < 32" using o(2) by (simp add: tx_slots.window_ok_def)
    have room: "unat (r_prod r3 - r_cons r3) < 2 ^ k" if "\<not> r_stopped r3"
    proof (cases "r_stopped r2")
      case True
      then have "\<not> mqnic_is_tx_ring_full r2" using that by (auto simp: r3_def split: if_splits)
      then show ?thesis using not_full_room [OF o(1) k, of "r_prod r1 - c2"] by (simp add: mqnic_is_tx_ring_full_def r2_def r3_def)
    next
      case False
      then show ?thesis using o(4) a by (simp add: r2_def r3_def)
    qed
    have "tx_ring_ok k r3 d1 sub"
      using o a room unfolding tx_ring_ok_def by (simp add: r2_def r3_def tx_shape_def slot_desc_def)
    moreover have "min budget n \<le> n" "length cpls = min budget n" by (simp_all add: cpls len min.commute)
    moreover note cq_pop_ready [OF assms(2), of "min budget n"]
    ultimately show ?thesis
      using L a True len res by (auto simp: cpls r2_def r3_def mqnic_is_tx_ring_full_def min_def)
  qed
  then show "tx_ring_ok k r' d' sub" "m = (if r_priv r \<and> up then min budget n else 0)" "cq_ready kc cq' (n - m)"
    "cq_waiting cq' (n - m) = drop m (cq_waiting cq n)" "r_priv r' = r_priv r" "r_prod r' = r_prod r"
    "\<And>j. j < 2 ^ k \<Longrightarrow> tx_occ (r_info r' ! j) \<longleftrightarrow> tx_occ (r_info r ! j) \<and> j \<notin> cpl_slot k ` set (take m (cq_waiting cq n))"
    "r_priv r \<and> up \<Longrightarrow> r_cons r' = r_prod r' \<or> tx_occ (r_info r' ! unat (r_cons r' AND mask k))"
    "r_priv r \<and> up \<Longrightarrow> r_stopped r' \<Longrightarrow> mqnic_is_tx_ring_full r'" by blast+
qed

section \<open>Closing a ring\<close>

definition window_full :: "nat \<Rightarrow> tx_ring \<Rightarrow> bool" where
  "window_full k r \<longleftrightarrow> (\<forall>i < unat (r_prod r - r_cons r). tx_occ (r_info r ! unat ((r_cons r + of_nat i) AND mask k)))"

lemma free_tx_buf_ok:
  assumes "tx_ring_ok k r d sub" "window_full k r" "mqnic_free_tx_buf r d cnt = (cnt', r', d')"
  shows "tx_ring_ok k r' d' sub \<and> r_prod r' = r_cons r' \<and> cnt' = cnt + unat (r_prod r - r_cons r)"
  using assms
proof (induction "unat (r_prod r - r_cons r)" arbitrary: r d cnt)
  case 0
  then have "r_prod r = r_cons r" by (simp add: unat_eq_0)
  then show ?case using 0 by (simp add: mqnic_free_tx_buf.simps [of r d cnt] mqnic_is_tx_ring_empty_def)
next
  case (Suc n)
  note o = tx_ring_okD [OF Suc.prems(1)]
  have k: "k < 32" "unat (r_prod r - r_cons r) \<le> 2 ^ k" using o(2) by (simp_all add: tx_slots.window_ok_def)
  have ne: "r_prod r \<noteq> r_cons r" using Suc.hyps(2) by auto
  let ?j = "unat (r_cons r AND mask k)"
  have j: "?j < 2 ^ k" by (simp add: unat_and_mask)
  have occ: "tx_occ (r_info r ! ?j)"
    using Suc.prems(2)[unfolded window_full_def, rule_format, of 0] Suc.hyps(2) by simp
  obtain r1 d1 where f: "mqnic_free_tx_desc ?j r d = (r1, d1)" by (cases "mqnic_free_tx_desc ?j r d")
  note g = free_tx_desc_ok [OF Suc.prems(1) j occ f]
  note o1 = tx_ring_okD [OF g(1)]
  let ?r = "r1\<lparr>r_cons := r_cons r + 1\<rparr>"
  have free: "\<not> tx_occ (r_info r1 ! ?j)" using o(7) j by (simp add: g(2) tx_occ_def)
  have w: "tx_slots.window_ok k (r_info r1) (r_prod r1) (r_cons r1 + 1)"
    using tx_slots.window_pop(1) [OF o1(2)] ne free by (simp add: g(2))
  have "r_prod r - r_cons r \<noteq> 0" using ne by simp
  then have n: "unat (r_prod r - (r_cons r + 1)) = n" using Suc.hyps(2) unat_minus_one [of "r_prod r - r_cons r"] by (simp add: diff_diff_eq)
  have ok: "tx_ring_ok k ?r d1 sub"
    using o1 w n k Suc.hyps(2) unfolding tx_ring_ok_def by (simp add: tx_shape_def slot_desc_def g(2))
  have "tx_occ (r_info ?r ! unat ((r_cons ?r + of_nat i) AND mask k))" if "i < n" for i
  proof -
    have i: "Suc i < unat (r_prod r - r_cons r)" using that Suc.hyps(2) by simp
    then have "Suc i < 2 ^ k" using k(2) by linarith
    then have "unat ((r_cons r + of_nat (Suc i)) AND mask k) \<noteq> unat ((r_cons r + of_nat 0) AND mask k)"
      using index_inj [OF k(1), of "Suc i" 0 "r_cons r", unfolded word_unat_eq_iff] by auto
    then show ?thesis using Suc.prems(2)[unfolded window_full_def, rule_format, OF i] by (simp add: g(2) add.assoc)
  qed
  then have full: "window_full k ?r" using n by (simp add: window_full_def g(2))
  have "mqnic_free_tx_buf r d cnt = mqnic_free_tx_buf ?r d1 (Suc cnt)"
    using ne f o(1) by (simp add: mqnic_free_tx_buf.simps [of r d cnt] mqnic_is_tx_ring_empty_def tx_shape_def)
  then have e: "mqnic_free_tx_buf ?r d1 (Suc cnt) = (cnt', r', d')" using Suc.prems(3) by simp
  have "n = unat (r_prod ?r - r_cons ?r)" using n by (simp add: g(2))
  from Suc.hyps(1) [OF this ok full e] n Suc.hyps(2) show ?case by (simp add: g(2))
qed

lemma free_tx_buf_index: "r_index (fst (snd (mqnic_free_tx_buf r d cnt))) = r_index r \<and> r_enabled (fst (snd (mqnic_free_tx_buf r d cnt))) = r_enabled r
    \<and> r_hw (fst (snd (mqnic_free_tx_buf r d cnt))) = r_hw r"
proof (induction r d cnt rule: mqnic_free_tx_buf.induct)
  case (1 r d cnt)
  then show ?case
    unfolding mqnic_free_tx_buf.simps [of r d cnt] by (auto simp: mqnic_free_tx_desc_def Let_def)
qed

lemma close_tx_ring_ok:
  assumes "tx_ring_ok k r d sub" "window_full k r" "mqnic_close_tx_ring r cq d i = (r', cq', d', i')"
  shows "dma_live d' = []" "\<not> dma_bad d'" "mset (dma_freed d') = mset sub"
    "if_txq_res i' = mqnic_res_free (if_txq_res i) (r_index r)" "r_buf r' = None" "r_info r' = []" "\<not> r_enabled r'" "r_hw r' = None"
proof -
  let ?r = "r\<lparr>r_enabled := False, r_priv := False, r_cq := None, r_hw := None\<rparr>"
  obtain buf where b: "r_buf r = Some buf" using tx_ring_okD(1) [OF assms(1)] by (auto simp: tx_shape_def)
  have ok: "tx_ring_ok k ?r d sub" using assms(1) by (simp add: tx_ring_ok_def tx_shape_def slot_desc_def)
  have w: "window_full k ?r" using assms(2) by (simp add: window_full_def)
  obtain n r1 d1 where f: "mqnic_free_tx_buf ?r d 0 = (n, r1, d1)" by (cases "mqnic_free_tx_buf ?r d 0")
  have F: "tx_ring_ok k r1 d1 sub" "r_prod r1 = r_cons r1" using free_tx_buf_ok [OF ok w f] by simp_all
  note o = tx_ring_okD [OF F(1)]
  have h: "tx_slots.held g (r_info r1) = {#}" for g :: "mqnic_tx_info \<Rightarrow> 'z list"
    using tx_slots.window_empty [of k "r_info r1" "r_cons r1" g] o(2) F(2) by simp
  have ix: "r_index r1 = r_index r" using free_tx_buf_index [of ?r d 0] f by simp
  have d: "d' = d1" "if_txq_res i' = mqnic_res_free (if_txq_res i) (r_index r1)" "r_buf r' = None" "r_info r' = []" "\<not> r_enabled r'" "r_hw r' = None"
    using assms(3) b f free_tx_buf_index [of ?r d 0] by (auto simp: mqnic_close_tx_ring_def mqnic_disable_tx_ring_def Let_def if_writes_def split: option.splits)
  show "dma_live d' = []" "\<not> dma_bad d'" "mset (dma_freed d') = mset sub" using o(3,6) d(1) by (simp_all add: tx_slots.dma_ok_def h)
  show "if_txq_res i' = mqnic_res_free (if_txq_res i) (r_index r)" "r_buf r' = None" "r_info r' = []" "\<not> r_enabled r'" "r_hw r' = None"
    using d ix by simp_all
qed

section \<open>The driver and the device\<close>

text \<open>
  The state of a ring with its completion queue, in which the device has written \<open>s_n\<close> completions that the driver has not
  read. \<open>s_sub\<close> are the socket buffers that were handed to the driver.
\<close>

record tx_sys =
  s_ring :: tx_ring
  s_cq :: mqnic_cq
  s_n :: nat
  s_dma :: dma_state
  s_if :: mqnic_if
  s_sub :: "nat list"

datatype tx_event = Xmit xmit_env sk_buff | Complete mqnic_cpl | Poll bool "(u32 \<times> u32) option" nat

fun tx_exec :: "tx_event \<Rightarrow> tx_sys \<Rightarrow> tx_sys option" where
  "tx_exec (Xmit env skb) s =
     (let (r, d, i) = mqnic_start_xmit env skb (s_ring s) (s_dma s) (s_if s)
      in Some (s\<lparr>s_ring := r, s_dma := d, s_if := i, s_sub := s_sub s @ [skb_id skb]\<rparr>))"
| "tx_exec (Complete e) s = Some (s\<lparr>s_cq := cq_device_push e (s_cq s) (s_n s), s_n := Suc (s_n s)\<rparr>)"
| "tx_exec (Poll up phc budget) s =
     (let (m, _, cq, r, d, i, _) = mqnic_poll_tx_cq up phc budget (s_cq s) (s_ring s) (s_dma s) (s_if s)
      in Some (s\<lparr>s_ring := r, s_cq := cq, s_n := s_n s - m, s_dma := d, s_if := i\<rparr>))"

text \<open>
  The stack transmits only while the queue is not stopped. The device completes a slot in flight that it has not completed yet, in any order, and
  does not overrun the completion queue.
\<close>

fun tx_allowed :: "tx_sys \<Rightarrow> tx_event \<Rightarrow> bool" where
  "tx_allowed s (Xmit env skb) \<longleftrightarrow> \<not> r_stopped (s_ring s)"
| "tx_allowed s (Complete e) \<longleftrightarrow> s_n s < unat (cq_size (s_cq s)) \<and> tx_occ (r_info (s_ring s) ! cpl_ring_index (s_ring s) e)
     \<and> cpl_ring_index (s_ring s) e \<notin> cpl_ring_index (s_ring s) ` set (cq_waiting (s_cq s) (s_n s))"
| "tx_allowed s (Poll up phc budget) \<longleftrightarrow> True"

definition tx_inv :: "nat \<Rightarrow> nat \<Rightarrow> tx_sys \<Rightarrow> bool" where
  "tx_inv k kc s \<longleftrightarrow> tx_ring_ok k (s_ring s) (s_dma s) (s_sub s) \<and> cq_ready kc (s_cq s) (s_n s)
     \<and> distinct (map (cpl_slot k) (cq_waiting (s_cq s) (s_n s)))
     \<and> (\<forall>e\<in>set (cq_waiting (s_cq s) (s_n s)). tx_occ (r_info (s_ring s) ! cpl_slot k e))"

lemma xmit_occ:
  assumes "tx_ring_ok k r d sub" "\<not> r_stopped r" "mqnic_start_xmit env skb r d i = (r', d', i')" "j < 2 ^ k" "tx_occ (r_info r ! j)"
  shows "tx_occ (r_info r' ! j)"
proof -
  note o = tx_ring_okD [OF assms(1)]
  define q where "q = unat (r_prod r AND mask k)"
  have ql: "q < length (r_info r)" using tx_slots.slot_less [OF o(2)] by (simp add: q_def)
  have free: "\<not> tx_occ (r_info r ! q)" using tx_slots.free_slot_prod [OF o(2) o(4) [OF assms(2)]] by (simp add: q_def)
  then have ne: "q \<noteq> j" using assms(5) by auto
  from o(1) q_def ql free assms(3) show ?thesis by (cases rule: start_xmit_cases) (use ne assms(5) in simp_all)
qed

interpretation tx_system: invariant_system tx_exec tx_allowed "tx_inv k kc"
proof
  fix s l t assume inv: "tx_inv k kc s" and al: "tx_allowed s l" and ex: "tx_exec l s = Some t"
  have ok: "tx_ring_ok k (s_ring s) (s_dma s) (s_sub s)" and cq: "cq_ready kc (s_cq s) (s_n s)"
    and di: "distinct (map (cpl_slot k) (cq_waiting (s_cq s) (s_n s)))"
    and oc: "\<forall>e\<in>set (cq_waiting (s_cq s) (s_n s)). tx_occ (r_info (s_ring s) ! cpl_slot k e)"
    using inv by (auto simp: tx_inv_def)
  show "tx_inv k kc t"
  proof (cases l)
    case (Xmit env skb)
    obtain r d i where x: "mqnic_start_xmit env skb (s_ring s) (s_dma s) (s_if s) = (r, d, i)"
      by (cases "mqnic_start_xmit env skb (s_ring s) (s_dma s) (s_if s)")
    have "\<not> r_stopped (s_ring s)" using al Xmit by simp
    note this = start_xmit_ok [OF ok this x] xmit_occ [OF ok this x]
    then show ?thesis using ex Xmit x cq di oc by (auto simp: tx_inv_def)
  next
    case (Complete e)
    have ix: "cpl_ring_index (s_ring s) e = cpl_slot k e" for e
      using tx_ring_okD(1) [OF ok] by (simp add: cpl_ring_index_def cpl_slot_def tx_shape_def)
    have "s_n s < 2 ^ kc" using al Complete cq unat_pow2_u32 [of kc] by (simp add: cq_ready_def cq_ring.ring_ok_def)
    note p = cq_push_ready [OF cq this, of e]
    obtain b where "cq_waiting (cq_device_push e (s_cq s) (s_n s)) (Suc (s_n s)) = cq_waiting (s_cq s) (s_n s) @ [cpl_stamp b e]" using p(2) by blast
    moreover have "tx_occ (r_info (s_ring s) ! cpl_slot k e)" "cpl_slot k e \<notin> cpl_slot k ` set (cq_waiting (s_cq s) (s_n s))"
      using al Complete by (simp_all add: ix)
    ultimately show ?thesis using ex Complete ok di oc p(1) by (auto simp: tx_inv_def)
  next
    case (Poll up phc budget)
    obtain m fin cq' r d i ts where x: "mqnic_poll_tx_cq up phc budget (s_cq s) (s_ring s) (s_dma s) (s_if s) = (m, fin, cq', r, d, i, ts)"
      by (cases "mqnic_poll_tx_cq up phc budget (s_cq s) (s_ring s) (s_dma s) (s_if s)")
    note P = tx_poll_ok [OF ok cq di oc x]
    have "tx_occ (r_info r ! cpl_slot k e)" if "e \<in> set (drop m (cq_waiting (s_cq s) (s_n s)))" for e
    proof -
      have "cpl_slot k e \<notin> cpl_slot k ` set (take m (cq_waiting (s_cq s) (s_n s)))"
        by (rule distinct_map_take_drop [OF di that])
      then show ?thesis using P(7) [OF cpl_slot_less] oc in_set_dropD [OF that] by simp
    qed
    moreover have "distinct (map (cpl_slot k) (drop m (cq_waiting (s_cq s) (s_n s))))" using di by (simp add: drop_map [symmetric])
    ultimately show ?thesis using ex Poll x P by (auto simp: tx_inv_def)
  qed
qed

lemma roundup_block: "blk \<le> 8 \<Longrightarrow> 2 ^ (if blk < 2 then 0 else ilog2 (blk - 1) + 1) \<le> (8 :: nat)"
proof -
  assume "blk \<le> 8"
  obtain k where k: "roundup_pow_of_two blk = 2 ^ k" "\<And>m. blk \<le> 2 ^ m \<Longrightarrow> k \<le> m" by (rule roundup_pow [of blk]) (rule that)
  have "k \<le> 3" using k(2) [of 3] \<open>blk \<le> 8\<close> by simp
  then have "(2 :: nat) ^ k \<le> 2 ^ 3" by (intro power_increasing) simp_all
  then show ?thesis using k(1) by (auto simp: roundup_pow_of_two_def split: if_splits)
qed

lemma open_tx_ring_ok:
  assumes "mqnic_open_tx_ring info_ok buf r0 priv (Some cq0) siz blk d i = (None, r, Some cq, d', i')"
    and "roundup_pow_of_two siz = 2 ^ k" "k < 32" "blk \<le> MQNIC_MAX_FRAGS" "\<not> r_stopped r0" "dma_live d = []" "\<not> dma_bad d"
  shows "tx_ring_ok k r d (dma_freed d)" "d' = d" "cq = cq0\<lparr>cq_handler := Some mqnic_tx_irq\<rparr>" "r_priv r"
proof -
  obtain index res where a: "mqnic_res_alloc (if_txq_res i) = (index, res)" by (cases "mqnic_res_alloc (if_txq_res i)")
  define lb where "lb = (if blk < 2 then 0 else ilog2 (blk - 1) + 1)"
  have lb: "(2 :: nat) ^ lb \<le> 8" using roundup_block [of blk] assms(4) by (simp add: lb_def MQNIC_MAX_FRAGS_def)
  have guard: "\<not> (r_enabled r0 \<or> r_hw r0 \<noteq> None \<or> r_buf r0 \<noteq> None \<or> \<not> priv)" "\<not> index < 0" "info_ok" "buf \<noteq> None"
    using assms(1) by (auto simp: mqnic_open_tx_ring_def a Let_def split: if_splits option.splits prod.splits)
  then obtain dma where dma: "buf = Some dma" by auto
  have r: "r_size r = 2 ^ k" "r_size_mask r = mask k" "r_full_size r = drop_bit 1 (2 ^ k)" "r_block r = 2 ^ lb" "r_info r = replicate (2 ^ k) tx_info_zero"
    "r_buf r = Some (replicate (2 ^ k) (replicate (2 ^ lb) \<lparr>d_csum = 0, d_len = 0, d_addr = 0\<rparr>))" "r_prod r = 0" "r_cons r = 0" "r_stopped r = r_stopped r0"
    using assms(1-3) guard dma size_mask [OF assms(3)] unat_pow2_u32 [OF assms(3)]
    by (auto simp: mqnic_open_tx_ring_def a Let_def ring_sizes_def lb_def split: if_splits)
  show "d' = d" "cq = cq0\<lparr>cq_handler := Some mqnic_tx_irq\<rparr>" "r_priv r"
    using assms(1) guard dma by (auto simp: mqnic_open_tx_ring_def a Let_def)
  have free: "\<not> tx_occ x" if "x \<in> set (r_info r)" for x using that by (auto simp: r tx_occ_def tx_info_zero_def split: if_splits)
  have "tx_shape k r" using lb by (auto simp: tx_shape_def r MQNIC_MAX_FRAGS_def tx_info_zero_def)
  moreover have "tx_slots.window_ok k (r_info r) (r_prod r) (r_cons r)"
    unfolding tx_slots.window_ok_def using assms(3) by (simp add: r unat_and_mask tx_occ_def tx_info_zero_def)
  moreover have held: "tx_slots.held f (r_info r) = {#}" for f :: "mqnic_tx_info \<Rightarrow> 'z list" by (rule tx_slots.held_none [OF free])
  ultimately show "tx_ring_ok k r d (dma_freed d)"
    using assms(6,7) by (simp add: tx_ring_ok_def tx_slots.dma_ok_def held) (simp add: r tx_occ_def tx_info_zero_def)
qed

lemma tx_open_inv:
  assumes "mqnic_open_cq cbuf cq0 eqo csiz i0 = (None, cq, eq', i1)" "csiz \<le> 2 ^ 31"
    and "mqnic_open_tx_ring info_ok buf r0 priv (Some cq) siz blk d i1 = (None, r, Some cq', d', i2)" "siz \<le> 2 ^ 31" "blk \<le> MQNIC_MAX_FRAGS"
    and "\<not> r_stopped r0" "dma_live d = []" "\<not> dma_bad d"
  obtains k kc where "roundup_pow_of_two siz = 2 ^ k" "k < 32" "tx_inv k kc \<lparr>s_ring = r, s_cq = cq', s_n = 0, s_dma = d', s_if = i2, s_sub = dma_freed d\<rparr>"
proof -
  obtain k where k: "roundup_pow_of_two siz = 2 ^ k" "k < 32" by (rule roundup_pow_less [OF assms(4)])
  obtain kc where kc: "roundup_pow_of_two csiz = 2 ^ kc" "kc < 32" by (rule roundup_pow_less [OF assms(2)])
  note o = open_tx_ring_ok [OF assms(3) k assms(5-8)]
  have "cq_ready kc cq' 0" using open_cq_ready [OF assms(1) kc] by (simp add: o(3) cq_ready_def)
  then show thesis using o by (intro that [OF k, of kc]) (simp add: tx_inv_def cq_waiting_def)
qed

text \<open>
  Property C38. A transmit ring and its completion queue as they are opened, and any sequence of transmissions (with every way they can fail), of
  completions that the device writes in any order, and of polls with any budget. In every state: nothing was unmapped that was not mapped; the
  mappings in use are exactly those of the packets in flight, so that none is lost; every socket buffer that the stack handed over is either in flight, once, or
  was given back, once; and the descriptors of a packet in flight name exactly its mappings. If the slots between the
  pointers are all in flight, closing the ring removes every mapping and gives back every socket buffer.
\<close>

theorem tx_ring_safe:
  assumes "mqnic_open_cq cbuf cq0 eqo csiz i0 = (None, cq, eq', i1)" "csiz \<le> 2 ^ 31"
    and "mqnic_open_tx_ring info_ok buf r0 priv (Some cq) siz blk d i1 = (None, r, Some cq', d', i2)" "siz \<le> 2 ^ 31" "blk \<le> MQNIC_MAX_FRAGS"
    and "\<not> r_stopped r0" "d = dma_init"
    and "reach tx_exec tx_allowed \<lparr>s_ring = r, s_cq = cq', s_n = 0, s_dma = d', s_if = i2, s_sub = []\<rparr> s"
    and "roundup_pow_of_two siz = 2 ^ k"
  shows "\<not> dma_bad (s_dma s)
    \<and> mset (dma_live (s_dma s)) = mset (concat (map tx_maps (filter tx_occ (r_info (s_ring s)))))
    \<and> mset (s_sub s) = mset (dma_freed (s_dma s)) + mset (map (the \<circ> ti_skb) (filter tx_occ (r_info (s_ring s))))
    \<and> (\<forall>j < 2 ^ k. tx_occ (r_info (s_ring s) ! j) \<longrightarrow> slot_desc (s_ring s) j)
    \<and> (window_full k (s_ring s) \<longrightarrow> (\<forall>r' c' e i'. mqnic_close_tx_ring (s_ring s) (s_cq s) (s_dma s) (s_if s) = (r', c', e, i') \<longrightarrow>
          dma_live e = [] \<and> \<not> dma_bad e \<and> mset (dma_freed e) = mset (s_sub s)))"
proof -
  obtain k' kc where k: "roundup_pow_of_two siz = 2 ^ k'" "tx_inv k' kc \<lparr>s_ring = r, s_cq = cq', s_n = 0, s_dma = d', s_if = i2, s_sub = []\<rparr>"
    by (rule tx_open_inv [OF assms(1-6)]) (use assms(7) in \<open>simp_all add: dma_init_def\<close>)
  then have "k' = k" using assms(9) by simp
  then have ok: "tx_ring_ok k (s_ring s) (s_dma s) (s_sub s)" using tx_system.reach_inv [OF assms(8) k(2)] by (simp add: tx_inv_def)
  have c: "concat (map (\<lambda>ti. [the (ti_skb ti)]) xs) = map (the \<circ> ti_skb) xs" for xs by (induction xs) simp_all
  note o = tx_ring_okD [OF ok]
  have "window_full k (s_ring s) \<longrightarrow> (\<forall>r' c' e i'. mqnic_close_tx_ring (s_ring s) (s_cq s) (s_dma s) (s_if s) = (r', c', e, i') \<longrightarrow>
      dma_live e = [] \<and> \<not> dma_bad e \<and> mset (dma_freed e) = mset (s_sub s))" using close_tx_ring_ok(1-3) [OF ok] by blast
  moreover have "\<forall>j < 2 ^ k. tx_occ (r_info (s_ring s) ! j) \<longrightarrow> slot_desc (s_ring s) j" using o(5) by blast
  moreover have "mset (s_sub s) = mset (dma_freed (s_dma s)) + mset (map (the \<circ> ti_skb) (filter tx_occ (r_info (s_ring s))))"
    using o(6) unfolding tx_slots.held_filter c .
  ultimately show ?thesis using o(3) unfolding tx_slots.dma_ok_def tx_slots.held_filter by blast
qed

definition example_tx_open :: "errno option \<times> tx_ring \<times> mqnic_cq option \<times> dma_state \<times> mqnic_if" where
  "example_tx_open = (case example_cq_open of (_, cq, _, i) \<Rightarrow> mqnic_open_tx_ring True (Some 0x6000) queue_init True (Some cq) 4 2 dma_init i)"

definition example_tx_sys :: tx_sys where
  "example_tx_sys = (case example_tx_open of (_, r, cq, d, i) \<Rightarrow> \<lparr>s_ring = r, s_cq = the cq, s_n = 0, s_dma = d, s_if = i, s_sub = []\<rparr>)"

definition example_xmit :: "nat \<Rightarrow> tx_event" where
  "example_xmit n = Xmit \<lparr>x_port_up = True, x_ring = True, x_ptp = False, x_csum_help = True, x_linearize = True, x_maps = (\<lambda>j. Some (0x9000 + of_nat n * 0x1000 + of_nat j * 0x100)), x_more = False\<rparr>
     \<lparr>skb_id = n, skb_headlen = 64, skb_frags = [100], skb_len = 164, skb_data_len = 100, skb_csum = None, skb_tstamp = False\<rparr>"

definition example_cpl :: "u16 \<Rightarrow> tx_event" where
  "example_cpl j = Complete (cpl_ones\<lparr>cpl_index := j\<rparr>)"

definition example_tx_events :: "tx_event list" where
  "example_tx_events = [example_xmit 7, example_xmit 8, example_cpl 0, Poll True None 64]"

lemma example_tx_run: "\<not> Option.is_none (run tx_exec tx_allowed example_tx_events example_tx_sys)"
  by code_simp

lemma example_tx_state:
  "map_option (\<lambda>s. (r_prod (s_ring s), r_cons (s_ring s), dma_freed (s_dma s), dma_live (s_dma s), s_sub s))
     (run tx_exec tx_allowed example_tx_events example_tx_sys)
   = Some (2, 1, [7], [(0x11100, 64), (0x11000, 100)], [7, 8])"
  by code_simp

theorem tx_ring_safe_witness:
  "\<exists>s. reach tx_exec tx_allowed example_tx_sys s \<and> s_sub s = [7, 8] \<and> dma_freed (s_dma s) = [7] \<and> \<not> dma_bad (s_dma s)
    \<and> (\<forall>j < 2 ^ 2. tx_occ (r_info (s_ring s) ! j) \<longrightarrow> slot_desc (s_ring s) j)"
proof -
  obtain e cq eq i1 where c: "example_cq_open = (e, cq, eq, i1)" by (cases example_cq_open)
  have "fst example_cq_open = None" by code_simp
  with c have c': "mqnic_open_cq (Some 0x5000) example_cq (Some example_eq) 2 example_if = (None, cq, eq, i1)" by (simp add: example_cq_open_def)
  obtain e r co d i2 where o: "example_tx_open = (e, r, co, d, i2)" by (cases example_tx_open)
  have "fst example_tx_open = None" "fst (snd (snd example_tx_open)) \<noteq> None" by code_simp+
  then have "e = None" "co \<noteq> None" unfolding o by simp_all
  then obtain cq' where "e = None" "co = Some cq'" by blast
  with o have o': "mqnic_open_tx_ring True (Some 0x6000) queue_init True (Some cq) 4 2 dma_init i1 = (None, r, Some cq', d, i2)"
    "example_tx_sys = \<lparr>s_ring = r, s_cq = cq', s_n = 0, s_dma = d, s_if = i2, s_sub = []\<rparr>"
    by (simp_all add: example_tx_open_def example_tx_sys_def c)
  define s where "s = the (run tx_exec tx_allowed example_tx_events example_tx_sys)"
  have reach: "reach tx_exec tx_allowed example_tx_sys s" using run_reach_the [OF example_tx_run] by (simp add: s_def)
  have "\<not> r_stopped (queue_init :: tx_ring)" by (simp add: queue_init_def)
  moreover have "roundup_pow_of_two 4 = 2 ^ 2" by code_simp
  ultimately have "\<not> dma_bad (s_dma s)" "\<forall>j < 2 ^ 2. tx_occ (r_info (s_ring s) ! j) \<longrightarrow> slot_desc (s_ring s) j"
    using tx_ring_safe [OF c' _ o'(1) _ _ _ refl reach [unfolded o'(2)], of 2] by (simp_all add: MQNIC_MAX_FRAGS_def)
  moreover have "s_sub s = [7, 8]" "dma_freed (s_dma s) = [7]"
    using example_tx_state example_tx_run by (auto simp: s_def)
  ultimately show ?thesis using reach by blast
qed

text \<open>
  A ring that is closed when a packet was completed before an older one: the slot of the completed packet is freed a second time, and an address that is not
  mapped is unmapped.
\<close>

definition example_tx_late :: "tx_event list" where
  "example_tx_late = [example_xmit 7, example_xmit 8, example_cpl 1, Poll True None 64]"

lemma close_after_reordering:
  "map_option (\<lambda>s. dma_bad (s_dma s)) (run tx_exec tx_allowed example_tx_late example_tx_sys) = Some False"
  "map_option (\<lambda>s. case mqnic_close_tx_ring (s_ring s) (s_cq s) (s_dma s) (s_if s) of (_, _, d, _) \<Rightarrow> dma_bad d)
     (run tx_exec tx_allowed example_tx_late example_tx_sys) = Some True"
  by code_simp+

text \<open>
  A poll after the device has completed everything, with a budget for all completions, empties the ring and wakes the queue, if the ring
  has more than one slot.
\<close>

lemma tx_poll_wakes:
  assumes "tx_inv k kc s" "0 < k" "r_priv (s_ring s)" "s_n s \<le> budget" "tx_exec (Poll True phc budget) s = Some t"
    and "\<forall>j < 2 ^ k. tx_occ (r_info (s_ring s) ! j) \<longrightarrow> j \<in> cpl_slot k ` set (cq_waiting (s_cq s) (s_n s))"
  shows "mqnic_is_tx_ring_empty (s_ring t)" "\<not> r_stopped (s_ring t)" "dma_live (s_dma t) = []" "s_n t = 0"
proof -
  have ok: "tx_ring_ok k (s_ring s) (s_dma s) (s_sub s)" and cq: "cq_ready kc (s_cq s) (s_n s)"
    and di: "distinct (map (cpl_slot k) (cq_waiting (s_cq s) (s_n s)))"
    and oc: "\<forall>e\<in>set (cq_waiting (s_cq s) (s_n s)). tx_occ (r_info (s_ring s) ! cpl_slot k e)" using assms(1) by (auto simp: tx_inv_def)
  obtain m fin cq' r d i ts where x: "mqnic_poll_tx_cq True phc budget (s_cq s) (s_ring s) (s_dma s) (s_if s) = (m, fin, cq', r, d, i, ts)"
    by (cases "mqnic_poll_tx_cq True phc budget (s_cq s) (s_ring s) (s_dma s) (s_if s)")
  note P = tx_poll_ok [OF ok cq di oc x]
  have t: "s_ring t = r" "s_dma t = d" "s_n t = s_n s - m" using assms(5) x by auto
  have m: "m = s_n s" using P(2) assms(3,4) by simp
  have "length (cq_waiting (s_cq s) (s_n s)) = s_n s" by (simp add: cq_waiting_def)
  then have none: "\<not> tx_occ (r_info r ! j)" if "j < 2 ^ k" for j using P(7) [OF that] assms(6) that m by auto
  note o = tx_ring_okD [OF P(1)]
  have e: "r_cons r = r_prod r" using P(8) assms(3) none [of "unat (r_cons r AND mask k)"] by (simp add: unat_and_mask)
  then show "mqnic_is_tx_ring_empty (s_ring t)" by (simp add: t mqnic_is_tx_ring_empty_def)
  have k: "k < 32" using o(2) by (simp add: tx_slots.window_ok_def)
  have "unat (drop_bit 1 (2 ^ k :: u32)) = 2 ^ k div 2" by (simp add: drop_bit_eq_div unat_div unat_pow2_u32 [OF k])
  moreover have "(2 :: nat) ^ k div 2 \<noteq> 0" using assms(2) by (cases k) simp_all
  ultimately have "r_full_size r \<noteq> 0" using o(1) by (auto simp: tx_shape_def)
  then have "\<not> mqnic_is_tx_ring_full r" using e by (simp add: mqnic_is_tx_ring_full_def word_le_0_iff)
  then show "\<not> r_stopped (s_ring t)" using P(9) assms(3) by (auto simp: t)
  show "dma_live (s_dma t) = []" using tx_slots.idle_iff [OF o(3)] none o(7) by (auto simp: t in_set_conv_nth)
  show "s_n t = 0" by (simp add: t m)
qed

end
