(* ===== verification/Mqnic_Rx.thy ===== *)
theory Mqnic_Rx
  imports Mqnic_Ring
begin

text \<open>
  The receive rings of the NIC driver, \<open>mqnic_rx.c\<close>: opening and closing a ring, filling it with pages, and handing received
  packets to the network stack. Failing allocations and mappings are parameters. Pages are numbered in the order in which they
  are allocated. The last section composes the driver with the device, which writes completions.
\<close>

unbundle bit_operations_syntax

section \<open>Data\<close>

record mqnic_rx_info =
  ri_page :: "nat option"
  ri_order :: nat
  ri_offset :: u32
  ri_dma :: u64
  ri_len :: u32

type_synonym rx_ring = "mqnic_rx_info mqnic_ring"

definition rx_info_zero :: mqnic_rx_info where
  "rx_info_zero = \<lparr>ri_page = None, ri_order = 0, ri_offset = 0, ri_dma = 0, ri_len = 0\<rparr>"

text \<open>A socket buffer that is handed to the network stack: a page, the length of the packet in it, the checksum and the time stamp.\<close>

record rx_skb =
  rs_page :: nat
  rs_offset :: u32
  rs_len :: u32
  rs_truesize :: u32
  rs_csum :: "u16 option"
  rs_ts :: "(u64 \<times> u32) option"
  rs_queue :: int

definition mqnic_is_rx_ring_empty :: "rx_ring \<Rightarrow> bool" where
  "mqnic_is_rx_ring_empty r \<longleftrightarrow> r_prod r = r_cons r"

definition mqnic_is_rx_ring_full :: "rx_ring \<Rightarrow> bool" where
  "mqnic_is_rx_ring_full r \<longleftrightarrow> r_prod r - r_cons r \<ge> r_size r"

definition mqnic_rx_read_cons_ptr :: "u32 \<Rightarrow> rx_ring \<Rightarrow> rx_ring" where
  "mqnic_rx_read_cons_ptr reg r = r\<lparr>r_cons := r_cons r + ((drop_bit 16 reg - r_cons r) AND MQNIC_QUEUE_PTR_MASK)\<rparr>"

definition mqnic_rx_write_prod_ptr :: "rx_ring \<Rightarrow> mqnic_if \<Rightarrow> mqnic_if" where
  "mqnic_rx_write_prod_ptr r i =
     if_writes (the (r_hw r)) [(MQNIC_QUEUE_CTRL_STATUS_REG, MQNIC_QUEUE_CMD_SET_PROD_PTR OR (r_prod r AND MQNIC_QUEUE_PTR_MASK))] i"

section \<open>Pages\<close>

definition mqnic_free_rx_desc :: "nat \<Rightarrow> rx_ring \<Rightarrow> dma_state \<Rightarrow> rx_ring \<times> dma_state" where
  "mqnic_free_rx_desc index r d =
     (let ri = r_info r ! index
      in if ri_page ri = None then (r, d)
         else (r\<lparr>r_info := (r_info r)[index := ri\<lparr>ri_dma := 0, ri_page := None\<rparr>]\<rparr>,
               give_back (ri_page ri) (dma_unmap (ri_dma ri, ri_len ri) d)))"

function mqnic_free_rx_buf :: "rx_ring \<Rightarrow> dma_state \<Rightarrow> nat \<Rightarrow> nat \<times> rx_ring \<times> dma_state" where
  "mqnic_free_rx_buf r d cnt =
     (if mqnic_is_rx_ring_empty r then (cnt, r, d)
      else (let (r', d') = mqnic_free_rx_desc (unat (r_cons r AND r_size_mask r)) r d
            in mqnic_free_rx_buf (r'\<lparr>r_cons := r_cons r + 1\<rparr>) d' (Suc cnt)))"
  by pat_completeness auto
termination
  by (relation "measure (\<lambda>(r, _, _). unat (r_prod r - r_cons r))")
    (auto simp: mqnic_is_rx_ring_empty_def mqnic_free_rx_desc_def Let_def split: if_splits intro!: minus_one_less)

declare mqnic_free_rx_buf.simps [simp del]

text \<open>\<open>page_ok\<close> and \<open>map\<close> are the results of the allocation of the page and of its mapping.\<close>

definition mqnic_prepare_rx_desc :: "bool \<Rightarrow> u64 option \<Rightarrow> nat \<Rightarrow> rx_ring \<Rightarrow> dma_state \<Rightarrow> errno option \<times> rx_ring \<times> dma_state" where
  "mqnic_prepare_rx_desc page_ok mp index r d =
     (let ri = r_info r ! index;
          page_order = r_page_order r;
          len = push_bit page_order 4096 :: u32
      in if ri_page ri \<noteq> None then (Some EPERM, r, d)
         else if \<not> page_ok then (Some ENOMEM, r, d)
         else let page = dma_next d;
                  d = d\<lparr>dma_next := Suc page\<rparr>
              in case mp of
                   None \<Rightarrow> (Some EPERM, r, give_back (Some page) d)
                 | Some a \<Rightarrow>
                     let ds = the (r_buf r) ! index
                     in (None,
                         r\<lparr>r_buf := Some ((the (r_buf r))[index := ds[0 := (ds ! 0)\<lparr>d_len := len, d_addr := a\<rparr>]]),
                           r_info := (r_info r)[index := \<lparr>ri_page = Some page, ri_order = page_order, ri_offset = 0, ri_dma = a, ri_len = len\<rparr>]\<rparr>,
                         dma_map (a, len) d))"

text \<open>\<open>env j\<close> are the results of the \<open>j\<close>-th allocation and mapping of a refill.\<close>

fun refill_loop :: "(nat \<Rightarrow> bool \<times> u64 option) \<Rightarrow> nat \<Rightarrow> nat \<Rightarrow> rx_ring \<Rightarrow> dma_state \<Rightarrow> errno option \<times> rx_ring \<times> dma_state" where
  "refill_loop env j 0 r d = (None, r, d)"
| "refill_loop env j (Suc missing) r d =
     (case mqnic_prepare_rx_desc (fst (env j)) (snd (env j)) (unat (r_prod r AND r_size_mask r)) r d of
        (Some e, r, d) \<Rightarrow> (Some e, r, d)
      | (None, r, d) \<Rightarrow> refill_loop env (Suc j) missing (r\<lparr>r_prod := r_prod r + 1\<rparr>) d)"

definition mqnic_refill_rx_buffers :: "(nat \<Rightarrow> bool \<times> u64 option) \<Rightarrow> rx_ring \<Rightarrow> dma_state \<Rightarrow> mqnic_if \<Rightarrow> errno option \<times> rx_ring \<times> dma_state \<times> mqnic_if" where
  "mqnic_refill_rx_buffers env r d i =
     (let missing = r_size r - (r_prod r - r_cons r)
      in if missing < 8 then (None, r, d, i)
         else let (ret, r, d) = refill_loop env 0 (unat missing) r d
              in (ret, r, d, mqnic_rx_write_prod_ptr r i))"

section \<open>Opening and closing\<close>

definition mqnic_create_rx_ring :: "bool \<Rightarrow> errno + rx_ring" where
  "mqnic_create_rx_ring alloc_ok =
     (if \<not> alloc_ok then Inl ENOMEM
      else Inr (queue_init\<lparr>r_index := -1, r_enabled := False, r_hw := None, r_prod := 0, r_cons := 0\<rparr>))"

definition mqnic_enable_rx_ring :: "rx_ring \<Rightarrow> mqnic_if \<Rightarrow> errno option \<times> rx_ring \<times> mqnic_if" where
  "mqnic_enable_rx_ring r i =
     (case r_hw r of
        None \<Rightarrow> (Some EINVAL, r, i)
      | Some hw \<Rightarrow> (None, r\<lparr>r_enabled := True\<rparr>, if_writes hw [(MQNIC_QUEUE_CTRL_STATUS_REG, MQNIC_QUEUE_CMD_SET_ENABLE OR 1)] i))"

definition mqnic_disable_rx_ring :: "rx_ring \<Rightarrow> mqnic_if \<Rightarrow> rx_ring \<times> mqnic_if" where
  "mqnic_disable_rx_ring r i =
     (r\<lparr>r_enabled := False\<rparr>,
      case r_hw r of None \<Rightarrow> i | Some hw \<Rightarrow> if_writes hw [(MQNIC_QUEUE_CTRL_STATUS_REG, MQNIC_QUEUE_CMD_SET_ENABLE OR 0)] i)"

definition mqnic_close_rx_ring :: "rx_ring \<Rightarrow> mqnic_cq \<Rightarrow> dma_state \<Rightarrow> mqnic_if \<Rightarrow> rx_ring \<times> mqnic_cq \<times> dma_state \<times> mqnic_if" where
  "mqnic_close_rx_ring r cq d i =
     (let (r, i) = mqnic_disable_rx_ring r i;
          cq = (if r_cq r \<noteq> None then cq\<lparr>cq_handler := None\<rparr> else cq);
          r = r\<lparr>r_priv := False, r_cq := None, r_hw := None\<rparr>;
          (r, d, i) = (case r_buf r of
                         None \<Rightarrow> (r, d, i)
                       | Some _ \<Rightarrow> (let (_, r', d') = mqnic_free_rx_buf r d 0
                                    in (r'\<lparr>r_buf := None, r_dma := 0\<rparr>, d', i\<lparr>if_bufs := remove1 (r_dma r) (if_bufs i)\<rparr>)));
          r = r\<lparr>r_info := []\<rparr>;
          i = i\<lparr>if_rxq_res := mqnic_res_free (if_rxq_res i) (r_index r)\<rparr>
      in (r\<lparr>r_index := -1\<rparr>, cq, d, i))"

definition mqnic_open_rx_ring :: "bool \<Rightarrow> u64 option \<Rightarrow> (nat \<Rightarrow> bool \<times> u64 option) \<Rightarrow> rx_ring \<Rightarrow> bool \<Rightarrow> mqnic_cq option \<Rightarrow> nat \<Rightarrow> nat
    \<Rightarrow> dma_state \<Rightarrow> mqnic_if \<Rightarrow> errno option \<times> rx_ring \<times> mqnic_cq option \<times> dma_state \<times> mqnic_if" where
  "mqnic_open_rx_ring info_ok buf env r priv cqo siz blk d i =
     (case cqo of
        None \<Rightarrow> (Some EINVAL, r, None, d, i)
      | Some cq \<Rightarrow>
          if r_enabled r \<or> r_hw r \<noteq> None \<or> r_buf r \<noteq> None \<or> \<not> priv then (Some EINVAL, r, Some cq, d, i)
          else let (index, res) = mqnic_res_alloc (if_rxq_res i);
                   r = r\<lparr>r_index := index\<rparr>;
                   i = i\<lparr>if_rxq_res := res\<rparr>
               in if index < 0 then (Some ENOMEM, r, Some cq, d, i)
                  else let r = ring_sizes siz blk r;
                           fail = (\<lambda>e r cq d i. let (r, cq, d, i) = mqnic_close_rx_ring r cq d i in (Some e, r, Some cq, d, i))
                       in if \<not> info_ok then fail ENOMEM r cq d i
                          else let r = r\<lparr>r_info := replicate (unat (r_size r)) rx_info_zero\<rparr>
                               in case buf of
                                    None \<Rightarrow> fail ENOMEM r cq d i
                                  | Some dma \<Rightarrow>
                                      let r = r\<lparr>r_buf := Some (replicate (unat (r_size r)) (replicate (r_block r) \<lparr>d_csum = 0, d_len = 0, d_addr = 0\<rparr>)),
                                                r_dma := dma, r_priv := True, r_cq := Some (cq_id cq)\<rparr>;
                                          i = i\<lparr>if_bufs := dma # if_bufs i\<rparr>;
                                          cq = cq\<lparr>cq_handler := Some mqnic_rx_irq\<rparr>;
                                          hw = the (mqnic_res_get_addr (if_rxq_res i) index);
                                          r = r\<lparr>r_hw := Some hw, r_prod := 0, r_cons := 0\<rparr>;
                                          i = if_writes hw (queue_setup r (cq_cqn cq)) i;
                                          (ret, r, d, i) = mqnic_refill_rx_buffers env r d i
                                      in case ret of
                                           Some e \<Rightarrow> fail e r cq d i
                                         | None \<Rightarrow> (None, r, Some cq, d, i))"

definition mqnic_destroy_rx_ring :: "rx_ring \<Rightarrow> mqnic_cq \<Rightarrow> dma_state \<Rightarrow> mqnic_if \<Rightarrow> mqnic_cq \<times> dma_state \<times> mqnic_if" where
  "mqnic_destroy_rx_ring r cq d i = snd (mqnic_close_rx_ring r cq d i)"

section \<open>Reception\<close>

definition dma_sync :: "u64 \<Rightarrow> dma_state \<Rightarrow> dma_state" where
  "dma_sync a d = d\<lparr>dma_synced := dma_synced d @ [a]\<rparr>"

definition cpu_to_be16 :: "u16 \<Rightarrow> u16" where
  "cpu_to_be16 w = push_bit 8 w OR drop_bit 8 w"

text \<open>
  The environment of a poll: whether the port is up, the features, the clock, whether the \<open>j\<close>-th socket buffer can be allocated, and
  the results of the refill.
\<close>

record poll_env =
  p_port_up :: bool
  p_ptp :: bool
  p_rxcsum :: bool
  p_phc :: "(u32 \<times> u32) option"
  p_skb :: "nat \<Rightarrow> bool"
  p_pages :: "nat \<Rightarrow> bool \<times> u64 option"

text \<open>One received packet with its page; the flow of the loop is in \<open>rx_cq_loop\<close>.\<close>

definition rx_packet :: "poll_env \<Rightarrow> mqnic_cpl \<Rightarrow> nat \<Rightarrow> nat \<Rightarrow> rx_ring \<Rightarrow> dma_state \<Rightarrow> rx_ring \<times> dma_state \<times> rx_skb" where
  "rx_packet env cpl index page r d =
     (let (ts, r) = (if p_ptp env then (let (t, r) = mqnic_read_cpl_ts (p_phc env) cpl r in (Some t, r)) else (None, r));
          csum = (if p_rxcsum env then Some (cpu_to_be16 (cpl_rx_csum cpl)) else None);
          ri = r_info r ! index;
          d = dma_unmap (ri_dma ri, ri_len ri) d;
          ri = ri\<lparr>ri_dma := 0\<rparr>;
          len = min (ucast (cpl_len cpl)) (ri_len ri);
          d = dma_sync (ri_dma ri) d;
          skb = \<lparr>rs_page = page, rs_offset = ri_offset ri, rs_len = len, rs_truesize = ri_len ri, rs_csum = csum, rs_ts = ts, rs_queue = r_index r\<rparr>;
          ri = ri\<lparr>ri_page := None\<rparr>
      in (r\<lparr>r_info := (r_info r)[index := ri], r_packets := r_packets r + 1, r_bytes := r_bytes r + ucast (cpl_len cpl)\<rparr>, d, skb))"

fun rx_cq_loop :: "poll_env \<Rightarrow> mqnic_cpl list \<Rightarrow> u32 \<Rightarrow> u32 \<Rightarrow> nat \<Rightarrow> u32 \<Rightarrow> rx_ring \<Rightarrow> dma_state \<Rightarrow> nat \<Rightarrow> rx_skb list
    \<Rightarrow> u32 \<times> rx_ring \<times> dma_state \<times> nat \<times> rx_skb list" where
  "rx_cq_loop env buf siz msk 0 cons_ptr r d n skbs = (cons_ptr, r, d, n, skbs)"
| "rx_cq_loop env buf siz msk (Suc budget) cons_ptr r d n skbs =
     (let cpl = buf ! unat (cons_ptr AND msk)
      in if \<not> phase_ready (cpl_phase cpl) cons_ptr siz then (cons_ptr, r, d, n, skbs)
         else (let index = unat (ucast (cpl_index cpl) AND r_size_mask r)
               in case ri_page (r_info r ! index) of
                    None \<Rightarrow> (cons_ptr, r, d, n, skbs)
                  | Some page \<Rightarrow>
                      if \<not> p_skb env n then (cons_ptr, r, d, n, skbs)
                      else (let (r, d, skb) = rx_packet env cpl index page r d
                            in rx_cq_loop env buf siz msk budget (cons_ptr + 1) r d (Suc n) (skbs @ [skb]))))"

definition mqnic_process_rx_cq :: "poll_env \<Rightarrow> nat \<Rightarrow> mqnic_cq \<Rightarrow> rx_ring \<Rightarrow> dma_state \<Rightarrow> mqnic_if
    \<Rightarrow> nat \<times> mqnic_cq \<times> rx_ring \<times> dma_state \<times> mqnic_if \<times> rx_skb list" where
  "mqnic_process_rx_cq env budget cq r d i =
     (if \<not> r_priv r \<or> \<not> p_port_up env then (0, cq, r, d, i, [])
      else (let (cons_ptr, r, d, n, skbs) = rx_cq_loop env (the (cq_buf cq)) (cq_size cq) (cq_mask cq) budget (cq_cons cq) r d 0 [];
                cq = cq\<lparr>cq_cons := cons_ptr\<rparr>;
                i = mqnic_cq_write_cons_ptr cq i;
                r = r\<lparr>r_cons := ring_advance (\<lambda>ri. ri_page ri \<noteq> None) (r_info r) (r_size_mask r) (r_prod r) (r_cons r)\<rparr>;
                (_, r, d, i) = mqnic_refill_rx_buffers (p_pages env) r d i
            in (n, cq, r, d, i, skbs)))"

definition mqnic_poll_rx_cq :: "poll_env \<Rightarrow> nat \<Rightarrow> mqnic_cq \<Rightarrow> rx_ring \<Rightarrow> dma_state \<Rightarrow> mqnic_if
    \<Rightarrow> nat \<times> bool \<times> mqnic_cq \<times> rx_ring \<times> dma_state \<times> mqnic_if \<times> rx_skb list" where
  "mqnic_poll_rx_cq env budget cq r d i =
     (let (n, cq, r, d, i, skbs) = mqnic_process_rx_cq env budget cq r d i
      in if n = budget then (n, False, cq, r, d, i, skbs)
         else (n, True, cq, r, d, mqnic_arm_cq cq i, skbs))"

section \<open>The invariant of a ring\<close>

definition rx_occ :: "mqnic_rx_info \<Rightarrow> bool" where
  "rx_occ ri \<longleftrightarrow> ri_page ri \<noteq> None"

definition rx_maps :: "mqnic_rx_info \<Rightarrow> (u64 \<times> u32) list" where
  "rx_maps ri = [(ri_dma ri, ri_len ri)]"

interpretation rx_slots: slot_ring rx_occ rx_maps
  by unfold_locales (simp add: rx_maps_def)

definition rx_shape :: "nat \<Rightarrow> rx_ring \<Rightarrow> bool" where
  "rx_shape k r \<longleftrightarrow> r_size r = 2 ^ k \<and> r_size_mask r = mask k \<and> 0 < r_block r
     \<and> (\<exists>buf. r_buf r = Some buf \<and> length buf = 2 ^ k \<and> (\<forall>ds\<in>set buf. length ds = r_block r))"

text \<open>The first descriptor of the slot names its page.\<close>

definition rx_slot_desc :: "rx_ring \<Rightarrow> nat \<Rightarrow> bool" where
  "rx_slot_desc r j \<longleftrightarrow> (let e = the (r_buf r) ! j ! 0; ri = r_info r ! j in d_addr e = ri_dma ri \<and> d_len e = ri_len ri)"

text \<open>\<open>handed\<close> are the pages that went to the network stack.\<close>

definition rx_ring_ok :: "nat \<Rightarrow> rx_ring \<Rightarrow> dma_state \<Rightarrow> nat list \<Rightarrow> bool" where
  "rx_ring_ok k r d handed \<longleftrightarrow> rx_shape k r \<and> rx_slots.window_ok k (r_info r) (r_prod r) (r_cons r) \<and> rx_slots.dma_ok (r_info r) d
     \<and> (\<forall>j < 2 ^ k. rx_occ (r_info r ! j) \<longrightarrow> rx_slot_desc r j)
     \<and> mset [0..<dma_next d] = mset (dma_freed d) + mset handed + rx_slots.held (\<lambda>ri. [the (ri_page ri)]) (r_info r)"

lemma rx_ring_okD:
  assumes "rx_ring_ok k r d handed"
  shows "rx_shape k r" "rx_slots.window_ok k (r_info r) (r_prod r) (r_cons r)" "rx_slots.dma_ok (r_info r) d"
    "\<And>j. j < 2 ^ k \<Longrightarrow> rx_occ (r_info r ! j) \<Longrightarrow> rx_slot_desc r j"
    "mset [0..<dma_next d] = mset (dma_freed d) + mset handed + rx_slots.held (\<lambda>ri. [the (ri_page ri)]) (r_info r)"
    "length (r_info r) = 2 ^ k" "k < 32"
  using assms by (auto simp: rx_ring_ok_def rx_slots.window_ok_def)

text \<open>Emptying a slot, whoever takes the page.\<close>

lemma rx_take_ok:
  assumes "rx_ring_ok k r d handed" "j < 2 ^ k" "rx_occ (r_info r ! j)" "\<not> rx_occ x"
    and "d' = dma_unmap (ri_dma (r_info r ! j), ri_len (r_info r ! j)) d" "mset fs + mset hs = {#the (ri_page (r_info r ! j))#}"
    and e: "dma_live e = dma_live d'" "dma_bad e = dma_bad d'" "dma_next e = dma_next d'" "dma_freed e = dma_freed d @ fs"
  shows "rx_ring_ok k (r\<lparr>r_info := (r_info r)[j := x]\<rparr>) e (handed @ hs)"
proof -
  note i = rx_ring_okD [OF assms(1)]
  have j: "j < length (r_info r)" using assms(2) i(6) by simp
  have d: "d' = fold dma_unmap (rx_maps (r_info r ! j)) d" using assms(5) by (simp add: rx_maps_def)
  note f = rx_slots.dma_free [OF i(3) j assms(3,4), folded d]
  have "rx_slot_desc (r\<lparr>r_info := (r_info r)[j := x]\<rparr>) l" if "l < 2 ^ k" "rx_occ ((r_info r)[j := x] ! l)" for l
    using that assms(4) j i(4) [OF that(1)] by (cases "l = j") (auto simp: rx_slot_desc_def Let_def)
  moreover have "mset [0..<dma_next e] = mset (dma_freed e) + mset (handed @ hs) + rx_slots.held (\<lambda>ri. [the (ri_page ri)]) ((r_info r)[j := x])"
    using i(5) f(3) f(4) [of "\<lambda>ri. [the (ri_page ri)]"] assms(6) by (simp add: e ac_simps del: mset_upt)
  ultimately show ?thesis
    using i(1) rx_slots.window_clear [OF i(2) assms(4)] f(1) unfolding rx_ring_ok_def
    by (simp add: rx_shape_def e rx_slots.dma_ok_def)
qed

lemma free_rx_desc_ok:
  assumes "rx_ring_ok k r d handed" "j < 2 ^ k" "mqnic_free_rx_desc j r d = (r', d')"
  shows "rx_ring_ok k r' d' handed" "\<not> rx_occ (r_info r' ! j)" "r_prod r' = r_prod r" "r_cons r' = r_cons r"
    "r_index r' = r_index r" "r_hw r' = r_hw r" "r_enabled r' = r_enabled r"
proof -
  let ?x = "(r_info r ! j)\<lparr>ri_dma := 0, ri_page := None\<rparr>"
  note i = rx_ring_okD [OF assms(1)]
  show "r_prod r' = r_prod r" "r_cons r' = r_cons r" "r_index r' = r_index r" "r_hw r' = r_hw r" "r_enabled r' = r_enabled r"
    using assms(3) by (auto simp: mqnic_free_rx_desc_def Let_def split: if_splits)
  show "\<not> rx_occ (r_info r' ! j)" using assms(2,3) i(6) by (auto simp: mqnic_free_rx_desc_def rx_occ_def Let_def split: if_splits)
  show "rx_ring_ok k r' d' handed"
  proof (cases "rx_occ (r_info r ! j)")
    case True
    then obtain p where p: "ri_page (r_info r ! j) = Some p" by (auto simp: rx_occ_def)
    have "r' = r\<lparr>r_info := (r_info r)[j := ?x]\<rparr>" "d' = give_back (Some p) (dma_unmap (ri_dma (r_info r ! j), ri_len (r_info r ! j)) d)"
      using assms(3) p by (simp_all add: mqnic_free_rx_desc_def Let_def)
    then show ?thesis
      using rx_take_ok [OF assms(1,2) True, where x = ?x and fs = "[p]" and hs = "[]" and e = d', OF _ refl] p
      by (simp add: rx_occ_def give_back_def)
  next
    case False
    then show ?thesis using assms(1,3) by (simp add: mqnic_free_rx_desc_def rx_occ_def)
  qed
qed

lemma free_rx_buf_ok:
  assumes "rx_ring_ok k r d handed" "mqnic_free_rx_buf r d cnt = (cnt', r', d')"
  shows "rx_ring_ok k r' d' handed \<and> r_prod r' = r_cons r' \<and> r_index r' = r_index r"
  using assms
proof (induction "unat (r_prod r - r_cons r)" arbitrary: r d cnt)
  case 0
  then have "r_prod r = r_cons r" by (simp add: unat_eq_0)
  then show ?case using 0 by (simp add: mqnic_free_rx_buf.simps [of r d cnt] mqnic_is_rx_ring_empty_def)
next
  case (Suc n)
  note o = rx_ring_okD [OF Suc.prems(1)]
  have ne: "r_prod r \<noteq> r_cons r" using Suc.hyps(2) by auto
  let ?j = "unat (r_cons r AND mask k)"
  have j: "?j < 2 ^ k" by (simp add: unat_and_mask)
  obtain r1 d1 where f: "mqnic_free_rx_desc ?j r d = (r1, d1)" by (cases "mqnic_free_rx_desc ?j r d")
  note g = free_rx_desc_ok [OF Suc.prems(1) j f]
  note o1 = rx_ring_okD [OF g(1)]
  let ?r = "r1\<lparr>r_cons := r_cons r + 1\<rparr>"
  have w: "rx_slots.window_ok k (r_info r1) (r_prod r1) (r_cons r + 1)"
    using rx_slots.window_pop(1) [OF o1(2)] ne g(2-4) by simp
  have ok: "rx_ring_ok k ?r d1 handed" using o1 w unfolding rx_ring_ok_def by (simp add: rx_shape_def rx_slot_desc_def)
  have "r_prod r - r_cons r \<noteq> 0" using ne by simp
  then have "n = unat (r_prod ?r - r_cons ?r)" using Suc.hyps(2) unat_minus_one [of "r_prod r - r_cons r"] g(3) by (simp add: diff_diff_eq)
  moreover have "mqnic_free_rx_buf r d cnt = mqnic_free_rx_buf ?r d1 (Suc cnt)"
    using ne f o(1) by (simp add: mqnic_free_rx_buf.simps [of r d cnt] mqnic_is_rx_ring_empty_def rx_shape_def)
  ultimately show ?case using Suc.hyps(1) [OF _ ok, of "Suc cnt"] Suc.prems(2) g(5) by simp
qed

text \<open>Closing a ring in any state removes every mapping, and every page is with the network stack or freed.\<close>

lemma close_rx_ring_ok:
  assumes "rx_ring_ok k r d handed" "mqnic_close_rx_ring r cq d i = (r', cq', d', i')"
  shows "dma_live d' = []" "\<not> dma_bad d'" "mset [0..<dma_next d'] = mset (dma_freed d') + mset handed"
    "if_rxq_res i' = mqnic_res_free (if_rxq_res i) (r_index r)"
proof -
  let ?r = "r\<lparr>r_enabled := False, r_priv := False, r_cq := None, r_hw := None\<rparr>"
  obtain buf where b: "r_buf r = Some buf" using rx_ring_okD(1) [OF assms(1)] by (auto simp: rx_shape_def)
  have ok: "rx_ring_ok k ?r d handed" using assms(1) by (simp add: rx_ring_ok_def rx_shape_def rx_slot_desc_def)
  obtain n r1 d1 where f: "mqnic_free_rx_buf ?r d 0 = (n, r1, d1)" by (cases "mqnic_free_rx_buf ?r d 0")
  have F: "rx_ring_ok k r1 d1 handed" "r_prod r1 = r_cons r1" "r_index r1 = r_index r" using free_rx_buf_ok [OF ok f] by simp_all
  note o = rx_ring_okD [OF F(1)]
  have h: "rx_slots.held g (r_info r1) = {#}" for g :: "mqnic_rx_info \<Rightarrow> 'z list"
    using rx_slots.window_empty [of k "r_info r1" "r_cons r1" g] o(2) F(2) by simp
  have d: "d' = d1" "if_rxq_res i' = mqnic_res_free (if_rxq_res i) (r_index r1)"
    using assms(2) b f by (auto simp: mqnic_close_rx_ring_def mqnic_disable_rx_ring_def Let_def if_writes_def split: option.splits)
  show "dma_live d' = []" "\<not> dma_bad d'" "mset [0..<dma_next d'] = mset (dma_freed d') + mset handed"
    using o(3,5) d(1) by (simp_all add: rx_slots.dma_ok_def h del: mset_upt)
  show "if_rxq_res i' = mqnic_res_free (if_rxq_res i) (r_index r)" using d(2) F(3) by simp
qed

section \<open>Refilling\<close>

lemma prepare_rx_desc_ok:
  assumes "rx_ring_ok k r d handed" "unat (r_prod r - r_cons r) < 2 ^ k"
    and "mqnic_prepare_rx_desc page_ok mp (unat (r_prod r AND mask k)) r d = (ret, r', d')"
  shows "ret \<noteq> None \<Longrightarrow> rx_ring_ok k r' d' handed" "ret = None \<Longrightarrow> rx_ring_ok k (r'\<lparr>r_prod := r_prod r' + 1\<rparr>) d' handed"
    "r_prod r' = r_prod r" "r_cons r' = r_cons r" "r_priv r' = r_priv r" "ret = None \<longleftrightarrow> page_ok \<and> mp \<noteq> None"
    "\<And>j. rx_occ (r_info r ! j) \<Longrightarrow> rx_occ (r_info r' ! j)"
proof -
  note i = rx_ring_okD [OF assms(1)]
  define j where "j = unat (r_prod r AND mask k)"
  have jl: "j < length (r_info r)" "j < 2 ^ k" using rx_slots.slot_less [OF i(2)] i(6) by (simp_all add: j_def)
  have free: "\<not> rx_occ (r_info r ! j)" using rx_slots.free_slot_prod [OF i(2) assms(2)] by (simp add: j_def)
  then have np: "ri_page (r_info r ! j) = None" by (simp add: rx_occ_def)
  obtain buf where b: "r_buf r = Some buf" "length buf = 2 ^ k" "\<And>ds. ds \<in> set buf \<Longrightarrow> length ds = r_block r" "0 < r_block r"
    using i(1) by (auto simp: rx_shape_def)
  let ?len = "push_bit (r_page_order r) 4096 :: u32"
  show "r_prod r' = r_prod r" "r_cons r' = r_cons r" "r_priv r' = r_priv r" "ret = None \<longleftrightarrow> page_ok \<and> mp \<noteq> None"
    using assms(3) np by (auto simp: mqnic_prepare_rx_desc_def j_def [symmetric] Let_def split: if_splits option.splits)
  show "rx_occ (r_info r' ! l)" if "rx_occ (r_info r ! l)" for l
    using assms(3) np that free by (cases "l = j") (auto simp: mqnic_prepare_rx_desc_def j_def [symmetric] Let_def split: if_splits option.splits)
  show "rx_ring_ok k r' d' handed" if "ret \<noteq> None"
  proof -
    have "r' = r" "d' = d \<or> d' = give_back (Some (dma_next d)) (d\<lparr>dma_next := Suc (dma_next d)\<rparr>)"
      using assms(3) np that by (auto simp: mqnic_prepare_rx_desc_def j_def [symmetric] Let_def split: if_splits option.splits)
    then show ?thesis using assms(1) by (auto simp: rx_ring_ok_def give_back_def rx_slots.dma_ok_def simp del: mset_upt)
  qed
  show "rx_ring_ok k (r'\<lparr>r_prod := r_prod r' + 1\<rparr>) d' handed" if none: "ret = None"
  proof -
    obtain a where m: "mp = Some a" "page_ok"
      using assms(3) np none by (auto simp: mqnic_prepare_rx_desc_def j_def [symmetric] Let_def split: if_splits option.splits)
    let ?ri = "\<lparr>ri_page = Some (dma_next d), ri_order = r_page_order r, ri_offset = 0, ri_dma = a, ri_len = ?len\<rparr>"
    let ?ds = "(buf ! j)[0 := (buf ! j ! 0)\<lparr>d_len := ?len, d_addr := a\<rparr>]"
    have r: "r' = r\<lparr>r_buf := Some (buf[j := ?ds]), r_info := (r_info r)[j := ?ri]\<rparr>" "d' = dma_map (a, ?len) (d\<lparr>dma_next := Suc (dma_next d)\<rparr>)"
      using assms(3) np m b(1) by (simp_all add: mqnic_prepare_rx_desc_def j_def [symmetric] Let_def)
    have lb: "length (buf ! j) = r_block r" using b(2,3) jl(2) by simp
    have occ: "rx_occ ?ri" by (simp add: rx_occ_def)
    have h: "rx_slots.held f ((r_info r)[j := ?ri]) = rx_slots.held f (r_info r) + mset (f ?ri)" for f :: "mqnic_rx_info \<Rightarrow> 'z list"
      using rx_slots.held_update [OF jl(1), of f ?ri] free occ by simp
    have "rx_shape k r'" using i(1) b lb by (auto simp: rx_shape_def r dest!: set_update_subset_insert [THEN subsetD])
    moreover have "rx_slots.window_ok k (r_info r') (r_prod r' + 1) (r_cons r')"
      using rx_slots.window_fill(1) [OF i(2) assms(2)] by (simp add: r j_def)
    moreover have "rx_slot_desc r' l" if "l < 2 ^ k" "rx_occ (r_info r' ! l)" for l
      using that jl b lb i(4) [OF that(1)] by (cases "l = j") (auto simp: r rx_slot_desc_def Let_def)
    moreover have "rx_slots.dma_ok (r_info r') d'" using i(3) h [of rx_maps] by (simp add: r dma_map_def rx_slots.dma_ok_def rx_maps_def)
    moreover have "mset [0..<dma_next d'] = mset (dma_freed d') + mset handed + rx_slots.held (\<lambda>ri. [the (ri_page ri)]) (r_info r')"
      using i(5) h [of "\<lambda>ri. [the (ri_page ri)]"] by (simp add: r dma_map_def del: mset_upt)
    ultimately show ?thesis unfolding rx_ring_ok_def by (simp add: rx_shape_def rx_slot_desc_def del: mset_upt)
  qed
qed

lemma refill_loop_ok:
  assumes "rx_ring_ok k r d handed" "unat (r_prod r - r_cons r) + missing \<le> 2 ^ k" "refill_loop env j missing r d = (ret, r', d')"
  shows "rx_ring_ok k r' d' handed \<and> r_cons r' = r_cons r \<and> r_priv r' = r_priv r \<and> (\<forall>l. rx_occ (r_info r ! l) \<longrightarrow> rx_occ (r_info r' ! l))
    \<and> (ret = None \<longleftrightarrow> (\<forall>l < missing. fst (env (j + l)) \<and> snd (env (j + l)) \<noteq> None))
    \<and> (ret = None \<longrightarrow> unat (r_prod r' - r_cons r') = unat (r_prod r - r_cons r) + missing)"
  using assms
proof (induction missing arbitrary: r d j)
  case (Suc missing)
  note i = rx_ring_okD [OF Suc.prems(1)]
  have room: "unat (r_prod r - r_cons r) < 2 ^ k" using Suc.prems(2) by simp
  obtain e r1 d1 where p: "mqnic_prepare_rx_desc (fst (env j)) (snd (env j)) (unat (r_prod r AND mask k)) r d = (e, r1, d1)"
    by (cases "mqnic_prepare_rx_desc (fst (env j)) (snd (env j)) (unat (r_prod r AND mask k)) r d")
  note P = prepare_rx_desc_ok [OF Suc.prems(1) room p]
  have msk: "r_size_mask r = mask k" using i(1) by (simp add: rx_shape_def)
  show ?case
  proof (cases e)
    case (Some x)
    then have "\<not> (fst (env (j + 0)) \<and> snd (env (j + 0)) \<noteq> None)" using P(6) by simp
    then have "\<not> (\<forall>l < Suc missing. fst (env (j + l)) \<and> snd (env (j + l)) \<noteq> None)" by blast
    then show ?thesis using Suc.prems(3) p P Some msk by auto
  next
    case None
    let ?r = "r1\<lparr>r_prod := r_prod r1 + 1\<rparr>"
    have l: "refill_loop env (Suc j) missing ?r d1 = (ret, r', d')" using Suc.prems(3) p None msk by simp
    have u: "unat (r_prod ?r - r_cons ?r) = Suc (unat (r_prod r - r_cons r))" using rx_slots.window_fill(2) [OF i(2) room] P(3,4) by simp
    have IH: "rx_ring_ok k r' d' handed \<and> r_cons r' = r_cons ?r \<and> r_priv r' = r_priv ?r \<and> (\<forall>l. rx_occ (r_info ?r ! l) \<longrightarrow> rx_occ (r_info r' ! l))
      \<and> (ret = None \<longleftrightarrow> (\<forall>l < missing. fst (env (Suc j + l)) \<and> snd (env (Suc j + l)) \<noteq> None))
      \<and> (ret = None \<longrightarrow> unat (r_prod r' - r_cons r') = unat (r_prod ?r - r_cons ?r) + missing)"
      by (rule Suc.IH [OF P(2) [OF None] _ l]) (use u Suc.prems(2) in simp)
    have "(\<forall>l < Suc missing. fst (env (j + l)) \<and> snd (env (j + l)) \<noteq> None)
        \<longleftrightarrow> (\<forall>l < missing. fst (env (Suc j + l)) \<and> snd (env (Suc j + l)) \<noteq> None)"
      using P(6) None by (auto simp: All_less_Suc2)
    then show ?thesis using IH u P by auto
  qed
qed simp

text \<open>A refill fills the ring when every page can be allocated and mapped; it never meets a slot that still has a page.\<close>

lemma refill_ok:
  assumes "rx_ring_ok k r d handed" "mqnic_refill_rx_buffers env r d i = (ret, r', d', i')"
  shows "rx_ring_ok k r' d' handed" "r_cons r' = r_cons r" "r_priv r' = r_priv r" "\<And>l. rx_occ (r_info r ! l) \<Longrightarrow> rx_occ (r_info r' ! l)"
    "(\<And>l. fst (env l) \<and> snd (env l) \<noteq> None) \<Longrightarrow> ret = None \<and> 2 ^ k < unat (r_prod r' - r_cons r') + 8"
proof -
  note o = rx_ring_okD [OF assms(1)]
  have s: "r_size r = 2 ^ k" and w: "unat (r_prod r - r_cons r) \<le> 2 ^ k" using o(1,2) by (simp_all add: rx_shape_def rx_slots.window_ok_def)
  have m: "unat (r_size r - (r_prod r - r_cons r)) = 2 ^ k - unat (r_prod r - r_cons r)"
    using w unat_pow2_u32 [OF o(7)] unfolding s by (subst unat_sub) (simp_all add: word_le_nat_alt)
  have "rx_ring_ok k r' d' handed \<and> r_cons r' = r_cons r \<and> r_priv r' = r_priv r \<and> (\<forall>l. rx_occ (r_info r ! l) \<longrightarrow> rx_occ (r_info r' ! l))
    \<and> ((\<forall>l. fst (env l) \<and> snd (env l) \<noteq> None) \<longrightarrow> ret = None \<and> 2 ^ k < unat (r_prod r' - r_cons r') + 8)"
  proof (cases "r_size r - (r_prod r - r_cons r) < 8")
    case True
    then have "2 ^ k - unat (r_prod r - r_cons r) < 8" using m by (simp add: word_less_nat_alt)
    then show ?thesis using assms True by (auto simp: mqnic_refill_rx_buffers_def)
  next
    case False
    obtain e r1 d1 where l: "refill_loop env 0 (unat (r_size r - (r_prod r - r_cons r))) r d = (e, r1, d1)"
      by (cases "refill_loop env 0 (unat (r_size r - (r_prod r - r_cons r))) r d")
    have "unat (r_prod r - r_cons r) + unat (r_size r - (r_prod r - r_cons r)) \<le> 2 ^ k" using m w by simp
    note L = refill_loop_ok [OF assms(1) this l]
    have "e = ret" "r1 = r'" "d1 = d'" using assms(2) False l by (auto simp: mqnic_refill_rx_buffers_def)
    then show ?thesis using L m w by auto
  qed
  then show "rx_ring_ok k r' d' handed" "r_cons r' = r_cons r" "r_priv r' = r_priv r" "\<And>l. rx_occ (r_info r ! l) \<Longrightarrow> rx_occ (r_info r' ! l)"
    "(\<And>l. fst (env l) \<and> snd (env l) \<noteq> None) \<Longrightarrow> ret = None \<and> 2 ^ k < unat (r_prod r' - r_cons r') + 8" by blast+
qed

section \<open>Reception keeps the invariant\<close>

lemma rx_ring_ok_ts: "rx_ring_ok k (snd (mqnic_read_cpl_ts phc cpl r)) d handed \<longleftrightarrow> rx_ring_ok k r d handed"
  by (simp add: rx_ring_ok_def rx_shape_def rx_slot_desc_def)

text \<open>The socket buffer that belongs to a completion: the page of the slot, and the length of the packet, bounded by the page.\<close>

definition skb_of :: "nat \<Rightarrow> rx_ring \<Rightarrow> mqnic_cpl \<Rightarrow> rx_skb \<Rightarrow> bool" where
  "skb_of k r e s \<longleftrightarrow> (let ri = r_info r ! cpl_slot k e in ri_page ri = Some (rs_page s) \<and> rs_len s = min (ucast (cpl_len e)) (ri_len ri) \<and> rs_truesize s = ri_len ri)"

lemma rx_packet_ok:
  assumes "rx_ring_ok k r d handed" "ri_page (r_info r ! cpl_slot k e) = Some page"
    and "rx_packet env e (cpl_slot k e) page r d = (r', d', skb)"
  shows "rx_ring_ok k r' d' (handed @ [page])" "skb_of k r e skb" "rs_page skb = page"
    "r_prod r' = r_prod r" "r_cons r' = r_cons r" "r_priv r' = r_priv r" "dma_synced d' = dma_synced d @ [0]"
    "\<exists>x. \<not> rx_occ x \<and> r_info r' = (r_info r)[cpl_slot k e := x]"
proof -
  let ?j = "cpl_slot k e"
  define r1 where "r1 = (if p_ptp env then snd (mqnic_read_cpl_ts (p_phc env) e r) else r)"
  have ok1: "rx_ring_ok k r1 d handed" using assms(1) by (simp add: r1_def rx_ring_ok_ts)
  have keep: "r_info r1 = r_info r" "r_prod r1 = r_prod r" "r_cons r1 = r_cons r" "r_priv r1 = r_priv r" by (simp_all add: r1_def)
  let ?x = "(r_info r ! ?j)\<lparr>ri_dma := 0, ri_page := None\<rparr>"
  have res: "r' = r1\<lparr>r_info := (r_info r)[?j := ?x], r_packets := r_packets r1 + 1, r_bytes := r_bytes r1 + ucast (cpl_len e)\<rparr>"
      "d' = dma_sync 0 (dma_unmap (ri_dma (r_info r ! ?j), ri_len (r_info r ! ?j)) d)"
      "rs_page skb = page" "rs_len skb = min (ucast (cpl_len e)) (ri_len (r_info r ! ?j))" "rs_truesize skb = ri_len (r_info r ! ?j)"
    using assms(3) by (auto simp: rx_packet_def r1_def keep Let_def case_prod_beta split: if_splits)
  have occ: "rx_occ (r_info r1 ! ?j)" and x: "\<not> rx_occ ?x" using assms(2) by (simp_all add: keep rx_occ_def)
  have "rx_ring_ok k (r1\<lparr>r_info := (r_info r1)[?j := ?x]\<rparr>) d' (handed @ [page])"
    by (rule rx_take_ok [OF ok1 cpl_slot_less occ x refl, where fs = "[]"]) (simp_all add: assms(2) keep res(2) dma_sync_def)
  then show "rx_ring_ok k r' d' (handed @ [page])" by (simp add: res(1) keep rx_ring_ok_def rx_shape_def rx_slot_desc_def)
  show "skb_of k r e skb" using assms(2) res by (simp add: skb_of_def)
  show "rs_page skb = page" "r_prod r' = r_prod r" "r_cons r' = r_cons r" "r_priv r' = r_priv r" "dma_synced d' = dma_synced d @ [0]"
    using res by (simp_all add: keep dma_sync_def)
  show "\<exists>x. \<not> rx_occ x \<and> r_info r' = (r_info r)[?j := x]" using x res(1) by auto
qed

lemma rx_cq_loop_ok:
  assumes "rx_ring_ok k r d handed" "rx_cq_loop env buf siz msk budget c r d n skbs = (c', r', d', n', skbs')"
    and "cpls = ready_cpls buf siz msk budget c" "distinct (map (cpl_slot k) cpls)" "\<forall>e\<in>set cpls. rx_occ (r_info r ! cpl_slot k e)"
  shows "\<exists>new. skbs' = skbs @ new \<and> length new \<le> length cpls \<and> rx_ring_ok k r' d' (handed @ map rs_page new)
    \<and> c' = c + of_nat (length new) \<and> n' = n + length new \<and> r_prod r' = r_prod r \<and> r_cons r' = r_cons r \<and> r_priv r' = r_priv r
    \<and> list_all2 (skb_of k r) (take (length new) cpls) new \<and> ((\<forall>l. p_skb env l) \<longrightarrow> length new = length cpls)
    \<and> (\<forall>j < 2 ^ k. rx_occ (r_info r' ! j) \<longleftrightarrow> rx_occ (r_info r ! j) \<and> j \<notin> cpl_slot k ` set (take (length new) cpls))"
  using assms
proof (induction budget arbitrary: c r d n skbs cpls handed)
  case 0
  then show ?case by (intro exI [of _ "[]"]) simp
next
  case (Suc budget)
  let ?e = "buf ! unat (c AND msk)"
  let ?j = "cpl_slot k ?e"
  note o = rx_ring_okD [OF Suc.prems(1)]
  have ix: "unat (ucast (cpl_index e) AND r_size_mask r) = cpl_slot k e" for e using o(1) by (simp add: rx_shape_def cpl_slot_def)
  show ?case
  proof (cases "phase_ready (cpl_phase ?e) c siz \<and> p_skb env n")
    case False
    have "c' = c \<and> r' = r \<and> d' = d \<and> n' = n \<and> skbs' = skbs \<and> ((\<forall>l. p_skb env l) \<longrightarrow> cpls = [])"
      using False Suc.prems(2,3) by (auto simp: Let_def split: if_splits option.splits)
    then show ?thesis using Suc.prems(1) by (intro exI [of _ "[]"]) simp
  next
    case True
    define rest where "rest = ready_cpls buf siz msk budget (c + 1)"
    have cpls: "cpls = ?e # rest" using Suc.prems(3) True by (simp add: rest_def Let_def)
    obtain page where page: "ri_page (r_info r ! ?j) = Some page" using Suc.prems(5) cpls by (auto simp: rx_occ_def)
    obtain r1 d1 skb where p: "rx_packet env ?e ?j page r d = (r1, d1, skb)" by (cases "rx_packet env ?e ?j page r d")
    note P = rx_packet_ok [OF Suc.prems(1) page p]
    obtain x where x: "\<not> rx_occ x" "r_info r1 = (r_info r)[?j := x]" using P(8) by blast
    have l: "rx_cq_loop env buf siz msk budget (c + 1) r1 d1 (Suc n) (skbs @ [skb]) = (c', r', d', n', skbs')"
      using Suc.prems(2) True page p by (simp add: Let_def ix)
    have di: "distinct (map (cpl_slot k) rest)" "?j \<notin> cpl_slot k ` set rest" using Suc.prems(4) cpls by auto
    have same: "r_info r1 ! cpl_slot k e = r_info r ! cpl_slot k e" if "e \<in> set rest" for e
      using di(2) imageI [OF that, of "cpl_slot k"] unfolding x(2) by (intro nth_list_update_neq) metis
    have occ: "\<forall>e\<in>set rest. rx_occ (r_info r1 ! cpl_slot k e)" using Suc.prems(5) cpls same by auto
    from Suc.IH [OF P(1) l rest_def di(1) occ] obtain new where N: "skbs' = (skbs @ [skb]) @ new" "length new \<le> length rest"
      "rx_ring_ok k r' d' ((handed @ [page]) @ map rs_page new)" "c' = c + 1 + of_nat (length new)" "n' = Suc n + length new"
      "r_prod r' = r_prod r1" "r_cons r' = r_cons r1" "r_priv r' = r_priv r1" "list_all2 (skb_of k r1) (take (length new) rest) new"
      "(\<forall>l. p_skb env l) \<longrightarrow> length new = length rest"
      "\<forall>j < 2 ^ k. rx_occ (r_info r' ! j) \<longleftrightarrow> rx_occ (r_info r1 ! j) \<and> j \<notin> cpl_slot k ` set (take (length new) rest)" by blast
    have "list_all2 (skb_of k r) (take (length new) rest) new"
      by (rule list.rel_mono_strong [OF N(9)]) (use same in \<open>auto simp: skb_of_def dest: in_set_takeD\<close>)
    moreover have "rx_occ (r_info r1 ! j) \<longleftrightarrow> rx_occ (r_info r ! j) \<and> j \<noteq> ?j" if "j < 2 ^ k" for j
      using that o(6) x by (cases "j = ?j") simp_all
    ultimately show ?thesis using N P by (intro exI [of _ "skb # new"]) (auto simp: cpls)
  qed
qed

lemma rx_poll_ok:
  assumes "rx_ring_ok k r d handed" "cq_ready kc cq n" "distinct (map (cpl_slot k) (cq_waiting cq n))"
    and "\<forall>e\<in>set (cq_waiting cq n). rx_occ (r_info r ! cpl_slot k e)"
    and "mqnic_poll_rx_cq env budget cq r d i = (m, fin, cq', r', d', i', skbs)"
  shows "rx_ring_ok k r' d' (handed @ map rs_page skbs) \<and> m = length skbs \<and> m \<le> n \<and> cq_ready kc cq' (n - m)
    \<and> cq_waiting cq' (n - m) = drop m (cq_waiting cq n) \<and> list_all2 (skb_of k r) (take m (cq_waiting cq n)) skbs
    \<and> (\<forall>e\<in>set (drop m (cq_waiting cq n)). rx_occ (r_info r' ! cpl_slot k e))
    \<and> (r_priv r \<and> p_port_up env \<and> (\<forall>l. p_skb env l) \<longrightarrow> m = min budget n)"
proof (cases "r_priv r \<and> p_port_up env")
  case False
  then have "m = 0" "skbs = []" "cq' = cq" "r' = r" "d' = d"
    using assms(5) by (auto simp: mqnic_poll_rx_cq_def mqnic_process_rx_cq_def split: if_splits)
  then show ?thesis using assms(1,2,4) False by auto
next
  case True
  have cq: "cq_size cq = 2 ^ kc" "cq_mask cq = mask kc" "cq_ring.ring_ok kc (the (cq_buf cq)) (cq_cons cq) n"
    using assms(2) by (simp_all add: cq_ready_def)
  define cpls where "cpls = ready_cpls (the (cq_buf cq)) (cq_size cq) (cq_mask cq) budget (cq_cons cq)"
  have cpls: "cpls = take budget (cq_waiting cq n)"
    unfolding cpls_def cq(1,2) cq_waiting_entries [OF assms(2)] by (rule ready_cpls_entries [OF cq(3)])
  have len: "length (cq_waiting cq n) = n" by (simp add: cq_waiting_def)
  obtain c1 r1 d1 n1 s1 where l: "rx_cq_loop env (the (cq_buf cq)) (cq_size cq) (cq_mask cq) budget (cq_cons cq) r d 0 [] = (c1, r1, d1, n1, s1)"
    by (cases "rx_cq_loop env (the (cq_buf cq)) (cq_size cq) (cq_mask cq) budget (cq_cons cq) r d 0 []")
  have "distinct (map (cpl_slot k) cpls)" using assms(3) by (simp add: cpls take_map [symmetric])
  moreover have "\<forall>e\<in>set cpls. rx_occ (r_info r ! cpl_slot k e)" using assms(4) by (auto simp: cpls dest: in_set_takeD)
  ultimately obtain new where N: "s1 = new" "length new \<le> length cpls" "rx_ring_ok k r1 d1 (handed @ map rs_page new)"
      "c1 = cq_cons cq + of_nat (length new)" "n1 = length new" "r_prod r1 = r_prod r" "r_cons r1 = r_cons r" "r_priv r1 = r_priv r"
      "list_all2 (skb_of k r) (take (length new) cpls) new" "(\<forall>l. p_skb env l) \<longrightarrow> length new = length cpls"
      "\<forall>j < 2 ^ k. rx_occ (r_info r1 ! j) \<longleftrightarrow> rx_occ (r_info r ! j) \<and> j \<notin> cpl_slot k ` set (take (length new) cpls)"
    using rx_cq_loop_ok [OF assms(1) l cpls_def] by auto
  note o = rx_ring_okD [OF N(3)]
  have occ: "(\<lambda>ri. ri_page ri \<noteq> None) = rx_occ" by (simp add: fun_eq_iff rx_occ_def)
  define r2 where "r2 = r1\<lparr>r_cons := ring_advance rx_occ (r_info r1) (mask k) (r_prod r1) (r_cons r1)\<rparr>"
  have ok2: "rx_ring_ok k r2 d1 (handed @ map rs_page new)"
    using N(3) rx_slots.window_advance [OF o(2)] unfolding rx_ring_ok_def by (simp add: r2_def rx_shape_def rx_slot_desc_def)
  define i1 where "i1 = mqnic_cq_write_cons_ptr (cq\<lparr>cq_cons := c1\<rparr>) i"
  obtain ret r3 d3 i3 where f: "mqnic_refill_rx_buffers (p_pages env) r2 d1 i1 = (ret, r3, d3, i3)"
    by (cases "mqnic_refill_rx_buffers (p_pages env) r2 d1 i1")
  note F = refill_ok [OF ok2 f]
  have msk: "r_size_mask r1 = mask k" using o(1) by (simp add: rx_shape_def)
  have res: "m = length new" "cq' = cq\<lparr>cq_cons := c1\<rparr>" "r' = r3" "d' = d3" "skbs = new"
    using assms(5) True l f N(1,5)
    by (auto simp: mqnic_poll_rx_cq_def mqnic_process_rx_cq_def Let_def msk r2_def i1_def occ [unfolded not_None_eq] occ split: if_splits prod.splits)
  have le: "length new \<le> n" "length new \<le> budget" using N(2) len by (auto simp: cpls)
  then have tk: "take (length new) cpls = take (length new) (cq_waiting cq n)" by (simp add: cpls min_def)
  have "rx_occ (r_info r' ! cpl_slot k e)" if "e \<in> set (drop m (cq_waiting cq n))" for e
  proof -
    have "cpl_slot k e \<notin> cpl_slot k ` set (take m (cq_waiting cq n))" by (rule distinct_map_take_drop [OF assms(3) that])
    then have "rx_occ (r_info r1 ! cpl_slot k e)" using N(11) assms(4) in_set_dropD [OF that] tk res(1) by simp
    then show ?thesis using F(4) res(3) by (simp add: r2_def)
  qed
  then show ?thesis
    using F(1) N(9,10) res le len tk cq_pop_ready [OF assms(2) le(1)] N(4) by (auto simp: cpls)
qed

section \<open>The driver and the device\<close>

text \<open>
  The state of a ring with its completion queue, in which the device has written \<open>q_n\<close> completions that the driver has not
  read. \<open>q_up\<close> are the socket buffers that went to the network stack.
\<close>

record rx_sys =
  q_ring :: rx_ring
  q_cq :: mqnic_cq
  q_n :: nat
  q_dma :: dma_state
  q_if :: mqnic_if
  q_up :: "rx_skb list"

datatype rx_event = Receive mqnic_cpl | PollRx poll_env nat

fun rx_exec :: "rx_event \<Rightarrow> rx_sys \<Rightarrow> rx_sys option" where
  "rx_exec (Receive e) s = Some (s\<lparr>q_cq := cq_device_push e (q_cq s) (q_n s), q_n := Suc (q_n s)\<rparr>)"
| "rx_exec (PollRx env budget) s =
     (let (m, _, cq, r, d, i, skbs) = mqnic_poll_rx_cq env budget (q_cq s) (q_ring s) (q_dma s) (q_if s)
      in Some (s\<lparr>q_ring := r, q_cq := cq, q_n := q_n s - m, q_dma := d, q_if := i, q_up := q_up s @ skbs\<rparr>))"

text \<open>The device completes a slot with a page that it has not completed yet, in any order, and does not overrun the completion queue.\<close>

fun rx_allowed :: "rx_sys \<Rightarrow> rx_event \<Rightarrow> bool" where
  "rx_allowed s (Receive e) \<longleftrightarrow> q_n s < unat (cq_size (q_cq s)) \<and> rx_occ (r_info (q_ring s) ! cpl_ring_index (q_ring s) e)
     \<and> cpl_ring_index (q_ring s) e \<notin> cpl_ring_index (q_ring s) ` set (cq_waiting (q_cq s) (q_n s))"
| "rx_allowed s (PollRx env budget) \<longleftrightarrow> True"

definition rx_inv :: "nat \<Rightarrow> nat \<Rightarrow> rx_sys \<Rightarrow> bool" where
  "rx_inv k kc s \<longleftrightarrow> rx_ring_ok k (q_ring s) (q_dma s) (map rs_page (q_up s)) \<and> cq_ready kc (q_cq s) (q_n s)
     \<and> distinct (map (cpl_slot k) (cq_waiting (q_cq s) (q_n s)))
     \<and> (\<forall>e\<in>set (cq_waiting (q_cq s) (q_n s)). rx_occ (r_info (q_ring s) ! cpl_slot k e))
     \<and> (\<forall>skb\<in>set (q_up s). rs_len skb \<le> rs_truesize skb)"

lemma skb_of_len: "list_all2 (skb_of k r) es ss \<Longrightarrow> skb \<in> set ss \<Longrightarrow> rs_len skb \<le> rs_truesize skb"
  by (auto simp: list_all2_conv_all_nth in_set_conv_nth skb_of_def Let_def)

interpretation rx_system: invariant_system rx_exec rx_allowed "rx_inv k kc"
proof
  fix s l t assume inv: "rx_inv k kc s" and al: "rx_allowed s l" and ex: "rx_exec l s = Some t"
  have ok: "rx_ring_ok k (q_ring s) (q_dma s) (map rs_page (q_up s))" and cq: "cq_ready kc (q_cq s) (q_n s)"
    and di: "distinct (map (cpl_slot k) (cq_waiting (q_cq s) (q_n s)))"
    and oc: "\<forall>e\<in>set (cq_waiting (q_cq s) (q_n s)). rx_occ (r_info (q_ring s) ! cpl_slot k e)"
    and le: "\<forall>skb\<in>set (q_up s). rs_len skb \<le> rs_truesize skb"
    using inv by (auto simp: rx_inv_def)
  show "rx_inv k kc t"
  proof (cases l)
    case (Receive e)
    have ix: "cpl_ring_index (q_ring s) e = cpl_slot k e" for e
      using rx_ring_okD(1) [OF ok] by (simp add: cpl_ring_index_def cpl_slot_def rx_shape_def)
    have "q_n s < 2 ^ kc" using al Receive cq unat_pow2_u32 [of kc] by (simp add: cq_ready_def cq_ring.ring_ok_def)
    note p = cq_push_ready [OF cq this, of e]
    obtain b where "cq_waiting (cq_device_push e (q_cq s) (q_n s)) (Suc (q_n s)) = cq_waiting (q_cq s) (q_n s) @ [cpl_stamp b e]" using p(2) by blast
    moreover have "rx_occ (r_info (q_ring s) ! cpl_slot k e)" "cpl_slot k e \<notin> cpl_slot k ` set (cq_waiting (q_cq s) (q_n s))"
      using al Receive by (simp_all add: ix)
    ultimately show ?thesis using ex Receive ok di oc le p(1) by (auto simp: rx_inv_def)
  next
    case (PollRx env budget)
    obtain m fin cq' r d i skbs where x: "mqnic_poll_rx_cq env budget (q_cq s) (q_ring s) (q_dma s) (q_if s) = (m, fin, cq', r, d, i, skbs)"
      by (cases "mqnic_poll_rx_cq env budget (q_cq s) (q_ring s) (q_dma s) (q_if s)")
    note P = rx_poll_ok [OF ok cq di oc x]
    have "distinct (map (cpl_slot k) (drop m (cq_waiting (q_cq s) (q_n s))))" using di by (simp add: drop_map [symmetric])
    then show ?thesis using ex PollRx x P le skb_of_len [of k "q_ring s" _ skbs] by (auto simp: rx_inv_def)
  qed
qed

text \<open>
  The ring before its first refill, and what opening it does from there: a failing refill closes the ring again.
\<close>

lemma open_rx_ring_cases:
  assumes "mqnic_open_rx_ring info_ok buf env r0 priv (Some cq0) siz blk d i = (ret, r, cqo, d', i')"
    and "roundup_pow_of_two siz = 2 ^ k" "k < 32" "dma_live d = []" "\<not> dma_bad d" "mset [0..<dma_next d] = mset (dma_freed d)"
  obtains (early) e where "ret = Some e" "d' = d"
    | (refilled) r1 i1 e r2 d2 i2 cq where "rx_ring_ok k r1 d []" "mqnic_refill_rx_buffers env r1 d i1 = (e, r2, d2, i2)" "ret = e"
    "cq = cq0\<lparr>cq_handler := Some mqnic_rx_irq\<rparr>" "e = None \<Longrightarrow> r = r2 \<and> d' = d2 \<and> cqo = Some cq"
    "e \<noteq> None \<Longrightarrow> \<exists>cq'. mqnic_close_rx_ring r2 cq d2 i2 = (r, cq', d', i') \<and> cqo = Some cq'"
proof -
  obtain index res where a: "mqnic_res_alloc (if_rxq_res i) = (index, res)" by (cases "mqnic_res_alloc (if_rxq_res i)")
  let ?early = "r_enabled r0 \<or> r_hw r0 \<noteq> None \<or> r_buf r0 \<noteq> None \<or> \<not> priv \<or> index < 0 \<or> \<not> info_ok \<or> buf = None"
  show thesis
  proof (cases ?early)
    case True
    have "r_buf (ring_sizes siz blk (r0\<lparr>r_index := index\<rparr>)) = r_buf r0" by (simp add: ring_sizes_def Let_def)
    then have "\<exists>e. ret = Some e \<and> d' = d"
      using assms(1) True
      by (auto simp: mqnic_open_rx_ring_def mqnic_close_rx_ring_def mqnic_disable_rx_ring_def a Let_def split: if_splits option.splits prod.splits)
    then show thesis using early by blast
  next
    case False
    then obtain dma where dma: "info_ok" "buf = Some dma" by auto
    let ?cq = "cq0\<lparr>cq_handler := Some mqnic_rx_irq\<rparr>"
    let ?hw = "the (mqnic_res_get_addr res index)"
    let ?s = "ring_sizes siz blk (r0\<lparr>r_index := index\<rparr>)"
    define r1 where "r1 = ?s\<lparr>r_info := replicate (unat (r_size ?s)) rx_info_zero,
       r_buf := Some (replicate (unat (r_size ?s)) (replicate (r_block ?s) \<lparr>d_csum = 0, d_len = 0, d_addr = 0\<rparr>)),
       r_dma := dma, r_priv := True, r_cq := Some (cq_id cq0), r_hw := Some ?hw, r_prod := 0, r_cons := 0\<rparr>"
    define i1 where "i1 = if_writes ?hw (queue_setup r1 (cq_cqn cq0)) (i\<lparr>if_rxq_res := res, if_bufs := dma # if_bufs i\<rparr>)"
    obtain e r2 d2 i2 where f: "mqnic_refill_rx_buffers env r1 d i1 = (e, r2, d2, i2)" by (cases "mqnic_refill_rx_buffers env r1 d i1")
    have op: "mqnic_open_rx_ring info_ok buf env r0 priv (Some cq0) siz blk d i =
        (case e of Some x \<Rightarrow> (let (r, cq, d, i) = mqnic_close_rx_ring r2 ?cq d2 i2 in (Some x, r, Some cq, d, i)) | None \<Rightarrow> (None, r2, Some ?cq, d2, i2))"
      using dma False f by (cases e) (simp_all add: mqnic_open_rx_ring_def a Let_def r1_def i1_def)
    have R: "r_size r1 = 2 ^ k" "r_size_mask r1 = mask k" "0 < r_block r1" "r_info r1 = replicate (2 ^ k) rx_info_zero"
      "r_buf r1 = Some (replicate (2 ^ k) (replicate (r_block r1) \<lparr>d_csum = 0, d_len = 0, d_addr = 0\<rparr>))" "r_prod r1 = 0" "r_cons r1 = 0"
      using assms(2) size_mask [OF assms(3)] unat_pow2_u32 [OF assms(3)] by (simp_all add: r1_def ring_sizes_def Let_def)
    have free: "\<not> rx_occ x" if "x \<in> set (r_info r1)" for x using that by (auto simp: R rx_occ_def rx_info_zero_def split: if_splits)
    have held: "rx_slots.held f (r_info r1) = {#}" for f :: "mqnic_rx_info \<Rightarrow> 'z list" by (rule rx_slots.held_none [OF free])
    have "rx_slots.window_ok k (r_info r1) (r_prod r1) (r_cons r1)"
      unfolding rx_slots.window_ok_def using assms(3) by (simp add: R unat_and_mask rx_occ_def rx_info_zero_def)
    moreover have "rx_shape k r1" using R by (auto simp: rx_shape_def)
    moreover have "\<not> rx_occ (r_info r1 ! j)" if "j < 2 ^ k" for j using that by (simp add: R rx_occ_def rx_info_zero_def)
    ultimately have ok: "rx_ring_ok k r1 d []"
      using assms(4-6) unfolding rx_ring_ok_def by (simp add: rx_slots.dma_ok_def held del: mset_upt)
    show thesis
      using assms(1) op by (intro refilled [OF ok f _ refl]) (auto split: option.splits prod.splits)
  qed
qed

text \<open>However opening a ring fails, no mapping is left and every page that was allocated is free again.\<close>

lemma open_rx_ring_fails:
  assumes "mqnic_open_rx_ring info_ok buf env r0 priv (Some cq0) siz blk d i = (Some e, r, cqo, d', i')" "siz \<le> 2 ^ 31"
    and "dma_live d = []" "\<not> dma_bad d" "mset [0..<dma_next d] = mset (dma_freed d)"
  shows "dma_live d' = [] \<and> \<not> dma_bad d' \<and> mset [0..<dma_next d'] = mset (dma_freed d')"
proof -
  obtain k where k: "roundup_pow_of_two siz = 2 ^ k" "k < 32" by (rule roundup_pow_less [OF assms(2)])
  from assms(1) k assms(3-5) show ?thesis
  proof (cases rule: open_rx_ring_cases)
    case early
    then show ?thesis using assms(3-5) by simp
  next
    case (refilled r1 i1 e' r2 d2 i2 cq)
    then have "e' \<noteq> None" by auto
    with refilled(6) obtain cq' where c: "mqnic_close_rx_ring r2 cq d2 i2 = (r, cq', d', i')" by blast
    note close_rx_ring_ok [OF refill_ok(1) [OF refilled(1,2)] c]
    then show ?thesis by (simp del: mset_upt)
  qed
qed

lemma rx_open_inv:
  assumes "mqnic_open_cq cbuf cq0 eqo csiz i0 = (None, cq, eq', i1)" "csiz \<le> 2 ^ 31"
    and "mqnic_open_rx_ring info_ok buf env r0 priv (Some cq) siz blk dma_init i1 = (None, r, Some cq', d', i2)" "siz \<le> 2 ^ 31"
  obtains k kc where "roundup_pow_of_two siz = 2 ^ k" "rx_inv k kc \<lparr>q_ring = r, q_cq = cq', q_n = 0, q_dma = d', q_if = i2, q_up = []\<rparr>"
proof -
  obtain k where k: "roundup_pow_of_two siz = 2 ^ k" "k < 32" by (rule roundup_pow_less [OF assms(4)])
  obtain kc where kc: "roundup_pow_of_two csiz = 2 ^ kc" "kc < 32" by (rule roundup_pow_less [OF assms(2)])
  have d: "dma_live dma_init = []" "\<not> dma_bad dma_init" "mset [0..<dma_next dma_init] = mset (dma_freed dma_init)" by (simp_all add: dma_init_def)
  from assms(3) k d have "rx_ring_ok k r d' [] \<and> cq' = cq\<lparr>cq_handler := Some mqnic_rx_irq\<rparr>"
  proof (cases rule: open_rx_ring_cases)
    case (refilled r1 i1 e r2 d2 i2 cq1)
    then show ?thesis using refill_ok(1) [OF refilled(1,2)] by simp
  qed simp
  moreover have "cq_ready kc cq 0" by (rule open_cq_ready [OF assms(1) kc])
  ultimately show thesis by (intro that [OF k(1), of kc]) (simp add: rx_inv_def cq_waiting_def cq_ready_def)
qed

text \<open>
  Property C39. A receive ring and its completion queue as they are opened, and any sequence of completions that the device writes, in any order, and of polls
  with any budget in which allocations and mappings may fail. In every state: nothing was unmapped that was not mapped; the mappings in use are exactly those of the
  pages in the ring; every page that was ever allocated is in one place, in the ring, with the network stack or freed; no socket buffer claims more bytes
  than its page has; and the descriptor of a slot names its page. Closing the ring in any such state removes every mapping, and every page
  that is not with the network stack is freed.
\<close>

theorem rx_ring_safe:
  assumes "mqnic_open_cq cbuf cq0 eqo csiz i0 = (None, cq, eq', i1)" "csiz \<le> 2 ^ 31"
    and "mqnic_open_rx_ring info_ok buf env r0 priv (Some cq) siz blk dma_init i1 = (None, r, Some cq', d', i2)" "siz \<le> 2 ^ 31"
    and "reach rx_exec rx_allowed \<lparr>q_ring = r, q_cq = cq', q_n = 0, q_dma = d', q_if = i2, q_up = []\<rparr> s"
    and "roundup_pow_of_two siz = 2 ^ k"
  shows "\<not> dma_bad (q_dma s)
    \<and> mset (dma_live (q_dma s)) = mset (concat (map rx_maps (filter rx_occ (r_info (q_ring s)))))
    \<and> mset [0..<dma_next (q_dma s)] = mset (dma_freed (q_dma s)) + mset (map rs_page (q_up s)) + mset (map (the \<circ> ri_page) (filter rx_occ (r_info (q_ring s))))
    \<and> (\<forall>skb\<in>set (q_up s). rs_len skb \<le> rs_truesize skb)
    \<and> (\<forall>j < 2 ^ k. rx_occ (r_info (q_ring s) ! j) \<longrightarrow> rx_slot_desc (q_ring s) j)
    \<and> (\<forall>r' c' e i'. mqnic_close_rx_ring (q_ring s) (q_cq s) (q_dma s) (q_if s) = (r', c', e, i') \<longrightarrow>
          dma_live e = [] \<and> \<not> dma_bad e \<and> mset [0..<dma_next e] = mset (dma_freed e) + mset (map rs_page (q_up s)))"
proof -
  obtain k' kc where k: "roundup_pow_of_two siz = 2 ^ k'" "rx_inv k' kc \<lparr>q_ring = r, q_cq = cq', q_n = 0, q_dma = d', q_if = i2, q_up = []\<rparr>"
    by (rule rx_open_inv [OF assms(1-4)])
  then have "k' = k" using assms(6) by simp
  then have inv: "rx_inv k kc s" using rx_system.reach_inv [OF assms(5) k(2)] by simp
  then have ok: "rx_ring_ok k (q_ring s) (q_dma s) (map rs_page (q_up s))" by (simp add: rx_inv_def)
  have c: "concat (map (\<lambda>ri. [the (ri_page ri)]) xs) = map (the \<circ> ri_page) xs" for xs by (induction xs) simp_all
  note o = rx_ring_okD [OF ok]
  have "\<forall>r' c' e i'. mqnic_close_rx_ring (q_ring s) (q_cq s) (q_dma s) (q_if s) = (r', c', e, i') \<longrightarrow>
      dma_live e = [] \<and> \<not> dma_bad e \<and> mset [0..<dma_next e] = mset (dma_freed e) + mset (map rs_page (q_up s))" using close_rx_ring_ok(1-3) [OF ok] by blast
  moreover have "\<forall>j < 2 ^ k. rx_occ (r_info (q_ring s) ! j) \<longrightarrow> rx_slot_desc (q_ring s) j" using o(4) by blast
  moreover have "\<forall>skb\<in>set (q_up s). rs_len skb \<le> rs_truesize skb" using inv by (simp add: rx_inv_def)
  moreover have "mset [0..<dma_next (q_dma s)] = mset (dma_freed (q_dma s)) + mset (map rs_page (q_up s)) + mset (map (the \<circ> ri_page) (filter rx_occ (r_info (q_ring s))))"
    using o(5) unfolding rx_slots.held_filter c .
  ultimately show ?thesis using o(3) unfolding rx_slots.dma_ok_def rx_slots.held_filter by blast
qed

definition example_rx_open :: "errno option \<times> rx_ring \<times> mqnic_cq option \<times> dma_state \<times> mqnic_if" where
  "example_rx_open = (case example_cq_open of (_, cq, _, i) \<Rightarrow>
     mqnic_open_rx_ring True (Some 0x6000) (\<lambda>j. (True, Some (0x9000 + of_nat j * 0x1000))) queue_init True (Some cq) 8 1 dma_init i)"

definition example_rx_sys :: rx_sys where
  "example_rx_sys = (case example_rx_open of (_, r, cq, d, i) \<Rightarrow> \<lparr>q_ring = r, q_cq = the cq, q_n = 0, q_dma = d, q_if = i, q_up = []\<rparr>)"

definition example_rx_events :: "rx_event list" where
  "example_rx_events = [Receive (cpl_ones\<lparr>cpl_index := 1, cpl_len := 60\<rparr>), Receive (cpl_ones\<lparr>cpl_index := 0, cpl_len := 5000\<rparr>),
     PollRx \<lparr>p_port_up = True, p_ptp = False, p_rxcsum = False, p_phc = None, p_skb = (\<lambda>_. True), p_pages = (\<lambda>_. (False, None))\<rparr> 64]"

lemma example_rx_run: "\<not> Option.is_none (run rx_exec rx_allowed example_rx_events example_rx_sys)"
  by code_simp

lemma example_rx_state:
  "map_option (\<lambda>s. (r_prod (q_ring s), r_cons (q_ring s), map (\<lambda>k. (rs_page k, rs_len k)) (q_up s), dma_synced (q_dma s)))
     (run rx_exec rx_allowed example_rx_events example_rx_sys) = Some (8, 2, [(1, 60), (0, 4096)], [0, 0])"
  by code_simp

theorem rx_ring_safe_witness:
  "\<exists>s. reach rx_exec rx_allowed example_rx_sys s \<and> map rs_page (q_up s) = [1, 0] \<and> map rs_len (q_up s) = [60, 4096] \<and> \<not> dma_bad (q_dma s)
    \<and> (\<forall>j < 2 ^ 3. rx_occ (r_info (q_ring s) ! j) \<longrightarrow> rx_slot_desc (q_ring s) j)"
proof -
  obtain e cq eq i1 where c: "example_cq_open = (e, cq, eq, i1)" by (cases example_cq_open)
  have "fst example_cq_open = None" by code_simp
  with c have c': "mqnic_open_cq (Some 0x5000) example_cq (Some example_eq) 2 example_if = (None, cq, eq, i1)" by (simp add: example_cq_open_def)
  obtain e r co d i2 where o: "example_rx_open = (e, r, co, d, i2)" by (cases example_rx_open)
  have "fst example_rx_open = None" "fst (snd (snd example_rx_open)) \<noteq> None" by code_simp+
  then have "e = None" "co \<noteq> None" unfolding o by simp_all
  then obtain cq' where "e = None" "co = Some cq'" by blast
  with o have o': "mqnic_open_rx_ring True (Some 0x6000) (\<lambda>j. (True, Some (0x9000 + of_nat j * 0x1000))) queue_init True (Some cq) 8 1 dma_init i1
      = (None, r, Some cq', d, i2)"
    "example_rx_sys = \<lparr>q_ring = r, q_cq = cq', q_n = 0, q_dma = d, q_if = i2, q_up = []\<rparr>"
    by (simp_all add: example_rx_open_def example_rx_sys_def c)
  define s where "s = the (run rx_exec rx_allowed example_rx_events example_rx_sys)"
  have reach: "reach rx_exec rx_allowed example_rx_sys s" using run_reach_the [OF example_rx_run] by (simp add: s_def)
  have "roundup_pow_of_two 8 = 2 ^ 3" by code_simp
  then have "\<not> dma_bad (q_dma s)" "\<forall>j < 2 ^ 3. rx_occ (r_info (q_ring s) ! j) \<longrightarrow> rx_slot_desc (q_ring s) j"
    using rx_ring_safe [OF c' _ o'(1) _ reach [unfolded o'(2)], of 3] by simp_all
  moreover have "map (\<lambda>k. (rs_page k, rs_len k)) (q_up s) = [(1, 60), (0, 4096)]"
    using example_rx_state example_rx_run by (auto simp: s_def)
  then have "map fst (map (\<lambda>k. (rs_page k, rs_len k)) (q_up s)) = [1, 0]" "map snd (map (\<lambda>k. (rs_page k, rs_len k)) (q_up s)) = [60, 4096]" by simp_all
  then have "map rs_page (q_up s) = [1, 0]" "map rs_len (q_up s) = [60, 4096]" by (simp_all add: comp_def)
  ultimately show ?thesis using reach by (intro exI [of _ s] conjI)
qed

end
