(* ===== verification/Lazylist.thy ===== *)
theory Lazylist
  imports Fp_Prelude "HOL-Library.Monad_Syntax"
begin

text \<open>
  The reorder buffer of the NIC, \<open>examples/ooorb\<close>: byte ranges that arrive out of order are kept in a sorted linked list whose nodes lie in an
  array, with a sentinel at each end and a free list through the same nodes (\<open>lazylist.h\<close>). A pointer to a node is its index in the array. The result \<open>None\<close>
  stands for no result: an access outside of the arrays, a lock that is never released, or an endless loop. The operations are modelled as they run on
  one HPU, each to its end; the build without \<open>USE_LRSC\<close> is the one that is modelled.
\<close>

section \<open>Data\<close>

definition INT32_MIN :: int where "INT32_MIN = -2147483648"
definition INT32_MAX :: int where "INT32_MAX = 2147483647"
definition EOL :: u32 where "EOL = 0xFFFFFFFF"
definition NUM_SEGMENTS :: nat where "NUM_SEGMENTS = 128"

record lazylist_node =
  nd_idx :: u32
  nd_left :: int
  nd_right :: int
  nd_lock :: u32
  nd_next :: u32

record lazylist =
  ll_head :: u32
  ll_free :: u32
  ll_free_lock :: u32
  ll_nodes :: "lazylist_node list"
  ll_marks :: "bool list"

definition nd :: "lazylist \<Rightarrow> u32 \<Rightarrow> lazylist_node" where
  "nd l i = ll_nodes l ! unat i"

definition set_node :: "u32 \<Rightarrow> (lazylist_node \<Rightarrow> lazylist_node) \<Rightarrow> lazylist \<Rightarrow> lazylist" where
  "set_node i f l = l\<lparr>ll_nodes := (ll_nodes l)[unat i := f (nd l i)]\<rparr>"

definition node_get :: "lazylist \<Rightarrow> u32 \<Rightarrow> lazylist_node option" where
  "node_get l i = (if unat i < length (ll_nodes l) then Some (nd l i) else None)"

definition node_set :: "u32 \<Rightarrow> (lazylist_node \<Rightarrow> lazylist_node) \<Rightarrow> lazylist \<Rightarrow> lazylist option" where
  "node_set i f l = (if unat i < length (ll_nodes l) then Some (set_node i f l) else None)"

definition IS_NODE_MARKED :: "lazylist \<Rightarrow> u32 \<Rightarrow> bool option" where
  "IS_NODE_MARKED l i = (if unat i < length (ll_marks l) then Some (ll_marks l ! unat i) else None)"

definition set_mark :: "u32 \<Rightarrow> bool \<Rightarrow> lazylist \<Rightarrow> lazylist option" where
  "set_mark i b l = (if unat i < length (ll_marks l) then Some (l\<lparr>ll_marks := (ll_marks l)[unat i := b]\<rparr>) else None)"

text \<open>A lock that is taken is not released by anyone else, so that the wait does not end.\<close>

definition node_lock :: "u32 \<Rightarrow> lazylist \<Rightarrow> lazylist option" where
  "node_lock i l = do { n \<leftarrow> node_get l i; if nd_lock n = 0 then node_set i (\<lambda>n. n\<lparr>nd_lock := 1\<rparr>) l else None }"

definition node_unlock :: "u32 \<Rightarrow> lazylist \<Rightarrow> lazylist option" where
  "node_unlock i l = node_set i (\<lambda>n. n\<lparr>nd_lock := 0\<rparr>) l"

section \<open>Operations\<close>

definition lazylist_init :: "nat \<Rightarrow> lazylist \<Rightarrow> lazylist" where
  "lazylist_init capacity l =
     (let n = capacity - 2;
          init_node = (\<lambda>i x.
            if i < n then x\<lparr>nd_idx := of_nat i, nd_next := (if i = n - 1 then EOL else of_nat (i + 1)), nd_lock := 0\<rparr>
            else if i = n then x\<lparr>nd_idx := of_nat n, nd_lock := 0, nd_next := of_nat (n + 1), nd_left := INT32_MIN, nd_right := INT32_MIN\<rparr>
            else if i = n + 1 then x\<lparr>nd_idx := of_nat (n + 1), nd_lock := 0, nd_next := EOL, nd_left := INT32_MAX, nd_right := INT32_MAX\<rparr>
            else x)
      in l\<lparr>ll_nodes := map (\<lambda>(i, x). init_node i x) (enumerate 0 (ll_nodes l)),
           ll_marks := map (\<lambda>(i, b). if i < n then False else b) (enumerate 0 (ll_marks l)),
           ll_head := of_nat n, ll_free := 0, ll_free_lock := 0\<rparr>)"

definition lazylist_get_free_node :: "lazylist \<Rightarrow> (u32 option \<times> lazylist) option" where
  "lazylist_get_free_node l =
     (if ll_free_lock l \<noteq> 0 then None
      else let l = l\<lparr>ll_free_lock := 1\<rparr>
           in if ll_free_lock l \<noteq> EOL
              then do { n \<leftarrow> node_get l (ll_free l); Some (Some (ll_free l), l\<lparr>ll_free := nd_next n, ll_free_lock := 0\<rparr>) }
              else Some (None, l\<lparr>ll_free_lock := 0\<rparr>))"

definition lazylist_put_free_node :: "u32 \<Rightarrow> lazylist \<Rightarrow> lazylist option" where
  "lazylist_put_free_node i l =
     (if ll_free_lock l \<noteq> 0 then None
      else do {
        let l = l\<lparr>ll_free_lock := 1\<rparr>;
        l \<leftarrow> node_set i (\<lambda>n. n\<lparr>nd_next := ll_free l\<rparr>) l;
        n \<leftarrow> node_get l i;
        Some (l\<lparr>ll_free := nd_idx n, ll_free_lock := 0\<rparr>) })"

partial_function (option) find_pred_loop :: "lazylist \<Rightarrow> int \<Rightarrow> u32 \<Rightarrow> u32 \<Rightarrow> (u32 \<times> u32) option" where
  "find_pred_loop l left pred cur =
     (case node_get l cur of
        None \<Rightarrow> None
      | Some c \<Rightarrow> if nd_right c < left then find_pred_loop l left cur (nd_next c) else Some (pred, cur))"

text \<open>The inner result is \<open>None\<close> when the range overlaps one in the list.\<close>

definition lazylist_find_pred :: "lazylist \<Rightarrow> int \<times> int \<Rightarrow> (u32 \<times> u32) option option" where
  "lazylist_find_pred l rg = do {
     (pred, cur) \<leftarrow> find_pred_loop l (fst rg) (ll_head l) (ll_head l);
     c \<leftarrow> node_get l cur;
     Some (if nd_left c \<le> snd rg then None else Some (pred, cur)) }"

definition lazylist_validate :: "lazylist \<Rightarrow> lazylist_node \<Rightarrow> lazylist_node \<Rightarrow> bool option" where
  "lazylist_validate l pred cur = do {
     m1 \<leftarrow> IS_NODE_MARKED l (nd_idx pred);
     if m1 then Some False
     else do { m2 \<leftarrow> IS_NODE_MARKED l (nd_idx cur); Some (\<not> m2 \<and> nd_next pred = nd_idx cur) } }"

text \<open>What an insertion does between two locked and valid nodes: the error flag, the node to free, and the list.\<close>

definition insert_between :: "int \<times> int \<Rightarrow> u32 \<Rightarrow> u32 \<Rightarrow> lazylist \<Rightarrow> (bool \<times> u32 option \<times> lazylist) option" where
  "insert_between rg pred cur l = do {
     p \<leftarrow> node_get l pred;
     c \<leftarrow> node_get l cur;
     let connects_left = nd_right p + 1 = fst rg \<and> nd_left p > INT32_MIN;
     let connects_right = snd rg + 1 = nd_left c \<and> nd_left c < INT32_MAX;
     if connects_left \<and> connects_right then do {
       l \<leftarrow> node_set pred (\<lambda>n. n\<lparr>nd_right := nd_right c\<rparr>) l;
       l \<leftarrow> set_mark (nd_idx c) True l;
       l \<leftarrow> node_set pred (\<lambda>n. n\<lparr>nd_next := nd_next c\<rparr>) l;
       Some (False, Some cur, l) }
     else if connects_left then do {
       l \<leftarrow> node_set pred (\<lambda>n. n\<lparr>nd_right := snd rg\<rparr>) l;
       Some (False, None, l) }
     else if connects_right then do {
       l \<leftarrow> node_set cur (\<lambda>n. n\<lparr>nd_left := fst rg\<rparr>) l;
       Some (False, None, l) }
     else do {
       (new, l) \<leftarrow> lazylist_get_free_node l;
       case new of
         None \<Rightarrow> Some (True, None, l)
       | Some i \<Rightarrow> do {
           l \<leftarrow> node_set i (\<lambda>n. n\<lparr>nd_left := fst rg, nd_right := snd rg\<rparr>) l;
           x \<leftarrow> node_get l i;
           l \<leftarrow> set_mark (nd_idx x) False l;
           l \<leftarrow> node_set i (\<lambda>n. n\<lparr>nd_lock := 0, nd_next := nd_idx c\<rparr>) l;
           l \<leftarrow> node_set pred (\<lambda>n. n\<lparr>nd_next := nd_idx x\<rparr>) l;
           Some (False, None, l) } } }"

text \<open>One round of the insertion loop; the first result tells whether the loop ends.\<close>

definition insert_round :: "int \<times> int \<Rightarrow> u32 \<Rightarrow> u32 \<Rightarrow> lazylist \<Rightarrow> (bool \<times> bool \<times> u32 option \<times> lazylist) option" where
  "insert_round rg pred cur l = do {
     l \<leftarrow> node_lock pred l;
     l \<leftarrow> node_lock cur l;
     p \<leftarrow> node_get l pred;
     c \<leftarrow> node_get l cur;
     ok \<leftarrow> lazylist_validate l p c;
     (error, del, l) \<leftarrow> (if ok then insert_between rg pred cur l else Some (False, None, l));
     l \<leftarrow> node_unlock cur l;
     l \<leftarrow> node_unlock pred l;
     Some (ok, error, del, l) }"

partial_function (option) lazylist_insert :: "int \<times> int \<Rightarrow> lazylist \<Rightarrow> (u32 \<times> lazylist) option" where
  "lazylist_insert rg l =
     (case lazylist_find_pred l rg of
        None \<Rightarrow> None
      | Some None \<Rightarrow> Some (0, l)
      | Some (Some (pred, cur)) \<Rightarrow>
          (case insert_round rg pred cur l of
             None \<Rightarrow> None
           | Some (terminate, error, del, l) \<Rightarrow>
               if \<not> terminate then lazylist_insert rg l
               else (case del of
                       None \<Rightarrow> Some (if error then 1 else 0, l)
                     | Some d \<Rightarrow> (case lazylist_put_free_node d l of None \<Rightarrow> None | Some l \<Rightarrow> Some (if error then 1 else 0, l)))))"

text \<open>One round of the pop loop: the range, if it was popped, and the node to free. \<open>range_left = -1\<close> means any start.\<close>

definition pop_round :: "int \<Rightarrow> u32 \<Rightarrow> u32 \<Rightarrow> lazylist \<Rightarrow> ((int \<times> int) option \<times> u32 \<times> lazylist) option" where
  "pop_round range_left front front_next l = do {
     l \<leftarrow> node_lock front l;
     l \<leftarrow> node_lock front_next l;
     f \<leftarrow> node_get l front;
     g \<leftarrow> node_get l front_next;
     ok \<leftarrow> lazylist_validate l f g;
     (res, l) \<leftarrow> (if ok \<and> (nd_left f = range_left \<or> range_left = -1)
                  then do {
                    l \<leftarrow> set_mark (nd_idx f) True l;
                    l \<leftarrow> node_set (ll_head l) (\<lambda>n. n\<lparr>nd_next := nd_idx g\<rparr>) l;
                    Some (Some (nd_left f, nd_right f), l) }
                  else Some (None, l));
     l \<leftarrow> node_unlock front_next l;
     l \<leftarrow> node_unlock front l;
     Some (res, nd_idx f, l) }"

text \<open>The result is the popped range, \<open>None\<close> for the return value 0.\<close>

partial_function (option) lazylist_pop_front :: "int \<Rightarrow> lazylist \<Rightarrow> ((int \<times> int) option \<times> lazylist) option" where
  "lazylist_pop_front range_left l =
     (if ll_head l = EOL then Some (None, l)
      else (case node_get l (ll_head l) of
              None \<Rightarrow> None
            | Some h \<Rightarrow>
                (case node_get l (nd_next h) of
                   None \<Rightarrow> None
                 | Some f \<Rightarrow>
                     if nd_left f = INT32_MAX then Some (None, l)
                     else if range_left \<noteq> -1 \<and> nd_left f \<noteq> range_left then Some (None, l)
                     else (case pop_round range_left (nd_next h) (nd_next f) l of
                             None \<Rightarrow> None
                           | Some (None, _, l) \<Rightarrow> lazylist_pop_front range_left l
                           | Some (Some r, d, l) \<Rightarrow> (case lazylist_put_free_node d l of None \<Rightarrow> None | Some l \<Rightarrow> Some (Some r, l))))))"

section \<open>Chains of nodes\<close>

text \<open>The pointers from \<open>i\<close> visit the nodes \<open>js\<close> and end in \<open>e\<close>.\<close>

fun chain :: "(u32 \<Rightarrow> u32) \<Rightarrow> u32 \<Rightarrow> u32 list \<Rightarrow> u32 \<Rightarrow> bool" where
  "chain nx i [] e \<longleftrightarrow> i = e"
| "chain nx i (j # js) e \<longleftrightarrow> i = j \<and> chain nx (nx j) js e"

lemma chain_append: "chain nx i (xs @ ys) e \<longleftrightarrow> (\<exists>m. chain nx i xs m \<and> chain nx m ys e)"
  by (induction xs arbitrary: i) simp_all

lemma chain_cong: "(\<And>j. j \<in> set js \<Longrightarrow> nx j = ny j) \<Longrightarrow> chain nx i js e = chain ny i js e"
  by (induction js arbitrary: i) simp_all

lemma chain_head: "chain nx i (j # js) e \<Longrightarrow> i = j"
  by simp

definition nx :: "lazylist \<Rightarrow> u32 \<Rightarrow> u32" where "nx l j = nd_next (nd l j)"
definition rng :: "lazylist \<Rightarrow> u32 \<Rightarrow> int \<times> int" where "rng l j = (nd_left (nd l j), nd_right (nd l j))"

lemma nd_set [simp]:
  assumes "unat i < length (ll_nodes l)"
  shows "nd (set_node i f l) j = (if j = i then f (nd l i) else nd l j)"
  using assms by (cases "j = i") (simp_all add: nd_def set_node_def word_unat_eq_iff)

lemma set_node_keeps [simp]:
  "ll_head (set_node i f l) = ll_head l" "ll_free (set_node i f l) = ll_free l" "ll_free_lock (set_node i f l) = ll_free_lock l"
  "ll_marks (set_node i f l) = ll_marks l" "length (ll_nodes (set_node i f l)) = length (ll_nodes l)"
  by (simp_all add: set_node_def)

lemma nd_other_update [simp]:
  "nd (l\<lparr>ll_head := a\<rparr>) j = nd l j" "nd (l\<lparr>ll_free := a\<rparr>) j = nd l j" "nd (l\<lparr>ll_free_lock := b\<rparr>) j = nd l j" "nd (l\<lparr>ll_marks := m\<rparr>) j = nd l j"
  by (simp_all add: nd_def)

lemma node_access:
  assumes "unat i < length (ll_nodes l)"
  shows "node_get l i = Some (nd l i)" "node_set i f l = Some (set_node i f l)"
  using assms by (simp_all add: node_get_def node_set_def)

section \<open>The invariant\<close>

text \<open>
  Two neighbours of the list: ranges do not overlap, and ranges that touch would have been merged, except that a sentinel is never extended.
\<close>

definition sep :: "int \<times> int \<Rightarrow> int \<times> int \<Rightarrow> bool" where
  "sep a b \<longleftrightarrow> snd a < fst b \<and> (INT32_MIN < fst a \<and> fst b < INT32_MAX \<longrightarrow> snd a + 1 < fst b)"

text \<open>
  A list with room for \<open>n\<close> ranges: the nodes \<open>ys\<close>, the left sentinel first, are chained to the right sentinel, the nodes \<open>fs\<close> form the free list.
\<close>

definition left_end :: "nat \<Rightarrow> u32" where "left_end n = of_nat n"
definition right_end :: "nat \<Rightarrow> u32" where "right_end n = of_nat (n + 1)"

definition lz_shape :: "nat \<Rightarrow> lazylist \<Rightarrow> bool" where
  "lz_shape n l \<longleftrightarrow> n + 2 \<le> length (ll_nodes l) \<and> n + 2 \<le> length (ll_marks l) \<and> n + 2 < 2 ^ 32 - 1 \<and> ll_head l = left_end n \<and> ll_free_lock l = 0
     \<and> (\<forall>j. unat j < n + 2 \<longrightarrow> nd_idx (nd l j) = j \<and> nd_lock (nd l j) = 0)"

definition lz_links :: "nat \<Rightarrow> lazylist \<Rightarrow> u32 list \<Rightarrow> u32 list \<Rightarrow> bool" where
  "lz_links n l ys fs \<longleftrightarrow> distinct (ys @ right_end n # fs) \<and> ys \<noteq> [] \<and> hd ys = left_end n \<and> (\<forall>j\<in>set (ys @ fs). j \<noteq> left_end n \<longrightarrow> unat j < n)
     \<and> length ys + length fs = n + 1 \<and> chain (nx l) (left_end n) ys (right_end n) \<and> chain (nx l) (ll_free l) fs EOL
     \<and> (\<forall>j\<in>set (ys @ [right_end n]). \<not> ll_marks l ! unat j)"

definition lz_ranges :: "nat \<Rightarrow> lazylist \<Rightarrow> u32 list \<Rightarrow> bool" where
  "lz_ranges n l ys \<longleftrightarrow> rng l (left_end n) = (INT32_MIN, INT32_MIN) \<and> rng l (right_end n) = (INT32_MAX, INT32_MAX)
     \<and> (\<forall>j\<in>set ys. j \<noteq> left_end n \<longrightarrow> INT32_MIN < fst (rng l j) \<and> fst (rng l j) \<le> snd (rng l j) \<and> snd (rng l j) < INT32_MAX)
     \<and> sorted_wrt sep (map (rng l) (ys @ [right_end n]))"

definition lz_ok :: "nat \<Rightarrow> lazylist \<Rightarrow> u32 list \<Rightarrow> u32 list \<Rightarrow> bool" where
  "lz_ok n l ys fs \<longleftrightarrow> lz_shape n l \<and> lz_links n l ys fs \<and> lz_ranges n l ys"

lemma lz_linksD:
  assumes "lz_links n l ys fs"
  shows "ys \<noteq> []" "hd ys = left_end n" "\<forall>j\<in>set (ys @ fs). j \<noteq> left_end n \<longrightarrow> unat j < n" "length ys + length fs = n + 1"
    "distinct (ys @ right_end n # fs)" "chain (nx l) (left_end n) ys (right_end n)" "chain (nx l) (ll_free l) fs EOL"
  using assms unfolding lz_links_def by blast+

lemma lz_rangesD:
  assumes "lz_ranges n l ys"
  shows "rng l (left_end n) = (INT32_MIN, INT32_MIN)" "rng l (right_end n) = (INT32_MAX, INT32_MAX)"
    "\<And>j. j \<in> set ys \<Longrightarrow> j \<noteq> left_end n \<Longrightarrow> INT32_MIN < fst (rng l j) \<and> fst (rng l j) \<le> snd (rng l j) \<and> snd (rng l j) < INT32_MAX"
    "sorted_wrt sep (map (rng l) (ys @ [right_end n]))"
  using assms unfolding lz_ranges_def by blast+

lemma lz_rangesI:
  assumes "rng l (left_end n) = (INT32_MIN, INT32_MIN)" "rng l (right_end n) = (INT32_MAX, INT32_MAX)"
    "\<And>j. j \<in> set ys \<Longrightarrow> j \<noteq> left_end n \<Longrightarrow> INT32_MIN < fst (rng l j) \<and> fst (rng l j) \<le> snd (rng l j) \<and> snd (rng l j) < INT32_MAX"
    "map (rng l) (ys @ [right_end n]) = rs" "sorted_wrt sep rs"
  shows "lz_ranges n l ys"
  using assms unfolding lz_ranges_def by blast

text \<open>The bytes that the list holds.\<close>

definition cover :: "nat \<Rightarrow> lazylist \<Rightarrow> u32 list \<Rightarrow> int set" where
  "cover n l ys = (\<Union>j\<in>set ys - {left_end n}. {fst (rng l j)..snd (rng l j)})"

text \<open>The bytes of a node.\<close>

definition cells :: "int \<times> int \<Rightarrow> int set" where "cells r = {fst r..snd r}"

lemma cover_cells: "cover n l ys = (\<Union>j\<in>set ys - {left_end n}. cells (rng l j))"
  by (simp add: cover_def cells_def)

lemma cover_change:
  assumes "q \<in> set ys - {left_end n}" "\<And>j. rng l' j = (if j = q then r else rng l j)"
  shows "cells r = cells (rng l q) \<union> X \<Longrightarrow> cover n l' ys = cover n l ys \<union> X"
proof -
  assume r: "cells r = cells (rng l q) \<union> X"
  let ?A = "set ys - {left_end n} - {q}"
  have A: "set ys - {left_end n} = insert q ?A" using assms(1) by auto
  have "(\<Union>j\<in>?A. cells (rng l' j)) = (\<Union>j\<in>?A. cells (rng l j))" by (intro SUP_cong) (auto simp: assms(2))
  moreover have "rng l' q = r" by (simp add: assms(2))
  ultimately show ?thesis unfolding cover_cells by (subst (1 2) A) (simp only: UN_insert r Un_ac)
qed

lemma lz_valid:
  assumes "lz_ok n l ys fs" "j \<in> set (ys @ right_end n # fs)"
  shows "unat j < n + 2" "unat j < length (ll_nodes l)" "unat j < length (ll_marks l)" "nd_idx (nd l j) = j" "nd_lock (nd l j) = 0" "j \<noteq> EOL"
proof -
  have n: "n + 2 < 2 ^ 32 - 1" using assms(1) by (simp add: lz_ok_def lz_shape_def)
  have e: "unat (left_end n) = n" "unat (right_end n) = n + 1"
    using n unfolding left_end_def right_end_def unat_of_nat by simp_all
  show j: "unat j < n + 2"
  proof (cases "j = right_end n \<or> j = left_end n")
    case True
    then show ?thesis using e by auto
  next
    case False
    then have "unat j < n" using assms unfolding lz_ok_def lz_links_def by auto
    then show ?thesis by simp
  qed
  show "unat j < length (ll_nodes l)" "unat j < length (ll_marks l)" "nd_idx (nd l j) = j" "nd_lock (nd l j) = 0"
    using assms(1) j by (auto simp: lz_ok_def lz_shape_def)
  show "j \<noteq> EOL" using j n by (auto simp: EOL_def)
qed

lemma find_loop:
  assumes "chain (nx l) i zs t" "\<forall>j\<in>set (zs @ [t]). unat j < length (ll_nodes l)" "left \<le> snd (rng l t)"
  shows "find_pred_loop l left p i =
    Some (last (p # takeWhile (\<lambda>j. snd (rng l j) < left) zs), hd (dropWhile (\<lambda>j. snd (rng l j) < left) zs @ [t]))"
  using assms
proof (induction zs arbitrary: p i)
  case Nil
  then have "i = t" "unat t < length (ll_nodes l)" "\<not> nd_right (nd l t) < left" by (simp_all add: rng_def)
  then show ?case by (simp add: find_pred_loop.simps [of l left p t] node_access)
next
  case (Cons z zs)
  then have c: "i = z" "chain (nx l) (nx l z) zs t" "unat z < length (ll_nodes l)" by simp_all
  have step: "find_pred_loop l left p z = (if nd_right (nd l z) < left then find_pred_loop l left z (nd_next (nd l z)) else Some (p, z))"
    by (subst find_pred_loop.simps) (simp add: node_access c(3))
  show ?case using Cons.IH [OF c(2), of z] Cons.prems(2,3) unfolding c(1) step by (simp add: rng_def nx_def)
qed

lemma find_pred_split:
  assumes "lz_ok n l ys fs" "INT32_MIN < a" "a \<le> INT32_MAX"
  obtains ps p zs c qs where "ys = ps @ p # zs" "zs @ [right_end n] = c # qs" "snd (rng l p) < a" "a \<le> snd (rng l c)"
    "lazylist_find_pred l (a, b) = Some (if fst (rng l c) \<le> b then None else Some (p, c))"
proof -
  let ?P = "\<lambda>j. snd (rng l j) < a"
  let ?t = "right_end n"
  have ch: "chain (nx l) (left_end n) ys ?t" and hd: "ys \<noteq> []" "hd ys = left_end n" and head: "ll_head l = left_end n"
    and rt: "rng l ?t = (INT32_MAX, INT32_MAX)" and rh: "rng l (left_end n) = (INT32_MIN, INT32_MIN)"
    using assms(1) by (simp_all add: lz_ok_def lz_links_def lz_shape_def lz_ranges_def)
  have v: "\<forall>j\<in>set (ys @ [?t]). unat j < length (ll_nodes l)" using lz_valid(2) [OF assms(1)] by auto
  have "takeWhile ?P ys \<noteq> []" using hd rh assms(2) by (cases ys) simp_all
  then obtain ps p where tw: "takeWhile ?P ys = ps @ [p]" by (cases "takeWhile ?P ys" rule: rev_cases) simp_all
  let ?zs = "dropWhile ?P ys"
  have ys: "ys = ps @ p # ?zs" using takeWhile_dropWhile_id [of ?P ys] tw by simp
  obtain c qs where cq: "?zs @ [?t] = c # qs" by (cases "?zs @ [?t]") simp_all
  have "p \<in> set (takeWhile ?P ys)" by (simp add: tw)
  then have pa: "snd (rng l p) < a" by (blast dest: set_takeWhileD)
  have ca: "a \<le> snd (rng l c)"
  proof (cases "?zs = []")
    case True
    then have "c = ?t" using cq unfolding True by simp
    then show ?thesis using rt assms(3) by simp
  next
    case False
    then show ?thesis using hd_dropWhile [OF False] cq by (cases ?zs) auto
  qed
  have "find_pred_loop l a (left_end n) (left_end n) = Some (p, c)"
    using find_loop [OF ch v, of a "left_end n"] rt assms(3) tw cq by simp
  moreover have "c \<in> set (?zs @ [?t])" unfolding cq by simp
  then have "unat c < length (ll_nodes l)" using v set_dropWhileD by fastforce
  ultimately have "lazylist_find_pred l (a, b) = Some (if fst (rng l c) \<le> b then None else Some (p, c))"
    by (simp add: lazylist_find_pred_def head node_access rng_def)
  then show thesis by (rule that [OF ys cq pa ca])
qed

text \<open>The position of an insertion: what the neighbours say about all other nodes.\<close>

lemma split_facts:
  assumes "lz_ok n l ys fs" "ys = ps @ p # zs" "zs @ [right_end n] = c # qs" "snd (rng l p) < a" "a \<le> snd (rng l c)" "a \<le> b" "b < INT32_MAX"
  shows "fst (rng l c) \<le> b \<longleftrightarrow> {a..b} \<inter> cover n l ys \<noteq> {}" "p \<noteq> c" "c \<in> set (ys @ [right_end n])" "nx l p = c" "c \<noteq> left_end n"
    "p \<in> set ys" "p \<noteq> right_end n"
proof -
  let ?h = "left_end n" and ?t = "right_end n"
  have d: "distinct (ys @ ?t # fs)" and ch: "chain (nx l) ?h ys ?t" and hd: "hd ys = ?h" using assms(1) by (simp_all add: lz_ok_def lz_links_def)
  have so: "sorted_wrt sep (map (rng l) (ys @ [?t]))" and rt: "rng l ?t = (INT32_MAX, INT32_MAX)"
    and rg: "\<And>j. j \<in> set ys \<Longrightarrow> j \<noteq> ?h \<Longrightarrow> fst (rng l j) \<le> snd (rng l j)"
    using assms(1) by (auto simp: lz_ok_def lz_ranges_def)
  have full: "ys @ [?t] = ps @ p # c # qs" using assms(2,3) by simp
  have dis: "distinct (ps @ p # c # qs)" using d unfolding full [symmetric] by simp
  show pc: "p \<noteq> c" "c \<in> set (ys @ [?t])" "p \<in> set ys" "p \<noteq> ?t" using dis full assms(2) d by auto
  show "nx l p = c" using ch unfolding assms(2) chain_append using assms(3) by (cases zs) auto
  have "ys = ?h # tl ys" using hd assms(2) by (cases ps) auto
  then have h0: "hd (ps @ p # c # qs) = ?h" using full [symmetric] by (metis append_Cons list.sel(1))
  then show ch': "c \<noteq> ?h" using dis by (cases ps) auto
  have so': "sorted_wrt sep (map (rng l) ps @ rng l p # rng l c # map (rng l) qs)" using so unfolding full by simp
  have before: "snd (rng l j) < a" if "j \<in> set ps" for j
  proof -
    have "sep (rng l j) (rng l p)" using so' that by (auto simp: sorted_wrt_append)
    then show ?thesis using assms(4) rg [of p] pc(3) h0 dis that by (cases ps) (auto simp: sep_def)
  qed
  have after: "b < fst (rng l j)" if "b < fst (rng l c)" "j \<in> set qs" for j
  proof -
    have "sep (rng l c) (rng l j)" using so' that(2) by (auto simp: sorted_wrt_append)
    moreover have "fst (rng l c) \<le> snd (rng l c)" using rg [of c] pc(2) ch' rt by auto
    ultimately show ?thesis using that(1) by (simp add: sep_def)
  qed
  show "fst (rng l c) \<le> b \<longleftrightarrow> {a..b} \<inter> cover n l ys \<noteq> {}"
  proof
    assume cb: "fst (rng l c) \<le> b"
    then have "c \<noteq> ?t" using rt assms(7) by auto
    then have "c \<in> set ys - {?h}" using pc(2) ch' by simp
    moreover have "max a (fst (rng l c)) \<in> {a..b} \<inter> {fst (rng l c)..snd (rng l c)}"
      using cb assms(5,6) rg [of c] calculation by auto
    ultimately show "{a..b} \<inter> cover n l ys \<noteq> {}" unfolding cover_def by blast
  next
    assume "{a..b} \<inter> cover n l ys \<noteq> {}"
    then obtain j x where j: "j \<in> set ys" "x \<in> {a..b}" "x \<in> {fst (rng l j)..snd (rng l j)}" unfolding cover_def by blast
    then have "j \<in> set (ps @ p # c # qs)" unfolding full [symmetric] by simp
    then show "fst (rng l c) \<le> b" using j before [of j] after [of j] assms(4) by force
  qed
qed

section \<open>Insertion\<close>

text \<open>Two nodes that an operation can lock, and that follow each other.\<close>

definition pair_ok :: "lazylist \<Rightarrow> u32 \<Rightarrow> u32 \<Rightarrow> bool" where
  "pair_ok l p c \<longleftrightarrow> unat p < length (ll_nodes l) \<and> unat c < length (ll_nodes l) \<and> unat p < length (ll_marks l) \<and> unat c < length (ll_marks l)
     \<and> p \<noteq> c \<and> nd_lock (nd l p) = 0 \<and> nd_lock (nd l c) = 0 \<and> nd_idx (nd l p) = p \<and> nd_idx (nd l c) = c \<and> nd_next (nd l p) = c
     \<and> \<not> ll_marks l ! unat p \<and> \<not> ll_marks l ! unat c \<and> ll_free_lock l = 0"

definition locked :: "lazylist \<Rightarrow> u32 \<Rightarrow> u32 \<Rightarrow> lazylist" where
  "locked l p c = set_node c (\<lambda>n. n\<lparr>nd_lock := 1\<rparr>) (set_node p (\<lambda>n. n\<lparr>nd_lock := 1\<rparr>) l)"

lemma unlocked: "nd_lock x = 0 \<Longrightarrow> x\<lparr>nd_lock := 0\<rparr> = x"
  by (cases x) simp

lemma locked_keeps [simp]:
  "ll_marks (locked l p c) = ll_marks l" "length (ll_nodes (locked l p c)) = length (ll_nodes l)" "ll_free_lock (locked l p c) = ll_free_lock l"
  "ll_free (locked l p c) = ll_free l" "ll_head (locked l p c) = ll_head l"
  by (simp_all add: locked_def)

lemma nd_locked [simp]:
  assumes "pair_ok l p c"
  shows "nd (locked l p c) j = (if j = c then (nd l c)\<lparr>nd_lock := 1\<rparr> else if j = p then (nd l p)\<lparr>nd_lock := 1\<rparr> else nd l j)"
  using assms by (simp add: locked_def pair_ok_def)

lemma lock_pair:
  assumes "pair_ok l p c"
  shows "node_lock p l \<bind> (\<lambda>l. node_lock c l \<bind> f) = f (locked l p c)" "node_get (locked l p c) p = Some ((nd l p)\<lparr>nd_lock := 1\<rparr>)"
    "node_get (locked l p c) c = Some ((nd l c)\<lparr>nd_lock := 1\<rparr>)"
    "lazylist_validate (locked l p c) ((nd l p)\<lparr>nd_lock := 1\<rparr>) ((nd l c)\<lparr>nd_lock := 1\<rparr>) = Some True"
proof -
  show "node_lock p l \<bind> (\<lambda>l. node_lock c l \<bind> f) = f (locked l p c)"
    using assms by (auto simp: node_lock_def node_access pair_ok_def locked_def)
  show "node_get (locked l p c) p = Some ((nd l p)\<lparr>nd_lock := 1\<rparr>)" "node_get (locked l p c) c = Some ((nd l c)\<lparr>nd_lock := 1\<rparr>)"
    using assms by (simp_all add: node_get_def) (simp_all add: pair_ok_def)
  show "lazylist_validate (locked l p c) ((nd l p)\<lparr>nd_lock := 1\<rparr>) ((nd l c)\<lparr>nd_lock := 1\<rparr>) = Some True"
    using assms by (simp add: lazylist_validate_def IS_NODE_MARKED_def pair_ok_def)
qed

lemma insert_round_eq:
  assumes "pair_ok l p c"
  shows "insert_round rg p c l = do {
     (error, del, l) \<leftarrow> insert_between rg p c (locked l p c);
     l \<leftarrow> node_unlock c l;
     l \<leftarrow> node_unlock p l;
     Some (True, error, del, l) }"
  by (simp add: insert_round_def lock_pair [OF assms])

definition same_list :: "lazylist \<Rightarrow> lazylist \<Rightarrow> bool" where
  "same_list l' l \<longleftrightarrow> ll_head l' = ll_head l \<and> ll_free_lock l' = ll_free_lock l \<and> length (ll_nodes l') = length (ll_nodes l) \<and> length (ll_marks l') = length (ll_marks l)"

text \<open>The four outcomes of a round.\<close>

lemma round_merge:
  assumes "pair_ok l p c" "nd_right (nd l p) + 1 = a \<and> nd_left (nd l p) > INT32_MIN" "b + 1 = nd_left (nd l c) \<and> nd_left (nd l c) < INT32_MAX"
  obtains l' where "insert_round (a, b) p c l = Some (True, False, Some c, l')" "same_list l' l" "ll_free l' = ll_free l"
    "ll_marks l' = (ll_marks l)[unat c := True]" "nd l' = (nd l)(p := (nd l p)\<lparr>nd_right := nd_right (nd l c), nd_next := nd_next (nd l c)\<rparr>)"
proof -
  note o = assms(1) [unfolded pair_ok_def]
  define l' where "l' = set_node p (\<lambda>n. n\<lparr>nd_lock := 0\<rparr>) (set_node c (\<lambda>n. n\<lparr>nd_lock := 0\<rparr>) (set_node p (\<lambda>n. n\<lparr>nd_next := nd_next (nd l c)\<rparr>)
     ((set_node p (\<lambda>n. n\<lparr>nd_right := nd_right (nd l c)\<rparr>) (locked l p c))\<lparr>ll_marks := (ll_marks l)[unat c := True]\<rparr>)))"
  have "insert_round (a, b) p c l = Some (True, False, Some c, l')"
    unfolding insert_round_eq [OF assms(1)] insert_between_def lock_pair [OF assms(1)]
    using assms(2,3) o by (simp add: node_set_def node_unlock_def set_mark_def l'_def)
  moreover have "nd l' = (nd l)(p := (nd l p)\<lparr>nd_right := nd_right (nd l c), nd_next := nd_next (nd l c)\<rparr>)"
    using o by (cases "nd l p"; cases "nd l c") (simp add: fun_eq_iff l'_def assms(1))
  ultimately show thesis using o by (intro that [of l']) (simp_all add: same_list_def l'_def)
qed

lemma round_left:
  assumes "pair_ok l p c" "nd_right (nd l p) + 1 = a \<and> nd_left (nd l p) > INT32_MIN" "\<not> (b + 1 = nd_left (nd l c) \<and> nd_left (nd l c) < INT32_MAX)"
  obtains l' where "insert_round (a, b) p c l = Some (True, False, None, l')" "same_list l' l" "ll_free l' = ll_free l"
    "ll_marks l' = ll_marks l" "nd l' = (nd l)(p := (nd l p)\<lparr>nd_right := b\<rparr>)"
proof -
  note o = assms(1) [unfolded pair_ok_def]
  define l' where "l' = set_node p (\<lambda>n. n\<lparr>nd_lock := 0\<rparr>) (set_node c (\<lambda>n. n\<lparr>nd_lock := 0\<rparr>) (set_node p (\<lambda>n. n\<lparr>nd_right := b\<rparr>) (locked l p c)))"
  have "insert_round (a, b) p c l = Some (True, False, None, l')"
    unfolding insert_round_eq [OF assms(1)] insert_between_def lock_pair [OF assms(1)]
    using assms(2,3) o by (auto simp: node_set_def node_unlock_def l'_def)
  moreover have "nd l' = (nd l)(p := (nd l p)\<lparr>nd_right := b\<rparr>)"
    using o by (cases "nd l p"; cases "nd l c") (simp add: fun_eq_iff l'_def assms(1))
  ultimately show thesis using o by (intro that [of l']) (simp_all add: same_list_def l'_def)
qed

lemma round_right:
  assumes "pair_ok l p c" "\<not> (nd_right (nd l p) + 1 = a \<and> nd_left (nd l p) > INT32_MIN)" "b + 1 = nd_left (nd l c) \<and> nd_left (nd l c) < INT32_MAX"
  obtains l' where "insert_round (a, b) p c l = Some (True, False, None, l')" "same_list l' l" "ll_free l' = ll_free l"
    "ll_marks l' = ll_marks l" "nd l' = (nd l)(c := (nd l c)\<lparr>nd_left := a\<rparr>)"
proof -
  note o = assms(1) [unfolded pair_ok_def]
  define l' where "l' = set_node p (\<lambda>n. n\<lparr>nd_lock := 0\<rparr>) (set_node c (\<lambda>n. n\<lparr>nd_lock := 0\<rparr>) (set_node c (\<lambda>n. n\<lparr>nd_left := a\<rparr>) (locked l p c)))"
  have "insert_round (a, b) p c l = Some (True, False, None, l')"
    unfolding insert_round_eq [OF assms(1)] insert_between_def lock_pair [OF assms(1)]
    using assms(2,3) o by (auto simp: node_set_def node_unlock_def l'_def)
  moreover have "nd l' = (nd l)(c := (nd l c)\<lparr>nd_left := a\<rparr>)"
    using o by (cases "nd l p"; cases "nd l c") (simp add: fun_eq_iff l'_def assms(1))
  ultimately show thesis using o by (intro that [of l']) (simp_all add: same_list_def l'_def)
qed

lemma round_new:
  assumes "pair_ok l p c" "\<not> (nd_right (nd l p) + 1 = a \<and> nd_left (nd l p) > INT32_MIN)" "\<not> (b + 1 = nd_left (nd l c) \<and> nd_left (nd l c) < INT32_MAX)"
    and "ll_free l = i" "unat i < length (ll_nodes l)" "unat i < length (ll_marks l)" "i \<noteq> p" "i \<noteq> c" "nd_idx (nd l i) = i"
  obtains l' where "insert_round (a, b) p c l = Some (True, False, None, l')" "same_list l' l" "ll_free l' = nd_next (nd l i)"
    "ll_marks l' = (ll_marks l)[unat i := False]"
    "nd l' = (nd l)(p := (nd l p)\<lparr>nd_next := i\<rparr>, i := \<lparr>nd_idx = i, nd_left = a, nd_right = b, nd_lock = 0, nd_next = c\<rparr>)"
proof -
  note o = assms(1) [unfolded pair_ok_def]
  define l1 where "l1 = (locked l p c)\<lparr>ll_free := nd_next (nd l i), ll_free_lock := 0\<rparr>"
  define l' where "l' = set_node p (\<lambda>n. n\<lparr>nd_lock := 0\<rparr>) (set_node c (\<lambda>n. n\<lparr>nd_lock := 0\<rparr>) (set_node p (\<lambda>n. n\<lparr>nd_next := i\<rparr>)
     (set_node i (\<lambda>n. n\<lparr>nd_lock := 0, nd_next := c\<rparr>)
       ((set_node i (\<lambda>n. n\<lparr>nd_left := a, nd_right := b\<rparr>) l1)\<lparr>ll_marks := (ll_marks l)[unat i := False]\<rparr>))))"
  have free: "lazylist_get_free_node (locked l p c) = Some (Some i, l1)"
    using o assms by (simp add: lazylist_get_free_node_def node_get_def EOL_def l1_def)
  have keep: "length (ll_nodes l1) = length (ll_nodes l)" "ll_marks l1 = ll_marks l" by (simp_all add: l1_def)
  have n1: "nd l1 j = nd (locked l p c) j" for j by (simp add: l1_def)
  have o1: "unat p < length (ll_nodes l)" "unat c < length (ll_nodes l)" "p \<noteq> c" "nd_idx (nd l c) = c" using o by blast+
  have "insert_round (a, b) p c l = Some (True, False, None, l')"
    unfolding insert_round_eq [OF assms(1)] insert_between_def lock_pair [OF assms(1)]
    using assms(2,3,5-9) o1 by (auto simp: node_set_def node_get_def node_unlock_def set_mark_def free keep n1 assms(1) l'_def Let_def)
  moreover have "nd l' = (nd l)(p := (nd l p)\<lparr>nd_next := i\<rparr>, i := \<lparr>nd_idx = i, nd_left = a, nd_right = b, nd_lock = 0, nd_next = c\<rparr>)"
    using o assms by (cases "nd l p"; cases "nd l c"; cases "nd l i") (simp add: fun_eq_iff l'_def keep n1)
  ultimately show thesis using o by (intro that [of l']) (simp_all add: same_list_def l'_def l1_def)
qed

text \<open>The same on lists of ranges.\<close>

lemma sep_insert:
  assumes "sorted_wrt sep (xs @ p # c # zs)" "snd p < a" "a \<le> b" "b < fst c" "fst p \<le> snd p" "fst c \<le> snd c" "INT32_MIN < a" "b < INT32_MAX"
  shows "snd p + 1 = a \<Longrightarrow> \<not> (b + 1 = fst c \<and> fst c < INT32_MAX) \<Longrightarrow> sorted_wrt sep (xs @ (fst p, b) # c # zs)"
    "\<not> (snd p + 1 = a \<and> INT32_MIN < fst p) \<Longrightarrow> b + 1 = fst c \<Longrightarrow> sorted_wrt sep (xs @ p # (a, snd c) # zs)"
    "\<not> (snd p + 1 = a \<and> INT32_MIN < fst p) \<Longrightarrow> \<not> (b + 1 = fst c \<and> fst c < INT32_MAX) \<Longrightarrow> sorted_wrt sep (xs @ p # (a, b) # c # zs)"
    "sorted_wrt sep (xs @ (fst p, snd c) # zs)"
proof -
  have xs: "sep x p" if "x \<in> set xs" for x using assms(1) that by (auto simp: sorted_wrt_append)
  have xc: "sep x c" if "x \<in> set xs" for x using assms(1) that by (auto simp: sorted_wrt_append)
  have xz: "sep x z" if "x \<in> set xs" "z \<in> set zs" for x z using assms(1) that by (auto simp: sorted_wrt_append)
  have cz: "sep c z" "sep p z" if "z \<in> set zs" for z using assms(1) that by (auto simp: sorted_wrt_append)
  have so: "sorted_wrt sep xs" "sorted_wrt sep zs" "sep p c" using assms(1) by (auto simp: sorted_wrt_append)
  have x1: "sep x (fst p, y)" if "x \<in> set xs" for x y using xs [OF that] by (simp add: sep_def)
  have x2: "sep x (a, y)" if "x \<in> set xs" for x y using xs [OF that] assms(2,5) by (auto simp: sep_def)
  have z1: "sep (y, b) z" if "z \<in> set zs" for z y using cz(1) [OF that] assms(4,6) by (auto simp: sep_def)
  have z2: "sep (y, snd c) z" if "z \<in> set zs" for z y
    using cz(1) [OF that] assms(3,4,7) by (auto simp: sep_def)
  show "snd p + 1 = a \<Longrightarrow> \<not> (b + 1 = fst c \<and> fst c < INT32_MAX) \<Longrightarrow> sorted_wrt sep (xs @ (fst p, b) # c # zs)"
    using so x1 xc xz cz z1 assms(4) by (auto simp: sorted_wrt_append sep_def [of "(fst p, b)" c])
  show "\<not> (snd p + 1 = a \<and> INT32_MIN < fst p) \<Longrightarrow> b + 1 = fst c \<Longrightarrow> sorted_wrt sep (xs @ p # (a, snd c) # zs)"
    using so xs x2 xz cz z2 assms(2) by (auto simp: sorted_wrt_append sep_def [of p "(a, snd c)"])
  show "\<not> (snd p + 1 = a \<and> INT32_MIN < fst p) \<Longrightarrow> \<not> (b + 1 = fst c \<and> fst c < INT32_MAX) \<Longrightarrow> sorted_wrt sep (xs @ p # (a, b) # c # zs)"
    using so xs x2 xc xz cz z1 assms(2,4) by (auto simp: sorted_wrt_append sep_def [of p "(a, b)"] sep_def [of "(a, b)" c])
  show "sorted_wrt sep (xs @ (fst p, snd c) # zs)"
    using so x1 xz z2 by (auto simp: sorted_wrt_append)
qed

lemma lz_shape_keep:
  assumes "lz_shape n l" "same_list l' l" "\<And>j. unat j < n + 2 \<Longrightarrow> nd_idx (nd l' j) = nd_idx (nd l j) \<and> nd_lock (nd l' j) = nd_lock (nd l j)"
  shows "lz_shape n l'"
  using assms by (simp add: lz_shape_def same_list_def)

lemma lz_links_keep:
  assumes "lz_links n l ys fs" "nx l' = nx l" "ll_free l' = ll_free l" "ll_marks l' = ll_marks l"
  shows "lz_links n l' ys fs"
  using assms by (simp add: lz_links_def)

text \<open>The position of an insertion, collected.\<close>

definition insert_at :: "nat \<Rightarrow> lazylist \<Rightarrow> u32 list \<Rightarrow> u32 list \<Rightarrow> int \<Rightarrow> int \<Rightarrow> u32 list \<Rightarrow> u32 \<Rightarrow> u32 list \<Rightarrow> u32 \<Rightarrow> u32 list \<Rightarrow> bool" where
  "insert_at n l ys fs a b ps p zs c qs \<longleftrightarrow> lz_ok n l ys fs \<and> ys = ps @ p # zs \<and> zs @ [right_end n] = c # qs \<and> snd (rng l p) < a \<and> a \<le> b \<and> b < fst (rng l c)
     \<and> INT32_MIN < a \<and> b < INT32_MAX"

lemma insert_atD:
  assumes "insert_at n l ys fs a b ps p zs c qs"
  shows "lz_ok n l ys fs" "ys = ps @ p # zs" "zs @ [right_end n] = c # qs" "snd (rng l p) < a" "a \<le> b" "b < fst (rng l c)" "INT32_MIN < a" "b < INT32_MAX"
    "distinct (ps @ p # c # qs)" "map (rng l) (ys @ [right_end n]) = map (rng l) ps @ rng l p # rng l c # map (rng l) qs"
    "p \<in> set ys" "p \<noteq> right_end n" "c \<in> set (ys @ [right_end n])" "c \<noteq> left_end n" "pair_ok l p c" "fst (rng l p) \<le> snd (rng l p)" "fst (rng l c) \<le> snd (rng l c)"
    "c = right_end n \<longleftrightarrow> zs = []" "sorted_wrt sep (map (rng l) ps @ rng l p # rng l c # map (rng l) qs)"
proof -
  show ok: "lz_ok n l ys fs" and ys: "ys = ps @ p # zs" and cq: "zs @ [right_end n] = c # qs" and r: "snd (rng l p) < a" "a \<le> b" "b < fst (rng l c)" "INT32_MIN < a" "b < INT32_MAX"
    using assms unfolding insert_at_def by blast+
  have full: "ys @ [right_end n] = ps @ p # c # qs" using ys cq by simp
  then show m: "map (rng l) (ys @ [right_end n]) = map (rng l) ps @ rng l p # rng l c # map (rng l) qs" by simp
  have d: "distinct (ys @ right_end n # fs)" using ok by (simp add: lz_ok_def lz_links_def)
  then show dis: "distinct (ps @ p # c # qs)" unfolding full [symmetric] by simp
  have so: "sorted_wrt sep (map (rng l) (ys @ [right_end n]))" using ok unfolding lz_ok_def lz_ranges_def by blast
  then show "sorted_wrt sep (map (rng l) ps @ rng l p # rng l c # map (rng l) qs)" unfolding m .
  have rh: "rng l (left_end n) = (INT32_MIN, INT32_MIN)" and rt: "rng l (right_end n) = (INT32_MAX, INT32_MAX)"
    and rg: "\<And>j. j \<in> set ys \<Longrightarrow> j \<noteq> left_end n \<Longrightarrow> fst (rng l j) \<le> snd (rng l j)" using ok by (auto simp: lz_ok_def lz_ranges_def)
  show p: "p \<in> set ys" "p \<noteq> right_end n" "c \<in> set (ys @ [right_end n])" using ys full d by auto
  show "fst (rng l p) \<le> snd (rng l p)" using rg [of p] p(1) rh by (cases "p = left_end n") simp_all
  show cc: "fst (rng l c) \<le> snd (rng l c)" using rg [of c] p(3) rh rt by (cases "c = left_end n"; cases "c = right_end n") auto
  have "a \<le> snd (rng l c)" using r cc by linarith
  note f = split_facts [OF ok ys cq r(1) this r(2,5)]
  show "c \<noteq> left_end n" by (rule f(5))
  show "c = right_end n \<longleftrightarrow> zs = []" using cq d ys by (cases zs) auto
  have m: "\<not> ll_marks l ! unat p" "\<not> ll_marks l ! unat c" using ok p by (auto simp: lz_ok_def lz_links_def)
  have "p \<in> set (ys @ right_end n # fs)" "c \<in> set (ys @ right_end n # fs)" using p by auto
  note v = lz_valid [OF ok this(1)] lz_valid [OF ok this(2)]
  show "pair_ok l p c" using v m f(2,4) ok by (simp add: pair_ok_def nx_def lz_ok_def lz_shape_def)
qed

lemma insert_left_ok:
  assumes "insert_at n l ys fs a b ps p zs c qs" "snd (rng l p) + 1 = a \<and> INT32_MIN < fst (rng l p)" "\<not> (b + 1 = fst (rng l c) \<and> fst (rng l c) < INT32_MAX)"
    and "same_list l' l" "ll_free l' = ll_free l" "ll_marks l' = ll_marks l" "nd l' = (nd l)(p := (nd l p)\<lparr>nd_right := b\<rparr>)"
  shows "lz_ok n l' ys fs" "cover n l' ys = cover n l ys \<union> {a..b}"
proof -
  note i = insert_atD [OF assms(1)]
  have rg: "rng l' j = (if j = p then (fst (rng l p), b) else rng l j)" for j by (simp add: rng_def assms(7))
  have ph: "p \<noteq> left_end n" using assms(2) i(1) by (auto simp: lz_ok_def lz_ranges_def)
  have full: "ys @ [right_end n] = ps @ p # c # qs" using i(2,3) by simp
  note R = lz_rangesD [OF conjunct2 [OF conjunct2 [OF i(1) [unfolded lz_ok_def]]]]
  have "lz_ranges n l' ys"
  proof (rule lz_rangesI)
    show "rng l' (left_end n) = (INT32_MIN, INT32_MIN)" "rng l' (right_end n) = (INT32_MAX, INT32_MAX)" using R(1,2) ph i(12) by (simp_all add: rg)
    show "map (rng l') (ys @ [right_end n]) = map (rng l) ps @ (fst (rng l p), b) # rng l c # map (rng l) qs" unfolding full using i(9) by (auto simp: rg)
    show "sorted_wrt sep (map (rng l) ps @ (fst (rng l p), b) # rng l c # map (rng l) qs)"
      by (rule sep_insert(1) [OF i(19,4,5,6,16,17,7,8)]) (use assms(2,3) in blast)+
  next
    fix j assume "j \<in> set ys" "j \<noteq> left_end n"
    then show "INT32_MIN < fst (rng l' j) \<and> fst (rng l' j) \<le> snd (rng l' j) \<and> snd (rng l' j) < INT32_MAX"
      using R(3) [of j] i(4,5,8) assms(2) by (cases "j = p") (simp_all add: rg)
  qed
  moreover have "lz_shape n l'" using i(1) assms(4) by (intro lz_shape_keep [of n l l']) (simp_all add: lz_ok_def assms(7))
  moreover have "lz_links n l' ys fs" using i(1) by (intro lz_links_keep [of n l _ _ l']) (simp_all add: lz_ok_def assms(5-7) nx_def fun_eq_iff)
  ultimately show "lz_ok n l' ys fs" by (simp add: lz_ok_def)
  have "{fst (rng l p)..b} = {fst (rng l p)..snd (rng l p)} \<union> {a..b}" using assms(2) i(4,5,16) by auto
  then show "cover n l' ys = cover n l ys \<union> {a..b}" using i(11) ph by (intro cover_change [of p, OF _ rg]) (simp_all add: cells_def)
qed

lemma insert_right_ok:
  assumes "insert_at n l ys fs a b ps p zs c qs" "\<not> (snd (rng l p) + 1 = a \<and> INT32_MIN < fst (rng l p))" "b + 1 = fst (rng l c) \<and> fst (rng l c) < INT32_MAX"
    and "same_list l' l" "ll_free l' = ll_free l" "ll_marks l' = ll_marks l" "nd l' = (nd l)(c := (nd l c)\<lparr>nd_left := a\<rparr>)"
  shows "lz_ok n l' ys fs" "cover n l' ys = cover n l ys \<union> {a..b}"
proof -
  note i = insert_atD [OF assms(1)]
  have rg: "rng l' j = (if j = c then (a, snd (rng l c)) else rng l j)" for j by (simp add: rng_def assms(7))
  have ct: "c \<noteq> right_end n" using assms(3) i(1) by (auto simp: lz_ok_def lz_ranges_def)
  then have cy: "c \<in> set ys" using i(13) by simp
  have full: "ys @ [right_end n] = ps @ p # c # qs" using i(2,3) by simp
  note R = lz_rangesD [OF conjunct2 [OF conjunct2 [OF i(1) [unfolded lz_ok_def]]]]
  have "lz_ranges n l' ys"
  proof (rule lz_rangesI)
    show "rng l' (left_end n) = (INT32_MIN, INT32_MIN)" "rng l' (right_end n) = (INT32_MAX, INT32_MAX)" using R(1,2) ct i(14) by (simp_all add: rg)
    show "map (rng l') (ys @ [right_end n]) = map (rng l) ps @ rng l p # (a, snd (rng l c)) # map (rng l) qs" unfolding full using i(9) by (auto simp: rg)
    show "sorted_wrt sep (map (rng l) ps @ rng l p # (a, snd (rng l c)) # map (rng l) qs)"
      by (rule sep_insert(2) [OF i(19,4,5,6,16,17,7,8)]) (use assms(2,3) in blast)+
  next
    fix j assume "j \<in> set ys" "j \<noteq> left_end n"
    then show "INT32_MIN < fst (rng l' j) \<and> fst (rng l' j) \<le> snd (rng l' j) \<and> snd (rng l' j) < INT32_MAX"
      using R(3) [of j] i(5,6,7,17) assms(3) by (cases "j = c") (simp_all add: rg)
  qed
  moreover have "lz_shape n l'" using i(1) assms(4) by (intro lz_shape_keep [of n l l']) (simp_all add: lz_ok_def assms(7))
  moreover have "lz_links n l' ys fs" using i(1) by (intro lz_links_keep [of n l _ _ l']) (simp_all add: lz_ok_def assms(5-7) nx_def fun_eq_iff)
  ultimately show "lz_ok n l' ys fs" by (simp add: lz_ok_def)
  have "{a..snd (rng l c)} = {fst (rng l c)..snd (rng l c)} \<union> {a..b}" using assms(3) i(5,6,17) by auto
  then show "cover n l' ys = cover n l ys \<union> {a..b}" using cy i(14) by (intro cover_change [of c, OF _ rg]) (simp_all add: cells_def)
qed

lemma insert_new_ok:
  assumes "insert_at n l ys (i # fs) a b ps p zs c qs" "\<not> (snd (rng l p) + 1 = a \<and> INT32_MIN < fst (rng l p))"
    and "\<not> (b + 1 = fst (rng l c) \<and> fst (rng l c) < INT32_MAX)"
    and "same_list l' l" "ll_free l' = nd_next (nd l i)" "ll_marks l' = (ll_marks l)[unat i := False]"
    and "nd l' = (nd l)(p := (nd l p)\<lparr>nd_next := i\<rparr>, i := \<lparr>nd_idx = i, nd_left = a, nd_right = b, nd_lock = 0, nd_next = c\<rparr>)"
  shows "lz_ok n l' (ps @ p # i # zs) fs" "cover n l' (ps @ p # i # zs) = cover n l ys \<union> {a..b}"
proof -
  note o = insert_atD [OF assms(1)]
  have links: "lz_links n l ys (i # fs)" using o(1) by (simp add: lz_ok_def)
  have d: "distinct (ys @ right_end n # i # fs)" using links by (simp add: lz_links_def)
  have full: "ys @ [right_end n] = ps @ p # c # qs" using o(2,3) by simp
  have "left_end n \<in> set ys" using links unfolding lz_links_def by (metis hd_in_set)
  then have il: "i \<noteq> left_end n" using d by auto
  have ne: "i \<notin> set (ps @ p # c # qs)" using d unfolding full [symmetric] by auto
  have v: "unat i < n + 2" "unat i < length (ll_marks l)" "nd_idx (nd l i) = i" "nd_lock (nd l i) = 0" using lz_valid [OF o(1), of i] by auto
  have rg: "rng l' j = (if j = i then (a, b) else rng l j)" for j by (auto simp: rng_def assms(7))
  have nxt: "nx l' = (nx l)(p := i, i := c)" by (auto simp: nx_def assms(7) fun_eq_iff)
  have ch: "chain (nx l) (left_end n) ps p" "nx l p = c" "chain (nx l) c zs (right_end n)" "chain (nx l) (nx l i) fs EOL"
    using links o(2,3) by (auto simp: lz_links_def chain_append) (cases zs; auto)+
  have "chain (nx l') (left_end n) ps p" using ch(1) o(9) ne by (subst chain_cong [of _ _ "nx l"]) (auto simp: nxt)
  moreover have "chain (nx l') c zs (right_end n)"
    using ch(3) d o(2) by (subst chain_cong [of _ _ "nx l"]) (auto simp: nxt)
  moreover have "chain (nx l') (nx l i) fs EOL" using ch(4) d o(2) by (subst chain_cong [of _ _ "nx l"]) (auto simp: nxt)
  moreover have "i \<noteq> p" using ne by auto
  ultimately have chains: "chain (nx l') (left_end n) (ps @ p # i # zs) (right_end n)" "chain (nx l') (ll_free l') fs EOL"
    using ch by (auto simp: chain_append nxt assms(5) nx_def)
  have marks: "\<not> ll_marks l' ! unat j" if "j \<in> set ((ps @ p # i # zs) @ [right_end n])" for j
  proof (cases "j = i")
    case False
    then have "j \<in> set (ys @ [right_end n])" using that o(2) by auto
    then have "\<not> ll_marks l ! unat j" using links unfolding lz_links_def by blast
    then show ?thesis using False by (simp add: assms(6) word_unat_eq_iff [symmetric])
  qed (use v(2) in \<open>simp add: assms(6)\<close>)
  note L = lz_linksD [OF links]
  note R = lz_rangesD [OF conjunct2 [OF conjunct2 [OF o(1) [unfolded lz_ok_def]]]]
  have "hd (ps @ p # i # zs) = left_end n" using L(2) o(2) by (cases ps) simp_all
  moreover have "distinct ((ps @ p # i # zs) @ right_end n # fs)" using d o(2) by auto
  moreover have "\<forall>j\<in>set ((ps @ p # i # zs) @ fs). j \<noteq> left_end n \<longrightarrow> unat j < n" using L(3) o(2) by auto
  moreover have "length (ps @ p # i # zs) + length fs = n + 1" using L(4) o(2) by simp
  ultimately have "lz_links n l' (ps @ p # i # zs) fs" using chains marks unfolding lz_links_def by blast
  moreover have "lz_shape n l'" using o(1) assms(4) v by (intro lz_shape_keep [of n l l']) (auto simp: lz_ok_def assms(7))
  moreover have "lz_ranges n l' (ps @ p # i # zs)"
  proof (rule lz_rangesI)
    show "rng l' (left_end n) = (INT32_MIN, INT32_MIN)" "rng l' (right_end n) = (INT32_MAX, INT32_MAX)" using R(1,2) il d by (auto simp: rg)
    show "map (rng l') ((ps @ p # i # zs) @ [right_end n]) = map (rng l) ps @ rng l p # (a, b) # rng l c # map (rng l) qs"
      using ne o(3) by (auto simp: rg)
    show "sorted_wrt sep (map (rng l) ps @ rng l p # (a, b) # rng l c # map (rng l) qs)"
      by (rule sep_insert(3) [OF o(19,4,5,6,16,17,7,8)]) (use assms(2,3) in blast)+
  next
    fix j assume "j \<in> set (ps @ p # i # zs)" "j \<noteq> left_end n"
    then show "INT32_MIN < fst (rng l' j) \<and> fst (rng l' j) \<le> snd (rng l' j) \<and> snd (rng l' j) < INT32_MAX"
      using R(3) [of j] o(2,5,7,8) by (cases "j = i") (auto simp: rg)
  qed
  ultimately show "lz_ok n l' (ps @ p # i # zs) fs" by (simp add: lz_ok_def)
  have "set (ps @ p # i # zs) - {left_end n} = insert i (set ys - {left_end n})" using il o(2) by auto
  moreover have "(\<Union>j\<in>set ys - {left_end n}. cells (rng l' j)) = (\<Union>j\<in>set ys - {left_end n}. cells (rng l j))"
    using d by (intro SUP_cong) (auto simp: rg)
  moreover have "cells (rng l' i) = {a..b}" by (simp add: rg cells_def)
  ultimately show "cover n l' (ps @ p # i # zs) = cover n l ys \<union> {a..b}" unfolding cover_cells by (simp only: UN_insert Un_commute)
qed

text \<open>Taking a node out of the list and giving it to the free list.\<close>

lemma links_remove:
  assumes links: "lz_links n l (ps @ p # c # zr) fs" and c: "c \<noteq> left_end n" "unat c < length (ll_marks l)"
    and l': "ll_free l' = c" "ll_marks l' = (ll_marks l)[unat c := True]" "nx l' = (nx l)(p := nx l c, c := ll_free l)"
  shows "lz_links n l' (ps @ p # zr) (c # fs)"
proof -
  note L = lz_linksD [OF links]
  have pc: "p \<noteq> c" and d: "distinct ((ps @ p # c # zr) @ right_end n # fs)" using L(5) by auto
  have ch: "chain (nx l) (left_end n) ps p" "chain (nx l) (nx l c) zr (right_end n)" using L(6) by (auto simp: chain_append)
  have "chain (nx l') (left_end n) ps p" using ch(1) d by (subst chain_cong [of _ _ "nx l"]) (auto simp: l'(3))
  moreover have "chain (nx l') (nx l c) zr (right_end n)" using ch(2) d by (subst chain_cong [of _ _ "nx l"]) (auto simp: l'(3))
  moreover have "chain (nx l') (ll_free l) fs EOL" using L(7) d by (subst chain_cong [of _ _ "nx l"]) (auto simp: l'(3))
  ultimately have chains: "chain (nx l') (left_end n) (ps @ p # zr) (right_end n)" "chain (nx l') (ll_free l') (c # fs) EOL"
    using pc by (auto simp: chain_append l'(1,3))
  have marks: "\<not> ll_marks l' ! unat j" if "j \<in> set ((ps @ p # zr) @ [right_end n])" for j
  proof -
    have "j \<in> set ((ps @ p # c # zr) @ [right_end n])" "j \<noteq> c" using that d by auto
    moreover from this have "\<not> ll_marks l ! unat j" using links unfolding lz_links_def by blast
    ultimately show ?thesis by (simp add: l'(2) word_unat_eq_iff [symmetric])
  qed
  have "hd (ps @ p # zr) = left_end n" using L(2) by (cases ps) simp_all
  moreover have "distinct ((ps @ p # zr) @ right_end n # c # fs)" using d by auto
  moreover have "\<forall>j\<in>set ((ps @ p # zr) @ c # fs). j \<noteq> left_end n \<longrightarrow> unat j < n" using L(3) by auto
  moreover have "length (ps @ p # zr) + length (c # fs) = n + 1" using L(4) by simp
  ultimately show ?thesis using chains marks unfolding lz_links_def by blast
qed

lemma insert_merge_ok:
  assumes "insert_at n l ys fs a b ps p zs c qs" "snd (rng l p) + 1 = a \<and> INT32_MIN < fst (rng l p)" "b + 1 = fst (rng l c) \<and> fst (rng l c) < INT32_MAX"
    and "same_list l' l" "ll_free l' = c" "ll_marks l' = (ll_marks l)[unat c := True]"
    and "nd l' = (nd l)(p := (nd l p)\<lparr>nd_right := snd (rng l c), nd_next := nx l c\<rparr>, c := (nd l c)\<lparr>nd_next := ll_free l\<rparr>)"
  shows "lz_ok n l' (ps @ p # tl zs) (c # fs)" "cover n l' (ps @ p # tl zs) = cover n l ys \<union> {a..b}"
proof -
  note o = insert_atD [OF assms(1)]
  have links: "lz_links n l ys fs" using o(1) by (simp add: lz_ok_def)
  have ct: "c \<noteq> right_end n" using assms(3) o(1) by (auto simp: lz_ok_def lz_ranges_def)
  have ph: "p \<noteq> left_end n" using assms(2) o(1) by (auto simp: lz_ok_def lz_ranges_def)
  obtain zr where zs: "zs = c # zr" "qs = zr @ [right_end n]" using o(3,18) ct by (cases zs) auto
  have tl: "tl zs = zr" by (simp add: zs)
  have ys: "ys = ps @ p # c # zr" using o(2) zs by simp
  have pc: "p \<noteq> c" using o(9) by auto
  have v: "unat c < n + 2" "unat c < length (ll_marks l)" using lz_valid [OF o(1), of c] ys by auto
  have rg: "rng l' j = (if j = p then (fst (rng l p), snd (rng l c)) else rng l j)" for j using pc by (auto simp: rng_def assms(7))
  have nxt: "nx l' = (nx l)(p := nx l c, c := ll_free l)" using pc by (auto simp: nx_def assms(7) fun_eq_iff)
  note R = lz_rangesD [OF conjunct2 [OF conjunct2 [OF o(1) [unfolded lz_ok_def]]]]
  have "lz_links n l' (ps @ p # tl zs) (c # fs)" unfolding tl by (rule links_remove [OF links [unfolded ys] o(14) v(2) assms(5,6) nxt])
  moreover have "lz_shape n l'" using o(1) assms(4) by (intro lz_shape_keep [of n l l']) (auto simp: lz_ok_def assms(7))
  moreover have "lz_ranges n l' (ps @ p # zr)"
  proof (rule lz_rangesI)
    show "rng l' (left_end n) = (INT32_MIN, INT32_MIN)" "rng l' (right_end n) = (INT32_MAX, INT32_MAX)" using R(1,2) ph o(12) by (simp_all add: rg)
    show "map (rng l') ((ps @ p # zr) @ [right_end n]) = map (rng l) ps @ (fst (rng l p), snd (rng l c)) # map (rng l) qs"
      using o(9) zs(2) by (auto simp: rg)
    show "sorted_wrt sep (map (rng l) ps @ (fst (rng l p), snd (rng l c)) # map (rng l) qs)" by (rule sep_insert(4) [OF o(19,4,5,6,16,17,7,8)])
  next
    fix j assume j: "j \<in> set (ps @ p # zr)" "j \<noteq> left_end n"
    have "snd (rng l c) < INT32_MAX" using R(3) [of c] o(14) ys by simp
    then show "INT32_MIN < fst (rng l' j) \<and> fst (rng l' j) \<le> snd (rng l' j) \<and> snd (rng l' j) < INT32_MAX"
      using R(3) [of j] j ys assms(2) o(4,5,6,16,17) by (cases "j = p") (auto simp: rg)
  qed
  ultimately show "lz_ok n l' (ps @ p # tl zs) (c # fs)" by (simp add: lz_ok_def tl)
  have "{fst (rng l p)..snd (rng l c)} = {fst (rng l p)..snd (rng l p)} \<union> {fst (rng l c)..snd (rng l c)} \<union> {a..b}" using assms(2,3) o(4,5,6,16,17) by auto
  moreover have "set ys - {left_end n} = insert p (insert c (set (ps @ zr) - {left_end n}))" "set (ps @ p # zr) - {left_end n} = insert p (set (ps @ zr) - {left_end n})"
    using ph o(14) ys by auto
  moreover have "(\<Union>j\<in>set (ps @ zr) - {left_end n}. cells (rng l' j)) = (\<Union>j\<in>set (ps @ zr) - {left_end n}. cells (rng l j))"
    using o(9) zs(2) by (intro SUP_cong) (auto simp: rg)
  moreover have "rng l' p = (fst (rng l p), snd (rng l c))" by (simp add: rg)
  ultimately show "cover n l' (ps @ p # tl zs) = cover n l ys \<union> {a..b}"
    unfolding cover_cells tl by (simp only: UN_insert cells_def fst_conv snd_conv Un_ac)
qed

lemma put_free_eq:
  assumes "ll_free_lock l = 0" "unat i < length (ll_nodes l)" "nd_idx (nd l i) = i"
  shows "lazylist_put_free_node i l = Some ((set_node i (\<lambda>n. n\<lparr>nd_next := ll_free l\<rparr>) l)\<lparr>ll_free := i\<rparr>)"
  using assms by (cases l) (simp add: lazylist_put_free_node_def node_set_def node_get_def set_node_def nd_def)

text \<open>
  An insertion of a range that meets the list changes nothing; any other range is added, as long as there is a free node.
\<close>

lemma insert_overlap:
  assumes "lz_ok n l ys fs" "INT32_MIN < a" "a \<le> b" "b < INT32_MAX" "{a..b} \<inter> cover n l ys \<noteq> {}"
  shows "lazylist_insert (a, b) l = Some (0, l)"
proof -
  have "a \<le> INT32_MAX" using assms(3,4) by simp
  then obtain ps p zs c qs where s: "ys = ps @ p # zs" "zs @ [right_end n] = c # qs" "snd (rng l p) < a" "a \<le> snd (rng l c)"
    "lazylist_find_pred l (a, b) = Some (if fst (rng l c) \<le> b then None else Some (p, c))" using find_pred_split [OF assms(1,2)] by metis
  then show ?thesis using split_facts(1) [OF assms(1) s(1-4) assms(3,4)] assms(5) by (subst lazylist_insert.simps) simp
qed

lemma insert_added:
  assumes "lz_ok n l ys fs" "INT32_MIN < a" "a \<le> b" "b < INT32_MAX" "{a..b} \<inter> cover n l ys = {}" "fs \<noteq> []"
  obtains l' ys' fs' where "lazylist_insert (a, b) l = Some (0, l')" "lz_ok n l' ys' fs'" "cover n l' ys' = cover n l ys \<union> {a..b}"
proof -
  have "a \<le> INT32_MAX" using assms(3,4) by simp
  then obtain ps p zs c qs where s: "ys = ps @ p # zs" "zs @ [right_end n] = c # qs" "snd (rng l p) < a" "a \<le> snd (rng l c)"
    "lazylist_find_pred l (a, b) = Some (if fst (rng l c) \<le> b then None else Some (p, c))" using find_pred_split [OF assms(1,2)] by metis
  have bc: "\<not> fst (rng l c) \<le> b" using split_facts(1) [OF assms(1) s(1-4) assms(3,4)] assms(5) by simp
  have at: "insert_at n l ys fs a b ps p zs c qs" using assms(1-4) s(1-3) bc by (simp add: insert_at_def)
  note o = insert_atD [OF at]
  have step: "lazylist_insert (a, b) l = (case del of None \<Rightarrow> Some (0, l1) | Some d \<Rightarrow> map_option (Pair 0) (lazylist_put_free_node d l1))"
    if "insert_round (a, b) p c l = Some (True, False, del, l1)" for del l1
    using s(5) bc that by (subst lazylist_insert.simps) (simp add: map_option_case split: option.splits)
  consider (both) "snd (rng l p) + 1 = a \<and> INT32_MIN < fst (rng l p)" "b + 1 = fst (rng l c) \<and> fst (rng l c) < INT32_MAX"
    | (left) "snd (rng l p) + 1 = a \<and> INT32_MIN < fst (rng l p)" "\<not> (b + 1 = fst (rng l c) \<and> fst (rng l c) < INT32_MAX)"
    | (right) "\<not> (snd (rng l p) + 1 = a \<and> INT32_MIN < fst (rng l p))" "b + 1 = fst (rng l c) \<and> fst (rng l c) < INT32_MAX"
    | (new) "\<not> (snd (rng l p) + 1 = a \<and> INT32_MIN < fst (rng l p))" "\<not> (b + 1 = fst (rng l c) \<and> fst (rng l c) < INT32_MAX)" by blast
  then show thesis
  proof cases
    case both
    then obtain l1 where l1: "insert_round (a, b) p c l = Some (True, False, Some c, l1)" "same_list l1 l" "ll_free l1 = ll_free l"
      "ll_marks l1 = (ll_marks l)[unat c := True]" "nd l1 = (nd l)(p := (nd l p)\<lparr>nd_right := nd_right (nd l c), nd_next := nd_next (nd l c)\<rparr>)"
      using round_merge [OF o(15), of a b] by (auto simp: rng_def)
    have c: "unat c < length (ll_nodes l1)" "ll_free_lock l1 = 0" "nd_idx (nd l1 c) = c" "p \<noteq> c" using o(15) l1(2,5) by (simp_all add: pair_ok_def same_list_def)
    let ?l' = "(set_node c (\<lambda>n. n\<lparr>nd_next := ll_free l1\<rparr>) l1)\<lparr>ll_free := c\<rparr>"
    have l': "same_list ?l' l" "ll_free ?l' = c" "ll_marks ?l' = (ll_marks l)[unat c := True]" using l1(2,4) by (simp_all add: same_list_def)
    have nd': "nd ?l' = (nd l)(p := (nd l p)\<lparr>nd_right := snd (rng l c), nd_next := nx l c\<rparr>, c := (nd l c)\<lparr>nd_next := ll_free l\<rparr>)"
      using c l1(3) by (auto simp: fun_eq_iff l1(5) rng_def nx_def)
    show thesis by (rule that [OF _ insert_merge_ok [OF at both l' nd']]) (simp add: step [OF l1(1)] put_free_eq [OF c(2,1,3)])
  next
    case left
    then obtain l1 where "insert_round (a, b) p c l = Some (True, False, None, l1)" "same_list l1 l" "ll_free l1 = ll_free l"
      "ll_marks l1 = ll_marks l" "nd l1 = (nd l)(p := (nd l p)\<lparr>nd_right := b\<rparr>)"
      using round_left [OF o(15), of a b] by (auto simp: rng_def)
    then show thesis using insert_left_ok [OF at left, of l1] by (intro that [of l1 ys fs]) (simp_all add: step)
  next
    case right
    then obtain l1 where "insert_round (a, b) p c l = Some (True, False, None, l1)" "same_list l1 l" "ll_free l1 = ll_free l"
      "ll_marks l1 = ll_marks l" "nd l1 = (nd l)(c := (nd l c)\<lparr>nd_left := a\<rparr>)"
      using round_right [OF o(15), of a b] by (auto simp: rng_def)
    then show thesis using insert_right_ok [OF at right, of l1] by (intro that [of l1 ys fs]) (simp_all add: step)
  next
    case new
    obtain i gs where fs: "fs = i # gs" using assms(6) by (cases fs) simp_all
    have links: "lz_links n l ys (i # gs)" using assms(1) by (simp add: lz_ok_def fs)
    have i: "ll_free l = i" "i \<noteq> p" "i \<noteq> c" using lz_linksD(5,7) [OF links] o(11,13) by auto
    have v: "unat i < length (ll_nodes l)" "unat i < length (ll_marks l)" "nd_idx (nd l i) = i" using lz_valid [OF assms(1), of i] fs by simp_all
    obtain l1 where "insert_round (a, b) p c l = Some (True, False, None, l1)" "same_list l1 l" "ll_free l1 = nd_next (nd l i)"
      "ll_marks l1 = (ll_marks l)[unat i := False]"
      "nd l1 = (nd l)(p := (nd l p)\<lparr>nd_next := i\<rparr>, i := \<lparr>nd_idx = i, nd_left = a, nd_right = b, nd_lock = 0, nd_next = c\<rparr>)"
      using round_new [OF o(15), of a b i] new i v by (auto simp: rng_def)
    then show thesis using insert_new_ok [OF at [unfolded fs] new, of l1] by (intro that [of l1 "ps @ p # i # zs" gs]) (simp_all add: step)
  qed
qed

section \<open>The front of the list\<close>

lemma pop_step:
  assumes "lz_ok n l ys fs"
  shows "lazylist_pop_front x l =
    (let f = nx l (left_end n)
     in if nd_left (nd l f) = INT32_MAX \<or> x \<noteq> -1 \<and> nd_left (nd l f) \<noteq> x then Some (None, l)
        else (case pop_round x f (nx l f) l of
                None \<Rightarrow> None
              | Some (None, _, l) \<Rightarrow> lazylist_pop_front x l
              | Some (Some r, d, l) \<Rightarrow> map_option (Pair (Some r)) (lazylist_put_free_node d l)))"
proof -
  have links: "lz_links n l ys fs" and head: "ll_head l = left_end n" using assms by (simp_all add: lz_ok_def lz_shape_def)
  obtain gs where ys: "ys = left_end n # gs" using lz_linksD(1,2) [OF links] by (cases ys) auto
  have h: "unat (left_end n) < length (ll_nodes l)" "left_end n \<noteq> EOL" using lz_valid [OF assms, of "left_end n"] ys by simp_all
  have "nx l (left_end n) \<in> set (ys @ right_end n # fs)" using lz_linksD(6) [OF links] by (cases gs) (auto simp: ys)
  then have "unat (nx l (left_end n)) < length (ll_nodes l)" by (rule lz_valid(2) [OF assms])
  then show ?thesis
    by (subst lazylist_pop_front.simps) (simp add: head h node_access nx_def Let_def map_option_case cong: option.case_cong)
qed

lemma pop_waits:
  assumes "lz_ok n l ys fs" "fst (rng l (nx l (left_end n))) = INT32_MAX \<or> x \<noteq> -1 \<and> fst (rng l (nx l (left_end n))) \<noteq> x"
  shows "lazylist_pop_front x l = Some (None, l)"
  using assms(2) by (simp add: pop_step [OF assms(1)] rng_def)

lemma pop_round_takes:
  assumes "pair_ok l f g" "nd_left (nd l f) = x" "unat (ll_head l) < length (ll_nodes l)" "ll_head l \<noteq> f" "ll_head l \<noteq> g"
  obtains l' where "pop_round x f g l = Some (Some (rng l f), f, l')" "same_list l' l" "ll_free l' = ll_free l"
    "ll_marks l' = (ll_marks l)[unat f := True]" "nd l' = (nd l)(ll_head l := (nd l (ll_head l))\<lparr>nd_next := g\<rparr>)"
proof -
  note o = assms(1) [unfolded pair_ok_def]
  define l' where "l' = set_node f (\<lambda>n. n\<lparr>nd_lock := 0\<rparr>) (set_node g (\<lambda>n. n\<lparr>nd_lock := 0\<rparr>) (set_node (ll_head l) (\<lambda>n. n\<lparr>nd_next := g\<rparr>)
     ((locked l f g)\<lparr>ll_marks := (ll_marks l)[unat f := True]\<rparr>)))"
  have "pop_round x f g l = Some (Some (rng l f), f, l')"
    using assms(2,3) o by (simp add: pop_round_def lock_pair [OF assms(1)] node_set_def node_unlock_def set_mark_def l'_def rng_def)
  moreover have "nd l' = (nd l)(ll_head l := (nd l (ll_head l))\<lparr>nd_next := g\<rparr>)"
    using o assms(3-5) by (cases "nd l f"; cases "nd l g") (auto simp: fun_eq_iff l'_def assms(1))
  ultimately show thesis using o by (intro that [of l']) (simp_all add: same_list_def l'_def)
qed

lemma front_facts:
  assumes "lz_ok n l (left_end n # f # gs) fs"
  shows "nx l (left_end n) = f" "pair_ok l f (nx l f)" "nx l f \<in> set (gs @ [right_end n])" "left_end n \<notin> set (f # gs @ [right_end n])" "distinct (f # gs @ [right_end n])"
    "\<forall>j\<in>set gs. sep (rng l f) (rng l j)" "INT32_MIN < fst (rng l f) \<and> fst (rng l f) \<le> snd (rng l f) \<and> snd (rng l f) < INT32_MAX"
proof -
  have links: "lz_links n l (left_end n # f # gs) fs" and R: "lz_ranges n l (left_end n # f # gs)" using assms by (simp_all add: lz_ok_def)
  note L = lz_linksD [OF links]
  show "nx l (left_end n) = f" using L(6) by simp
  show g: "nx l f \<in> set (gs @ [right_end n])" using L(6) by (cases gs) simp_all
  show d: "left_end n \<notin> set (f # gs @ [right_end n])" "distinct (f # gs @ [right_end n])" using L(5) by auto
  show "\<forall>j\<in>set gs. sep (rng l f) (rng l j)" using lz_rangesD(4) [OF R] by simp
  show "INT32_MIN < fst (rng l f) \<and> fst (rng l f) \<le> snd (rng l f) \<and> snd (rng l f) < INT32_MAX" using d(1) by (intro lz_rangesD(3) [OF R]) auto
  have m: "\<not> ll_marks l ! unat f" "\<not> ll_marks l ! unat (nx l f)" using links g unfolding lz_links_def by auto
  have v: "f \<in> set ((left_end n # f # gs) @ right_end n # fs)" "nx l f \<in> set ((left_end n # f # gs) @ right_end n # fs)" using g by auto
  show "pair_ok l f (nx l f)"
    using lz_valid [OF assms v(1)] lz_valid [OF assms v(2)] m d(2) g assms by (auto simp: pair_ok_def nx_def lz_ok_def lz_shape_def)
qed

lemma pop_takes:
  assumes ok: "lz_ok n l (left_end n # f # gs) fs"
  obtains l' where "lazylist_pop_front (fst (rng l f)) l = Some (Some (rng l f), l')" "lz_ok n l' (left_end n # gs) (f # fs)"
    "cover n l' (left_end n # gs) = cover n l (left_end n # f # gs) - cells (rng l f)"
proof -
  let ?h = "left_end n"
  note F = front_facts [OF ok]
  have links: "lz_links n l (?h # f # gs) fs" and ranges: "lz_ranges n l (?h # f # gs)" and shape: "lz_shape n l" using ok by (simp_all add: lz_ok_def)
  have head: "ll_head l = ?h" using shape by (simp add: lz_shape_def)
  have h: "unat (ll_head l) < length (ll_nodes l)" using lz_valid(2) [OF ok, of ?h] by (simp add: head)
  have ne: "ll_head l \<noteq> f" "ll_head l \<noteq> nx l f" using F(3,4) unfolding head by auto
  obtain l1 where l1: "pop_round (fst (rng l f)) f (nx l f) l = Some (Some (rng l f), f, l1)" "same_list l1 l" "ll_free l1 = ll_free l"
    "ll_marks l1 = (ll_marks l)[unat f := True]" "nd l1 = (nd l)(?h := (nd l ?h)\<lparr>nd_next := nx l f\<rparr>)"
    using pop_round_takes [OF F(2) _ h ne] by (auto simp: rng_def head)
  have f: "unat f < length (ll_nodes l1)" "ll_free_lock l1 = 0" "nd_idx (nd l1 f) = f" "?h \<noteq> f"
    using F(2,4) l1(2,5) by (auto simp: pair_ok_def same_list_def)
  let ?l' = "(set_node f (\<lambda>n. n\<lparr>nd_next := ll_free l1\<rparr>) l1)\<lparr>ll_free := f\<rparr>"
  have nd': "nd ?l' = (nd l)(?h := (nd l ?h)\<lparr>nd_next := nx l f\<rparr>, f := (nd l f)\<lparr>nd_next := ll_free l\<rparr>)" using f l1(3) by (auto simp: fun_eq_iff l1(5))
  have rg: "rng ?l' = rng l" using f(4) by (auto simp: fun_eq_iff rng_def nd')
  have nxt: "nx ?l' = (nx l)(?h := nx l f, f := ll_free l)" using f(4) by (auto simp: nx_def nd' fun_eq_iff)
  have "lazylist_pop_front (fst (rng l f)) l = Some (Some (rng l f), ?l')"
    using F(7) by (simp add: pop_step [OF ok] F(1) l1(1) put_free_eq [OF f(2,1,3)] Let_def) (simp add: rng_def)
  moreover have "lz_shape n ?l'" using shape l1(2) by (intro lz_shape_keep [of n l ?l']) (auto simp: same_list_def nd')
  moreover have "lz_links n ?l' ([] @ ?h # gs) (f # fs)"
    using links F(2,4) l1(4) by (intro links_remove [of n l "[]" ?h f gs fs ?l'] nxt) (auto simp: pair_ok_def)
  moreover have "lz_ranges n ?l' (?h # gs)" using ranges unfolding lz_ranges_def rg by auto
  moreover have "cover n ?l' (?h # gs) = cover n l (?h # f # gs) - cells (rng l f)"
  proof -
    have "set (?h # gs) - {?h} = set gs" "set (?h # f # gs) - {?h} = insert f (set gs)" using F(4) by auto
    moreover have "cells (rng l j) \<inter> cells (rng l f) = {}" if "j \<in> set gs" for j using F(6) that by (auto simp: sep_def cells_def)
    ultimately show ?thesis unfolding cover_cells rg by auto
  qed
  ultimately show thesis by (intro that [of ?l']) (simp_all add: lz_ok_def)
qed

text \<open>What the front says about the bytes in the list.\<close>

lemma cover_front:
  assumes "lz_ok n l (left_end n # f # gs) fs"
  shows "cells (rng l f) \<subseteq> cover n l (left_end n # f # gs)" "\<forall>y\<in>cover n l (left_end n # f # gs). fst (rng l f) \<le> y"
    "snd (rng l f) + 1 \<notin> cover n l (left_end n # f # gs)"
proof -
  note F = front_facts [OF assms]
  have c: "cover n l (left_end n # f # gs) = cells (rng l f) \<union> (\<Union>j\<in>set gs. cells (rng l j))"
    using F(4) unfolding cover_cells by (subst UN_insert [symmetric], intro SUP_cong) auto
  have j: "snd (rng l f) + 1 < fst (rng l j)" if "j \<in> set gs" for j
  proof -
    have "INT32_MIN < fst (rng l j) \<and> fst (rng l j) \<le> snd (rng l j) \<and> snd (rng l j) < INT32_MAX"
      using assms F(4) that unfolding lz_ok_def lz_ranges_def by auto
    then show ?thesis using F(6,7) that by (auto simp: sep_def)
  qed
  show "cells (rng l f) \<subseteq> cover n l (left_end n # f # gs)" unfolding c by blast
  show "\<forall>y\<in>cover n l (left_end n # f # gs). fst (rng l f) \<le> y" unfolding c using j F(7) by (fastforce simp: cells_def)
  show "snd (rng l f) + 1 \<notin> cover n l (left_end n # f # gs)" unfolding c using j by (fastforce simp: cells_def)
qed

section \<open>The first state\<close>

lemma chain_init:
  assumes "i \<le> n" "\<And>j. j < n \<Longrightarrow> g (of_nat j) = (if j = n - 1 then EOL else of_nat (j + 1))" "i < n"
  shows "chain g (of_nat i) (map of_nat [i..<n]) EOL"
  using assms(1,3)
proof (induction "n - i" arbitrary: i)
  case (Suc m)
  then have u: "[i..<n] = i # [Suc i..<n]" by (simp add: upt_conv_Cons)
  have "chain g (of_nat (Suc i)) (map of_nat [Suc i..<n]) EOL" if "Suc i < n" using Suc that by (intro Suc.hyps(1)) auto
  then show ?case using Suc.prems assms(2) [of i] unfolding u by (cases "Suc i = n") auto
qed simp

lemma init_ok:
  assumes "0 < n" "n + 2 \<le> length (ll_nodes l)" "n + 2 \<le> length (ll_marks l)" "n + 2 < 2 ^ 32 - 1" "\<not> ll_marks l ! n" "\<not> ll_marks l ! (n + 1)"
  shows "lz_ok n (lazylist_init (n + 2) l) [left_end n] (map of_nat [0..<n])" "cover n (lazylist_init (n + 2) l) [left_end n] = {}"
proof -
  let ?l = "lazylist_init (n + 2) l"
  have uo: "unat (of_nat i :: u32) = i" if "i < n + 2" for i using that assms(4) by (simp add: unat_of_nat)
  have e: "unat (left_end n) = n" "unat (right_end n) = n + 1" using uo [of n] uo [of "n + 1"] by (simp_all only: left_end_def right_end_def)
  have nd: "nd ?l (of_nat i) = (let x = nd l (of_nat i) in
      if i < n then x\<lparr>nd_idx := of_nat i, nd_next := (if i = n - 1 then EOL else of_nat (i + 1)), nd_lock := 0\<rparr>
      else if i = n then x\<lparr>nd_idx := of_nat n, nd_lock := 0, nd_next := of_nat (n + 1), nd_left := INT32_MIN, nd_right := INT32_MIN\<rparr>
      else x\<lparr>nd_idx := of_nat (n + 1), nd_lock := 0, nd_next := EOL, nd_left := INT32_MAX, nd_right := INT32_MAX\<rparr>)" if "i < n + 2" for i
  proof -
    have "i < length (ll_nodes l)" "i = n + 1 \<or> i \<le> n" using that assms(2) by auto
    then show ?thesis by (auto simp: nd_def lazylist_init_def Let_def uo [OF that] nth_enumerate_eq)
  qed
  have marks: "\<not> ll_marks ?l ! i" if "i < n + 2" for i
  proof -
    have "i < length (ll_marks l)" "i < n \<or> i = n \<or> i = n + 1" using that assms(3) by auto
    then show ?thesis using assms(5,6) by (auto simp: lazylist_init_def Let_def nth_enumerate_eq)
  qed
  have j: "\<exists>i<n + 2. j = of_nat i" if "unat j < n + 2" for j :: u32 using that by (intro exI [of _ "unat j"]) simp
  have "nd_idx (nd ?l j) = j \<and> nd_lock (nd ?l j) = 0" if u: "unat j < n + 2" for j
  proof -
    obtain i where i: "i < n + 2" "j = of_nat i" using j [OF u] by auto
    then have "i < n \<or> i = n \<or> i = n + 1" by auto
    then show ?thesis using nd [OF i(1)] i(2) by (auto simp: Let_def)
  qed
  then have shape: "lz_shape n ?l" using assms(2-4) by (simp add: lz_shape_def) (simp add: lazylist_init_def left_end_def Let_def)
  have "nx ?l (of_nat i) = (if i = n - 1 then EOL else of_nat (i + 1))" if "i < n" for i using nd [of i] that by (simp add: nx_def Let_def)
  then have "chain (nx ?l) (of_nat 0) (map of_nat [0..<n]) EOL" using assms(1) by (intro chain_init) simp_all
  moreover have "ll_free ?l = of_nat 0" by (simp add: lazylist_init_def Let_def)
  moreover have "nx ?l (left_end n) = right_end n" using nd [of n] by (simp add: nx_def left_end_def right_end_def Let_def)
  moreover have "distinct ([left_end n] @ right_end n # map of_nat [0..<n])"
  proof -
    have "inj_on (of_nat :: nat \<Rightarrow> u32) (set ([n, n + 1] @ [0..<n]))" by (rule inj_on_inverseI [of _ unat]) (use uo in auto)
    moreover have "distinct ([n, n + 1] @ [0..<n])" by simp
    moreover have "[left_end n] @ right_end n # map of_nat [0..<n] = map of_nat ([n, n + 1] @ [0..<n])" by (simp add: left_end_def right_end_def)
    ultimately show ?thesis by (simp only: distinct_map simp_thms)
  qed
  moreover have "\<forall>j\<in>set ([left_end n] @ map of_nat [0..<n]). j \<noteq> left_end n \<longrightarrow> unat j < n" using uo by auto
  moreover have "\<forall>j\<in>set ([left_end n] @ [right_end n]). \<not> ll_marks ?l ! unat j" using marks e by auto
  ultimately have "lz_links n ?l [left_end n] (map of_nat [0..<n])" by (simp add: lz_links_def)
  moreover have "rng ?l (left_end n) = (INT32_MIN, INT32_MIN)" "rng ?l (right_end n) = (INT32_MAX, INT32_MAX)"
    using nd [of n] nd [of "n + 1"] by (simp_all add: rng_def left_end_def right_end_def Let_def)
  then have "lz_ranges n ?l [left_end n]" by (simp add: lz_ranges_def sep_def INT32_MIN_def INT32_MAX_def)
  ultimately show "lz_ok n ?l [left_end n] (map of_nat [0..<n])" using shape by (simp add: lz_ok_def)
  show "cover n ?l [left_end n] = {}" by (simp add: cover_def)
qed

end
