(* ===== verification/Ooorb.thy ===== *)
theory Ooorb
  imports Lazylist
begin

text \<open>
  The handlers of the reorder buffer (\<open>examples/ooorb/handlers/ooorb_handlers.c\<close>): the header handler initialises the list, the payload handler inserts a range
  per packet or pops the range that starts at the next expected byte, the tail handler prints the list. The abstract buffer is the set of bytes that are held
  and the next expected byte; the payload handler implements it, and what it delivers is in order and without gaps.
\<close>

section \<open>Handlers\<close>

record rb_state =
  rb_list :: lazylist
  rb_next :: u32

definition ooorb_hh :: "rb_state \<Rightarrow> rb_state" where
  "ooorb_hh s = s\<lparr>rb_list := lazylist_init NUM_SEGMENTS (rb_list s), rb_next := 0\<rparr>"

text \<open>The payload handler; \<open>op\<close>, \<open>left\<close> and \<open>right\<close> are the first words of the packet. The result has the range that was popped.\<close>

definition ooorb_ph :: "u32 \<Rightarrow> u32 \<Rightarrow> u32 \<Rightarrow> rb_state \<Rightarrow> ((int \<times> int) option \<times> rb_state) option" where
  "ooorb_ph op left right s =
     (if op = 0 then do { (_, l) \<leftarrow> lazylist_insert (sint left, sint right) (rb_list s); Some (None, s\<lparr>rb_list := l\<rparr>) }
      else if op = 1 then do {
        (popped, l) \<leftarrow> lazylist_pop_front (sint (rb_next s)) (rb_list s);
        case popped of
          None \<Rightarrow> Some (None, s\<lparr>rb_list := l\<rparr>)
        | Some (a, b) \<Rightarrow> Some (Some (a, b), s\<lparr>rb_list := l, rb_next := word_of_int (b + 1)\<rparr>) }
      else Some (None, s))"

text \<open>The loop of the tail handler that prints the nodes.\<close>

partial_function (option) print_loop :: "lazylist \<Rightarrow> u32 \<Rightarrow> (int \<times> int) list \<Rightarrow> (int \<times> int) list option" where
  "print_loop l i out =
     (case node_get l i of
        None \<Rightarrow> None
      | Some h \<Rightarrow>
          (case node_get l (nd_next h) of
             None \<Rightarrow> None
           | Some n \<Rightarrow>
               if nd_right n = INT32_MAX then Some (out @ [(nd_left h, nd_right h)])
               else print_loop l (nd_next h) (out @ [(nd_left h, nd_right h)])))"

definition ooorb_th :: "rb_state \<Rightarrow> ((int \<times> int) list \<times> rb_state) option" where
  "ooorb_th s = do {
     (_, l) \<leftarrow> lazylist_pop_front (sint (rb_next s)) (rb_list s);
     out \<leftarrow> print_loop l (ll_head l) [];
     Some (out, s\<lparr>rb_list := l\<rparr>) }"

section \<open>The printed list\<close>

lemma print_chain:
  assumes "chain (nx l) i (j # js) t" "\<forall>j\<in>set (j # js @ [t]). unat j < length (ll_nodes l)" "\<forall>j\<in>set js. nd_right (nd l j) \<noteq> INT32_MAX" "nd_right (nd l t) = INT32_MAX"
  shows "print_loop l i out = Some (out @ map (rng l) (j # js))"
  using assms
proof (induction js arbitrary: i j out)
  case Nil
  then show ?case by (subst print_loop.simps) (simp add: node_access rng_def nx_def)
next
  case (Cons k js)
  then have "print_loop l (nx l j) (out @ [rng l j]) = Some ((out @ [rng l j]) @ map (rng l) (k # js))" by (intro Cons.IH) auto
  then show ?case using Cons.prems by (subst print_loop.simps) (simp add: node_access rng_def nx_def)
qed

lemma print_ok:
  assumes "lz_ok n l ys fs"
  shows "print_loop l (ll_head l) [] = Some (map (rng l) ys)"
proof -
  have links: "lz_links n l ys fs" and R: "lz_ranges n l ys" and head: "ll_head l = left_end n" using assms by (simp_all add: lz_ok_def lz_shape_def)
  obtain gs where ys: "ys = left_end n # gs" using lz_linksD(1,2) [OF links] by (cases ys) auto
  have "nd_right (nd l j) \<noteq> INT32_MAX" if "j \<in> set gs" for j
  proof -
    have "j \<noteq> left_end n" using lz_linksD(5) [OF links] that ys by auto
    then show ?thesis using lz_rangesD(3) [OF R, of j] that ys by (simp add: rng_def)
  qed
  moreover have "nd_right (nd l (right_end n)) = INT32_MAX" using lz_rangesD(2) [OF R] by (simp add: rng_def)
  moreover have "\<forall>j\<in>set (left_end n # gs @ [right_end n]). unat j < length (ll_nodes l)" using lz_valid(2) [OF assms] ys by auto
  ultimately show ?thesis using print_chain [of l "ll_head l" "left_end n" gs "right_end n" "[]"] lz_linksD(6) [OF links] by (simp add: ys head)
qed

text \<open>The bytes in the list, as the tail handler would print them, after the left sentinel.\<close>

definition rb_held :: "rb_state \<Rightarrow> int set" where
  "rb_held s = (case print_loop (rb_list s) (ll_head (rb_list s)) [] of None \<Rightarrow> {} | Some rs \<Rightarrow> (\<Union>r\<in>set (tl rs). {fst r..snd r}))"

lemma held_cover:
  assumes "lz_ok n (rb_list s) ys fs"
  shows "rb_held s = cover n (rb_list s) ys"
proof -
  have links: "lz_links n (rb_list s) ys fs" using assms by (simp add: lz_ok_def)
  obtain gs where ys: "ys = left_end n # gs" using lz_linksD(1,2) [OF links] by (cases ys) auto
  have "set ys - {left_end n} = set gs" using lz_linksD(5) [OF links] by (auto simp: ys)
  then show ?thesis unfolding rb_held_def print_ok [OF assms] cover_def by (simp add: ys)
qed

section \<open>The abstract buffer\<close>

text \<open>A packet is its operation and its two words; the result is the range that is delivered.\<close>

inductive rb_spec :: "u32 \<times> u32 \<times> u32 \<Rightarrow> (int \<times> int) option \<Rightarrow> int set \<times> int \<Rightarrow> int set \<times> int \<Rightarrow> bool" where
  accept: "{uint left..uint right} \<inter> H = {} \<Longrightarrow> rb_spec (0, left, right) None (H, x) (H \<union> {uint left..uint right}, x)"
| refuse: "{uint left..uint right} \<inter> H \<noteq> {} \<Longrightarrow> rb_spec (0, left, right) None (H, x) (H, x)"
| deliver: "x \<le> y \<Longrightarrow> {x..y} \<subseteq> H \<Longrightarrow> y + 1 \<notin> H \<Longrightarrow> rb_spec (1, left, right) (Some (x, y)) (H, x) (H - {x..y}, y + 1)"
| wait: "x \<notin> H \<Longrightarrow> rb_spec (1, left, right) None (H, x) (H, x)"
| ignore: "op \<noteq> 0 \<Longrightarrow> op \<noteq> 1 \<Longrightarrow> rb_spec (op, left, right) None (H, x) (H, x)"

text \<open>The deliveries up to a byte, from the first: each starts where the one before it ended.\<close>

fun delivered :: "int \<Rightarrow> (int \<times> int) option list \<Rightarrow> int \<Rightarrow> bool" where
  "delivered x [] y \<longleftrightarrow> x = y"
| "delivered x (None # rs) y \<longleftrightarrow> delivered x rs y"
| "delivered x (Some (a, b) # rs) y \<longleftrightarrow> a = x \<and> a \<le> b \<and> delivered (b + 1) rs y"

lemma delivered_snoc:
  "delivered x (rs @ [None]) y \<longleftrightarrow> delivered x rs y" "delivered x (rs @ [Some (a, b)]) y \<longleftrightarrow> delivered x rs a \<and> a \<le> b \<and> y = b + 1"
  by (induction x rs y rule: delivered.induct) auto

section \<open>The handlers on a stream of packets\<close>

definition rb_exec :: "u32 \<times> u32 \<times> u32 \<Rightarrow> rb_state \<times> (int \<times> int) option list \<Rightarrow> (rb_state \<times> (int \<times> int) option list) option" where
  "rb_exec pkt st = (case pkt of (op, left, right) \<Rightarrow> map_option (\<lambda>(r, t). (t, snd st @ [r])) (ooorb_ph op left right (fst st)))"

text \<open>
  An inserted range is not empty, lies below the sentinel and not below the next expected byte, and there is a free node.
\<close>

definition rb_allowed :: "rb_state \<times> (int \<times> int) option list \<Rightarrow> u32 \<times> u32 \<times> u32 \<Rightarrow> bool" where
  "rb_allowed st pkt = (case pkt of (op, left, right) \<Rightarrow>
     op = 0 \<longrightarrow> rb_next (fst st) \<le> left \<and> left \<le> right \<and> uint right < INT32_MAX \<and> ll_free (rb_list (fst st)) \<noteq> EOL)"

definition rb_inv :: "rb_state \<times> (int \<times> int) option list \<Rightarrow> bool" where
  "rb_inv st \<longleftrightarrow> (\<exists>ys fs. lz_ok 126 (rb_list (fst st)) ys fs) \<and> rb_held (fst st) \<subseteq> {uint (rb_next (fst st))..} \<and> uint (rb_next (fst st)) \<le> INT32_MAX
     \<and> delivered 0 (snd st) (uint (rb_next (fst st)))"

lemma sint_below_max: "uint w \<le> INT32_MAX \<Longrightarrow> sint (w :: u32) = uint w"
  using signed_take_bit_int_eq_self [of 31 "uint w"] uint_ge_0 [of w] by (simp add: sint_uint INT32_MAX_def del: uint_ge_0)

lemma uint_below_max: "0 \<le> x \<Longrightarrow> x \<le> INT32_MAX \<Longrightarrow> uint (word_of_int x :: u32) = x"
  by (simp add: uint_word_of_int INT32_MAX_def)

lemma insert_refines:
  assumes "rb_inv (s, out)" "rb_allowed (s, out) (0, left, right)"
  obtains t where "ooorb_ph 0 left right s = Some (None, t)" "rb_inv (t, out @ [None])"
    "rb_spec (0, left, right) None (rb_held s, uint (rb_next s)) (rb_held t, uint (rb_next t))"
proof -
  obtain ys fs where ok: "lz_ok 126 (rb_list s) ys fs" using assms(1) by (auto simp: rb_inv_def)
  have r: "uint (rb_next s) \<le> uint left" "uint left \<le> uint right" "uint right < INT32_MAX" using assms(2) by (simp_all add: rb_allowed_def word_le_def)
  have si: "sint left = uint left" "sint right = uint right" using r by (simp_all add: sint_below_max)
  have lo: "INT32_MIN < uint left" by (rule less_le_trans [of _ 0]) (simp_all add: INT32_MIN_def)
  have "fs \<noteq> []" using ok assms(2) by (auto simp: rb_allowed_def lz_ok_def lz_links_def)
  note h = held_cover [OF ok]
  show thesis
  proof (cases "{uint left..uint right} \<inter> cover 126 (rb_list s) ys = {}")
    case True
    from insert_added [OF ok lo r(2,3) True \<open>fs \<noteq> []\<close>] obtain l' ys' fs' where l': "lazylist_insert (uint left, uint right) (rb_list s) = Some (0, l')"
      "lz_ok 126 l' ys' fs'" "cover 126 l' ys' = cover 126 (rb_list s) ys \<union> {uint left..uint right}" .
    let ?t = "s\<lparr>rb_list := l'\<rparr>"
    have ht: "rb_held ?t = rb_held s \<union> {uint left..uint right}" using held_cover [of 126 ?t ys' fs'] l'(2,3) h by simp
    have "rb_spec (0, left, right) None (rb_held s, uint (rb_next s)) (rb_held ?t, uint (rb_next ?t))" unfolding ht using rb_spec.accept True h by simp
    moreover have "rb_inv (?t, out @ [None])" using assms(1) l'(2) r(1) by (auto simp: rb_inv_def ht delivered_snoc)
    ultimately show thesis using l'(1) by (intro that [of ?t]) (simp_all add: ooorb_ph_def si)
  next
    case False
    have "rb_spec (0, left, right) None (rb_held s, uint (rb_next s)) (rb_held s, uint (rb_next s))" using rb_spec.refuse False h by simp
    moreover have "rb_inv (s, out @ [None])" using assms(1) by (simp add: rb_inv_def delivered_snoc)
    ultimately show thesis using insert_overlap [OF ok lo r(2,3) False] by (intro that [of s]) (simp_all add: ooorb_ph_def si)
  qed
qed

lemma pop_refines:
  assumes "rb_inv (s, out)"
  obtains r t where "ooorb_ph 1 left right s = Some (r, t)" "rb_inv (t, out @ [r])"
    "rb_spec (1, left, right) r (rb_held s, uint (rb_next s)) (rb_held t, uint (rb_next t))"
proof -
  obtain ys fs where ok: "lz_ok 126 (rb_list s) ys fs" using assms(1) by (auto simp: rb_inv_def)
  have links: "lz_links 126 (rb_list s) ys fs" using ok by (simp add: lz_ok_def)
  obtain hs where ys: "ys = left_end 126 # hs" using lz_linksD(1,2) [OF links] by (cases ys) auto
  let ?x = "uint (rb_next s)"
  have x: "sint (rb_next s) = ?x" "0 \<le> ?x" using assms by (simp_all add: rb_inv_def sint_below_max)
  then have x3: "?x \<noteq> -1" by linarith
  note h = held_cover [OF ok] and returns = that
  have waits: thesis if "fst (rng (rb_list s) (nx (rb_list s) (left_end 126))) = INT32_MAX \<or> ?x \<noteq> -1 \<and> fst (rng (rb_list s) (nx (rb_list s) (left_end 126))) \<noteq> ?x" "?x \<notin> rb_held s"
  proof -
    have "rb_inv (s, out @ [None])" using assms by (simp add: rb_inv_def delivered_snoc)
    then show thesis using pop_waits [OF ok that(1)] rb_spec.wait [OF that(2)] by (intro returns [of None s]) (simp_all add: ooorb_ph_def x(1))
  qed
  show thesis
  proof (cases hs)
    case Nil
    have "rng (rb_list s) (nx (rb_list s) (left_end 126)) = (INT32_MAX, INT32_MAX)" using lz_linksD(6) [OF links] ok unfolding ys Nil by (simp add: lz_ok_def lz_ranges_def)
    moreover have "rb_held s = {}" unfolding h ys Nil by (simp add: cover_def)
    ultimately show thesis by (intro waits) simp_all
  next
    case (Cons f gs)
    note ok' = ok [unfolded ys Cons]
    note C = cover_front [OF ok', folded Cons, folded ys, folded h] and F = front_facts [OF ok']
    show thesis
    proof (cases "fst (rng (rb_list s) f) = ?x")
      case False
      have "fst (rng (rb_list s) f) \<in> rb_held s" using C(1) F(7) by (auto simp: cells_def)
      then have "?x \<le> fst (rng (rb_list s) f)" using assms by (auto simp: rb_inv_def)
      then have "?x \<notin> rb_held s" using C(2) False by force
      then show thesis using False F(1) x3 by (intro waits) simp_all
    next
      case True
      from pop_takes [OF ok'] obtain l' where l': "lazylist_pop_front ?x (rb_list s) = Some (Some (rng (rb_list s) f), l')" "lz_ok 126 l' (left_end 126 # gs) (f # fs)"
        "cover 126 l' (left_end 126 # gs) = rb_held s - cells (rng (rb_list s) f)" unfolding True h ys Cons .
      obtain y where y: "rng (rb_list s) f = (?x, y)" using True by (cases "rng (rb_list s) f") simp
      let ?t = "s\<lparr>rb_list := l', rb_next := word_of_int (y + 1)\<rparr>"
      have xy: "?x \<le> y" "y < INT32_MAX" using F(7) y by simp_all
      then have "0 \<le> y + 1" "y + 1 \<le> INT32_MAX" using x(2) by linarith+
      then have next': "uint (rb_next ?t) = y + 1" by (simp add: uint_below_max del: of_int_add)
      have ht: "rb_held ?t = rb_held s - {?x..y}" using held_cover [of 126 ?t "left_end 126 # gs" "f # fs"] l'(2,3) by (simp add: y cells_def)
      have "rb_spec (1, left, right) (Some (?x, y)) (rb_held s, ?x) (rb_held ?t, uint (rb_next ?t))"
        unfolding ht next' using C(1,3) xy(1) by (intro rb_spec.deliver) (simp_all add: y cells_def)
      moreover have "rb_held ?t \<subseteq> {y + 1..}" unfolding ht using C(2) y by force
      then have "rb_inv (?t, out @ [Some (?x, y)])" using assms l'(2) xy unfolding rb_inv_def fst_conv snd_conv next' delivered_snoc by auto
      ultimately show thesis using l'(1) by (intro that [of "Some (?x, y)" ?t]) (simp_all add: ooorb_ph_def x(1) y)
    qed
  qed
qed

lemma ph_refines:
  assumes "rb_inv (s, out)" "rb_allowed (s, out) (op, left, right)"
  obtains r t where "ooorb_ph op left right s = Some (r, t)" "rb_inv (t, out @ [r])"
    "rb_spec (op, left, right) r (rb_held s, uint (rb_next s)) (rb_held t, uint (rb_next t))"
proof -
  consider "op = 0" | "op = 1" | "op \<noteq> 0" "op \<noteq> 1" by blast
  then show thesis
  proof cases
    case 1
    then show thesis using insert_refines [OF assms(1), of left right] assms(2) that by metis
  next
    case 2
    then show thesis using pop_refines [OF assms(1), of left right] that by metis
  next
    case 3
    then have "rb_inv (s, out @ [None])" using assms(1) by (simp add: rb_inv_def delivered_snoc)
    then show thesis using 3 rb_spec.ignore [OF 3] by (intro that [of None s]) (simp_all add: ooorb_ph_def)
  qed
qed

interpretation rb_system: invariant_system rb_exec rb_allowed rb_inv
proof
  fix st t :: "rb_state \<times> (int \<times> int) option list" and pkt :: "u32 \<times> u32 \<times> u32"
  assume a: "rb_inv st" "rb_allowed st pkt" "rb_exec pkt st = Some t"
  obtain s out op left right where st: "st = (s, out)" "pkt = (op, left, right)" by (cases st; cases pkt)
  then obtain r u where "ooorb_ph op left right s = Some (r, u)" "rb_inv (u, out @ [r])" using ph_refines a(1,2) by metis
  then show "rb_inv t" using a(3) st by (simp add: rb_exec_def)
qed

lemma hh_inv:
  assumes "128 \<le> length (ll_nodes (rb_list s))" "128 \<le> length (ll_marks (rb_list s))" "\<not> ll_marks (rb_list s) ! 126" "\<not> ll_marks (rb_list s) ! 127"
  shows "rb_inv (ooorb_hh s, [])"
proof -
  have i: "lz_ok 126 (rb_list (ooorb_hh s)) [left_end 126] (map of_nat [0..<126])" "cover 126 (rb_list (ooorb_hh s)) [left_end 126] = {}"
    using init_ok [of 126 "rb_list s"] assms by (simp_all add: ooorb_hh_def NUM_SEGMENTS_def)
  then have "rb_held (ooorb_hh s) = {}" using held_cover by blast
  then show ?thesis using i(1) by (auto simp: rb_inv_def ooorb_hh_def INT32_MAX_def)
qed

text \<open>The tail handler returns, and prints the ranges in order.\<close>

lemma th_prints:
  assumes "rb_inv (s, out)"
  shows "\<exists>rs t. ooorb_th s = Some (rs, t) \<and> sorted_wrt (\<lambda>p q. snd p < fst q) rs"
proof -
  obtain r t where "ooorb_ph 1 0 0 s = Some (r, t)" "rb_inv (t, out @ [r])" using pop_refines [OF assms] by metis
  then obtain p l ys fs where p: "lazylist_pop_front (sint (rb_next s)) (rb_list s) = Some (p, l)" "lz_ok 126 l ys fs"
    by (auto simp: ooorb_ph_def rb_inv_def bind_eq_Some_conv split: option.splits)
  have "sorted_wrt sep (map (rng l) ys)" using p(2) by (simp add: lz_ok_def lz_ranges_def sorted_wrt_append)
  then have "sorted_wrt (\<lambda>p q. snd p < fst q) (map (rng l) ys)" by (rule sorted_wrt_mono_rel [rotated]) (simp add: sep_def)
  then show ?thesis using p(1) print_ok [OF p(2)] by (auto simp: ooorb_th_def)
qed

text \<open>
  Property C40. The reorder buffer with its handlers running one at a time, each to its end (the interleaving of two HPUs inside an operation is not covered), from the header
  handler on memory whose sentinel marks are clear, in every state that packets lead to, as long as inserted ranges are not empty, lie between the next expected byte and the sentinel, and find a free node. What was delivered so far starts at byte 0, has no gap and no overlap and ends before the
  next expected byte. The payload handler then returns for every further such packet, without a deadlock, an endless loop or an access outside of the arrays, and does
  what the abstract buffer does: an insertion adds its bytes unless one of them is held, a pop takes the maximal run of held bytes from the next expected byte
  and moves that byte behind it, or waits if it is not held. The tail handler ends and prints disjoint ranges in order.
\<close>

theorem ooorb_in_order:
  assumes "128 \<le> length (ll_nodes (rb_list s0))" "128 \<le> length (ll_marks (rb_list s0))" "\<not> ll_marks (rb_list s0) ! 126" "\<not> ll_marks (rb_list s0) ! 127"
    and "reach rb_exec rb_allowed (ooorb_hh s0, []) (s, out)"
  shows "delivered 0 out (uint (rb_next s))
    \<and> (\<forall>op left right. rb_allowed (s, out) (op, left, right) \<longrightarrow>
         (\<exists>r t. ooorb_ph op left right s = Some (r, t) \<and> rb_spec (op, left, right) r (rb_held s, uint (rb_next s)) (rb_held t, uint (rb_next t))))
    \<and> (\<exists>rs t. ooorb_th s = Some (rs, t) \<and> sorted_wrt (\<lambda>p q. snd p < fst q) rs)"
proof -
  have inv: "rb_inv (s, out)" by (rule rb_system.reach_inv [OF assms(5) hh_inv [OF assms(1-4)]])
  have "\<exists>r t. ooorb_ph op left right s = Some (r, t) \<and> rb_spec (op, left, right) r (rb_held s, uint (rb_next s)) (rb_held t, uint (rb_next t))"
    if "rb_allowed (s, out) (op, left, right)" for op left right using ph_refines [OF inv that] by metis
  then show ?thesis using inv th_prints [OF inv] by (simp add: rb_inv_def)
qed

declare find_pred_loop.simps [code] lazylist_insert.simps [code] lazylist_pop_front.simps [code] print_loop.simps [code]

definition example_rb :: rb_state where
  "example_rb = \<lparr>rb_list = \<lparr>ll_head = 0, ll_free = 0, ll_free_lock = 0,
     ll_nodes = replicate 128 \<lparr>nd_idx = 0, nd_left = 0, nd_right = 0, nd_lock = 0, nd_next = 0\<rparr>, ll_marks = replicate 128 False\<rparr>, rb_next = 0\<rparr>"

theorem ooorb_in_order_witness:
  "let st = the (run rb_exec rb_allowed [(0, 4, 7), (1, 0, 0), (0, 0, 3), (1, 0, 0)] (ooorb_hh example_rb, [])); s = fst st
   in snd st = [None, None, None, Some (0, 7)] \<and> delivered 0 (snd st) (uint (rb_next s))
    \<and> (\<exists>r t. ooorb_ph 0 8 9 s = Some (r, t) \<and> rb_spec (0, 8, 9) r (rb_held s, uint (rb_next s)) (rb_held t, uint (rb_next t)))"
proof -
  let ?r = "run rb_exec rb_allowed [(0, 4, 7), (1, 0, 0), (0, 0, 3), (1, 0, 0)] (ooorb_hh example_rb, [])"
  have "case ?r of None \<Rightarrow> False | Some st \<Rightarrow> snd st = [None, None, None, Some (0, 7)] \<and> rb_allowed st (0, 8, 9)" by code_simp
  then have "\<not> Option.is_none ?r" "snd (the ?r) = [None, None, None, Some (0, 7)]" "rb_allowed (the ?r) (0, 8, 9)"
    by (cases ?r; simp only: option.case option.sel Option.is_none_code simp_thms)+
  moreover from this(1) have "reach rb_exec rb_allowed (ooorb_hh example_rb, []) (fst (the ?r), snd (the ?r))" unfolding prod.collapse by (rule run_reach_the)
  moreover have "128 \<le> length (ll_nodes (rb_list example_rb))" "128 \<le> length (ll_marks (rb_list example_rb))"
    "\<not> ll_marks (rb_list example_rb) ! 126" "\<not> ll_marks (rb_list example_rb) ! 127" by code_simp+
  ultimately show ?thesis using ooorb_in_order [of example_rb "fst (the ?r)" "snd (the ?r)"] unfolding Let_def prod.collapse by blast
qed

section \<open>What the handlers do not check\<close>

text \<open>
  A range that arrives again after it was delivered is accepted, and stays at the front of the list: later ranges are never delivered.
\<close>

lemma late_range_blocks:
  "(case ooorb_ph 0 0 3 (ooorb_hh example_rb) of Some (_, s1) \<Rightarrow>
     (case ooorb_ph 1 0 0 s1 of Some (r1, s2) \<Rightarrow>
       (case ooorb_ph 0 0 3 s2 of Some (_, s3) \<Rightarrow>
         (case ooorb_ph 0 4 7 s3 of Some (_, s4) \<Rightarrow>
           (case ooorb_ph 1 0 0 s4 of Some (r2, s5) \<Rightarrow> r1 = Some (0, 3) \<and> r2 = None \<and> rb_next s5 = 4 | None \<Rightarrow> False)
          | None \<Rightarrow> False) | None \<Rightarrow> False) | None \<Rightarrow> False) | None \<Rightarrow> False)"
  by code_simp

text \<open>The tail handler takes a range from the list that no handler delivers, and the next expected byte stays.\<close>

lemma tail_drops_range:
  "(case ooorb_ph 0 0 3 (ooorb_hh example_rb) of Some (_, s1) \<Rightarrow>
     (case ooorb_th s1 of Some (rs, s2) \<Rightarrow> length rs = 1 \<and> rb_next s2 = 0 | None \<Rightarrow> False) | None \<Rightarrow> False)"
  by code_simp

text \<open>
  With a sentinel mark that was set before the initialisation, the first insertion does not end: the validation fails in every round.
\<close>

lemma insert_endless:
  assumes "lazylist_find_pred l rg = Some (Some (p, c))" "insert_round rg p c l = Some (False, e, d, l)"
  shows "lazylist_insert rg l = None"
proof (rule ccontr)
  assume "lazylist_insert rg l \<noteq> None"
  then obtain y where "lazylist_insert rg l = Some y" by blast
  then have "\<not> (lazylist_find_pred l rg = Some (Some (p, c)) \<and> insert_round rg p c l = Some (False, e, d, l))"
    by (rule lazylist_insert.raw_induct [where P = "\<lambda>rg l y. \<not> (lazylist_find_pred l rg = Some (Some (p, c)) \<and> insert_round rg p c l = Some (False, e, d, l))", rotated])
      (auto split: option.splits)
  then show False using assms by blast
qed

lemma marked_sentinel_loops:
  "let l = rb_list (ooorb_hh (example_rb\<lparr>rb_list := (rb_list example_rb)\<lparr>ll_marks := replicate 128 True\<rparr>\<rparr>)) in lazylist_insert (0, 3) l = None"
proof -
  let ?l = "rb_list (ooorb_hh (example_rb\<lparr>rb_list := (rb_list example_rb)\<lparr>ll_marks := replicate 128 True\<rparr>\<rparr>))"
  have "lazylist_find_pred ?l (0, 3) = Some (Some (126, 127))" "insert_round (0, 3) 126 127 ?l = Some (False, False, None, ?l)" by code_simp+
  then show ?thesis unfolding Let_def by (rule insert_endless)
qed

text \<open>The test for an exhausted free list looks at the lock: the list end is then used as the index of a node.\<close>

lemma free_list_exhausted:
  assumes "ll_free_lock l = 0" "ll_free l = EOL" "length (ll_nodes l) < 2 ^ 32"
  shows "lazylist_get_free_node l = None"
  using assms by (simp add: lazylist_get_free_node_def node_get_def EOL_def)

end
