(* ===== verification/Axis_Fifo.thy ===== *)
theory Axis_Fifo
  imports Fp_Prelude "HOL-Library.Multiset"
begin

text \<open>
  The stream FIFO of the NIC, \<open>axis_fifo.v\<close>, in the configuration that the packet path of PsPIN uses: no frame mode, no output FIFO, one RAM
  pipeline register. The state is that of the registers; \<open>axis_fifo_clk\<close> is one clock edge. The locale \<open>stream_fifo\<close> says what
  the users of the FIFO rely on.
\<close>

section \<open>Registers and clock\<close>

text \<open>
  \<open>k\<close> is \<open>ADDR_WIDTH\<close>; the pointers have one bit more. The two stages of the read pipeline are \<open>m_axis_pipe_reg[0]\<close> and \<open>[1]\<close>, with their valid bits.
\<close>

record 'd axis_fifo =
  wr_ptr_reg :: nat
  rd_ptr_reg :: nat
  fifo_mem :: "'d list"
  pipe_reg0 :: 'd
  pipe_reg1 :: 'd
  valid_reg0 :: bool
  valid_reg1 :: bool

definition fifo_full :: "nat \<Rightarrow> 'd axis_fifo \<Rightarrow> bool" where
  "fifo_full k f \<longleftrightarrow> wr_ptr_reg f = (if rd_ptr_reg f < 2 ^ k then rd_ptr_reg f + 2 ^ k else rd_ptr_reg f - 2 ^ k)"

definition fifo_empty :: "'d axis_fifo \<Rightarrow> bool" where
  "fifo_empty f \<longleftrightarrow> wr_ptr_reg f = rd_ptr_reg f"

definition s_axis_tready :: "nat \<Rightarrow> 'd axis_fifo \<Rightarrow> bool" where "s_axis_tready k f \<longleftrightarrow> \<not> fifo_full k f"
definition m_axis_tvalid :: "'d axis_fifo \<Rightarrow> bool" where "m_axis_tvalid f \<longleftrightarrow> valid_reg1 f"
definition m_axis_tdata :: "'d axis_fifo \<Rightarrow> 'd" where "m_axis_tdata f = pipe_reg1 f"

text \<open>The write block and the read block; both see the registers as they were before the clock edge.\<close>

definition fifo_write :: "nat \<Rightarrow> 'd option \<Rightarrow> 'd axis_fifo \<Rightarrow> 'd list \<times> nat" where
  "fifo_write k s f =
     (case s of
        Some d \<Rightarrow> if s_axis_tready k f then ((fifo_mem f)[wr_ptr_reg f mod 2 ^ k := d], (wr_ptr_reg f + 1) mod 2 ^ (k + 1)) else (fifo_mem f, wr_ptr_reg f)
      | None \<Rightarrow> (fifo_mem f, wr_ptr_reg f))"

definition fifo_read :: "nat \<Rightarrow> bool \<Rightarrow> 'd axis_fifo \<Rightarrow> nat \<times> 'd \<times> 'd \<times> bool \<times> bool" where
  "fifo_read k m_tready f =
     (let v1 = (if m_tready then False else valid_reg1 f);
          (v1, p1, v0) = (if m_tready \<or> \<not> valid_reg1 f then (valid_reg0 f, pipe_reg0 f, False) else (v1, pipe_reg1 f, valid_reg0 f))
      in if m_tready \<or> \<not> (valid_reg0 f \<and> valid_reg1 f)
         then (if \<not> fifo_empty f then (rd_ptr_reg f + 1) mod 2 ^ (k + 1) else rd_ptr_reg f, fifo_mem f ! (rd_ptr_reg f mod 2 ^ k), p1, \<not> fifo_empty f, v1)
         else (rd_ptr_reg f, pipe_reg0 f, p1, v0, v1))"

definition axis_fifo_clk :: "nat \<Rightarrow> bool \<Rightarrow> 'd option \<Rightarrow> bool \<Rightarrow> 'd axis_fifo \<Rightarrow> 'd axis_fifo" where
  "axis_fifo_clk k rst s m_tready f =
     (let (mem, wr) = fifo_write k s f;
          (rd, p0, p1, v0, v1) = fifo_read k m_tready f
      in \<lparr>wr_ptr_reg = (if rst then 0 else wr), rd_ptr_reg = (if rst then 0 else rd), fifo_mem = mem, pipe_reg0 = p0, pipe_reg1 = p1,
          valid_reg0 = (if rst then False else v0), valid_reg1 = (if rst then False else v1)\<rparr>)"

section \<open>The queue that the registers hold\<close>

definition fifo_level :: "nat \<Rightarrow> 'd axis_fifo \<Rightarrow> nat" where
  "fifo_level k f = (wr_ptr_reg f + 2 ^ (k + 1) - rd_ptr_reg f) mod 2 ^ (k + 1)"

definition fifo_inv :: "nat \<Rightarrow> 'd axis_fifo \<Rightarrow> bool" where
  "fifo_inv k f \<longleftrightarrow> wr_ptr_reg f < 2 ^ (k + 1) \<and> rd_ptr_reg f < 2 ^ (k + 1) \<and> length (fifo_mem f) = 2 ^ k \<and> fifo_level k f \<le> 2 ^ k"

definition ram_items :: "nat \<Rightarrow> 'd axis_fifo \<Rightarrow> 'd list" where
  "ram_items k f = map (\<lambda>i. fifo_mem f ! ((rd_ptr_reg f + i) mod 2 ^ k)) [0..<fifo_level k f]"

definition fifo_items :: "nat \<Rightarrow> 'd axis_fifo \<Rightarrow> 'd list" where
  "fifo_items k f = (if valid_reg1 f then [pipe_reg1 f] else []) @ (if valid_reg0 f then [pipe_reg0 f] else []) @ ram_items k f"

text \<open>The level is the distance of the pointers.\<close>

lemma level_unique:
  assumes "rd_ptr_reg f < 2 ^ (k + 1)" "wr_ptr_reg f = (rd_ptr_reg f + n) mod 2 ^ (k + 1)" "n < 2 ^ (k + 1)"
  shows "fifo_level k f = n"
proof (cases "rd_ptr_reg f + n < 2 ^ (k + 1)")
  case True
  then have "wr_ptr_reg f + 2 ^ (k + 1) - rd_ptr_reg f = n + 2 ^ (k + 1)" using assms(2) by simp
  then show ?thesis using assms(3) by (simp only: fifo_level_def mod_add_self2 mod_less)
next
  case False
  then have "wr_ptr_reg f = rd_ptr_reg f + n - 2 ^ (k + 1)" using assms by (simp add: le_mod_geq mod_if)
  then have "wr_ptr_reg f + 2 ^ (k + 1) - rd_ptr_reg f = n" using False by simp
  then show ?thesis using assms(3) by (simp only: fifo_level_def mod_less)
qed

lemma level_wr:
  assumes "rd_ptr_reg f < 2 ^ (k + 1)" "wr_ptr_reg f < 2 ^ (k + 1)"
  shows "(rd_ptr_reg f + fifo_level k f) mod 2 ^ (k + 1) = wr_ptr_reg f"
proof -
  have "(rd_ptr_reg f + fifo_level k f) mod 2 ^ (k + 1) = (rd_ptr_reg f + (wr_ptr_reg f + 2 ^ (k + 1) - rd_ptr_reg f)) mod 2 ^ (k + 1)"
    unfolding fifo_level_def by (rule mod_add_right_eq)
  also have "rd_ptr_reg f + (wr_ptr_reg f + 2 ^ (k + 1) - rd_ptr_reg f) = wr_ptr_reg f + 2 ^ (k + 1)" using assms by simp
  finally show ?thesis using assms(2) by (simp only: mod_add_self2 mod_less)
qed

lemma mod_half: "x mod 2 ^ (k + 1) mod 2 ^ k = x mod (2 ^ k :: nat)"
  by (rule mod_mod_cancel) simp

lemma ready_level:
  assumes "fifo_inv k f"
  shows "s_axis_tready k f \<longleftrightarrow> fifo_level k f < 2 ^ k" "fifo_empty f \<longleftrightarrow> fifo_level k f = 0"
proof -
  have o: "rd_ptr_reg f < 2 ^ (k + 1)" "wr_ptr_reg f < 2 ^ (k + 1)" "fifo_level k f \<le> 2 ^ k" using assms by (simp_all add: fifo_inv_def)
  note w = level_wr [OF o(1,2)]
  have "fifo_full k f \<longleftrightarrow> wr_ptr_reg f = (rd_ptr_reg f + 2 ^ k) mod 2 ^ (k + 1)" using o(1) by (auto simp: fifo_full_def mod_if)
  then have "fifo_full k f \<longleftrightarrow> fifo_level k f = 2 ^ k" using w level_unique [OF o(1), of "2 ^ k"] by auto
  then show "s_axis_tready k f \<longleftrightarrow> fifo_level k f < 2 ^ k" using o(3) by (auto simp: s_axis_tready_def)
  show "fifo_empty f \<longleftrightarrow> fifo_level k f = 0" using w level_unique [OF o(1), of 0] o(1) by (auto simp: fifo_empty_def)
qed

text \<open>What a write does to the queue in the RAM, and what a read does.\<close>

lemma mod_differs:
  assumes "i < j" "j < i + n"
  shows "i mod n \<noteq> j mod (n :: nat)"
proof
  assume "i mod n = j mod n"
  then have "n dvd j - i" using assms(1) mod_eq_dvd_iff_nat [of i j n] by simp
  then show False using assms by (auto dest: dvd_imp_le)
qed

lemma ram_write:
  assumes "fifo_inv k f" "fifo_level k f < 2 ^ k"
    and "g = f\<lparr>fifo_mem := (fifo_mem f)[wr_ptr_reg f mod 2 ^ k := d], wr_ptr_reg := (wr_ptr_reg f + 1) mod 2 ^ (k + 1)\<rparr>"
  shows "fifo_inv k g" "ram_items k g = ram_items k f @ [d]" "fifo_level k g = fifo_level k f + 1"
proof -
  have o: "rd_ptr_reg f < 2 ^ (k + 1)" "wr_ptr_reg f < 2 ^ (k + 1)" "length (fifo_mem f) = 2 ^ k" using assms(1) by (simp_all add: fifo_inv_def)
  let ?n = "fifo_level k f"
  note w = level_wr [OF o(1,2)]
  have g: "rd_ptr_reg g = rd_ptr_reg f" "wr_ptr_reg g = (rd_ptr_reg f + (?n + 1)) mod 2 ^ (k + 1)" using w by (simp_all add: assms(3) mod_simps flip: w)
  show l: "fifo_level k g = ?n + 1" using level_unique [of g k "?n + 1"] o(1) g assms(2) by simp
  show "fifo_inv k g" using o l assms(2) by (simp add: fifo_inv_def g) (simp add: assms(3))
  have pos: "wr_ptr_reg f mod 2 ^ k = (rd_ptr_reg f + ?n) mod 2 ^ k" unfolding w [symmetric] by (rule mod_half)
  have "wr_ptr_reg f mod 2 ^ k \<noteq> (rd_ptr_reg f + i) mod 2 ^ k" if "i < ?n" for i unfolding pos using that assms(2) by (intro not_sym [OF mod_differs]) auto
  then have "map (\<lambda>i. fifo_mem g ! ((rd_ptr_reg g + i) mod 2 ^ k)) [0..<?n] = ram_items k f" unfolding ram_items_def by (simp add: assms(3) nth_list_update_neq)
  then show "ram_items k g = ram_items k f @ [d]" unfolding ram_items_def l using o(3) pos by (simp add: assms(3))
qed

lemma ram_read:
  assumes "fifo_inv k f" "0 < fifo_level k f" "g = f\<lparr>rd_ptr_reg := (rd_ptr_reg f + 1) mod 2 ^ (k + 1)\<rparr>"
  shows "fifo_inv k g" "ram_items k f = fifo_mem f ! (rd_ptr_reg f mod 2 ^ k) # ram_items k g" "fifo_level k f = fifo_level k g + 1"
proof -
  have o: "rd_ptr_reg f < 2 ^ (k + 1)" "wr_ptr_reg f < 2 ^ (k + 1)" "length (fifo_mem f) = 2 ^ k" "fifo_level k f \<le> 2 ^ k" using assms(1) by (simp_all add: fifo_inv_def)
  let ?n = "fifo_level k f"
  have g: "rd_ptr_reg g < 2 ^ (k + 1)" "wr_ptr_reg g = wr_ptr_reg f" "rd_ptr_reg g = (rd_ptr_reg f + 1) mod 2 ^ (k + 1)" by (simp_all add: assms(3))
  have "wr_ptr_reg g = (rd_ptr_reg g + (?n - 1)) mod 2 ^ (k + 1)"
    unfolding g(2,3) mod_add_left_eq using level_wr [OF o(1,2)] assms(2) by simp
  then have "fifo_level k g = ?n - 1" using o(4) assms(2) by (intro level_unique [OF g(1)]) auto
  then show l: "?n = fifo_level k g + 1" using assms(2) by simp
  show "fifo_inv k g" using o l g by (simp add: fifo_inv_def assms(3))
  have "(rd_ptr_reg g + i) mod 2 ^ k = (rd_ptr_reg f + Suc i) mod 2 ^ k" for i
  proof -
    have "(rd_ptr_reg g + i) mod 2 ^ k = (rd_ptr_reg g mod 2 ^ k + i) mod 2 ^ k" by (simp only: mod_add_left_eq)
    also have "rd_ptr_reg g mod 2 ^ k = (rd_ptr_reg f + 1) mod 2 ^ k" unfolding g(3) by (rule mod_half)
    finally show ?thesis by (simp add: mod_add_left_eq)
  qed
  moreover have "[0..<?n] = 0 # map Suc [0..<fifo_level k g]" unfolding l by (simp add: map_Suc_upt upt_conv_Cons)
  ultimately show "ram_items k f = fifo_mem f ! (rd_ptr_reg f mod 2 ^ k) # ram_items k g" unfolding ram_items_def by (simp add: assms(3))
qed

text \<open>A clock edge without reset: the queue loses its head if it was taken, and gains what was written.\<close>

definition fifo_taken :: "bool \<Rightarrow> 'd axis_fifo \<Rightarrow> 'd list" where
  "fifo_taken m_tready f = (if m_tready \<and> m_axis_tvalid f then [m_axis_tdata f] else [])"

definition fifo_stored :: "nat \<Rightarrow> 'd option \<Rightarrow> 'd axis_fifo \<Rightarrow> 'd list" where
  "fifo_stored k s f = (case s of Some d \<Rightarrow> if s_axis_tready k f then [d] else [] | None \<Rightarrow> [])"

lemma fifo_write_step:
  assumes "fifo_inv k f" "fifo_inv k f1" "f1 = f\<lparr>rd_ptr_reg := rd\<rparr>" "fifo_level k f1 \<le> fifo_level k f"
    and "f2 = f1\<lparr>fifo_mem := fst (fifo_write k s f), wr_ptr_reg := snd (fifo_write k s f)\<rparr>"
  shows "fifo_inv k f2" "ram_items k f2 = ram_items k f1 @ fifo_stored k s f"
proof -
  have "fifo_inv k f2 \<and> ram_items k f2 = ram_items k f1 @ fifo_stored k s f"
  proof (cases "s = None \<or> \<not> s_axis_tready k f")
    case True
    then have "f2 = f1" unfolding assms(5) by (cases f) (auto simp: assms(3) fifo_write_def split: option.splits)
    then show ?thesis using assms(2) True by (auto simp: fifo_stored_def split: option.splits)
  next
    case False
    then obtain d where d: "s = Some d" "s_axis_tready k f" by auto
    have "f2 = f1\<lparr>fifo_mem := (fifo_mem f1)[wr_ptr_reg f1 mod 2 ^ k := d], wr_ptr_reg := (wr_ptr_reg f1 + 1) mod 2 ^ (k + 1)\<rparr>"
      unfolding assms(5) by (simp add: d fifo_write_def assms(3))
    then show ?thesis using ram_write [OF assms(2)] ready_level(1) [OF assms(1)] assms(4) d by (simp add: fifo_stored_def)
  qed
  then show "fifo_inv k f2" "ram_items k f2 = ram_items k f1 @ fifo_stored k s f" by blast+
qed

lemma fifo_read_step:
  assumes "fifo_inv k f" "fifo_read k m f = (rd, p0, p1, v0, v1)" "f1 = f\<lparr>rd_ptr_reg := rd\<rparr>"
  shows "fifo_inv k f1" "fifo_level k f1 \<le> fifo_level k f"
    "fifo_items k f = fifo_taken m f @ (if v1 then [p1] else []) @ (if v0 then [p0] else []) @ ram_items k f1"
proof -
  define more where "more \<longleftrightarrow> (m \<or> \<not> (valid_reg0 f \<and> valid_reg1 f)) \<and> \<not> fifo_empty f"
  have rd: "rd = (if more then (rd_ptr_reg f + 1) mod 2 ^ (k + 1) else rd_ptr_reg f)" using assms(2) by (auto simp: fifo_read_def more_def Let_def split: if_splits)
  have p: "v1 = (if m \<or> \<not> valid_reg1 f then valid_reg0 f else True)" "v1 \<Longrightarrow> p1 = (if m \<or> \<not> valid_reg1 f then pipe_reg0 f else pipe_reg1 f)"
    "v0 = (if m \<or> \<not> (valid_reg0 f \<and> valid_reg1 f) then \<not> fifo_empty f else True)" "p0 = (if m \<or> \<not> (valid_reg0 f \<and> valid_reg1 f) then fifo_mem f ! (rd_ptr_reg f mod 2 ^ k) else pipe_reg0 f)"
    using assms(2) by (auto simp: fifo_read_def Let_def split: if_splits)
  have ram: "fifo_inv k f1 \<and> fifo_level k f1 \<le> fifo_level k f \<and> ram_items k f = (if more then [fifo_mem f ! (rd_ptr_reg f mod 2 ^ k)] else []) @ ram_items k f1"
  proof (cases more)
    case True
    then have "0 < fifo_level k f" using ready_level(2) [OF assms(1)] by (simp add: more_def)
    from ram_read [OF assms(1) this] show ?thesis using True by (simp add: assms(3) rd)
  next
    case False
    then have "f1 = f" by (simp add: assms(3) rd)
    then show ?thesis using assms(1) False by simp
  qed
  then show "fifo_inv k f1" "fifo_level k f1 \<le> fifo_level k f" by blast+
  show "fifo_items k f = fifo_taken m f @ (if v1 then [p1] else []) @ (if v0 then [p0] else []) @ ram_items k f1"
    unfolding fifo_items_def using ram p by (auto simp: more_def fifo_taken_def m_axis_tvalid_def m_axis_tdata_def)
qed

lemma clk_step:
  assumes "fifo_inv k f"
  shows "fifo_inv k (axis_fifo_clk k False s m f)" "fifo_taken m f @ fifo_items k (axis_fifo_clk k False s m f) = fifo_items k f @ fifo_stored k s f"
proof -
  obtain rd p0 p1 v0 v1 where r: "fifo_read k m f = (rd, p0, p1, v0, v1)" by (cases "fifo_read k m f") auto
  define f1 where "f1 = f\<lparr>rd_ptr_reg := rd\<rparr>"
  define f2 where "f2 = f1\<lparr>fifo_mem := fst (fifo_write k s f), wr_ptr_reg := snd (fifo_write k s f)\<rparr>"
  note R = fifo_read_step [OF assms r f1_def] and W = fifo_write_step [OF assms _ f1_def _ f2_def]
  let ?g = "axis_fifo_clk k False s m f"
  have g: "?g = f2\<lparr>pipe_reg0 := p0, pipe_reg1 := p1, valid_reg0 := v0, valid_reg1 := v1\<rparr>"
    unfolding f2_def f1_def by (rule axis_fifo.equality) (simp_all add: axis_fifo_clk_def r split_def Let_def)
  have same: "fifo_inv k ?g = fifo_inv k f2" "ram_items k ?g = ram_items k f2" unfolding g by (simp_all add: fifo_inv_def fifo_level_def ram_items_def)
  show "fifo_inv k ?g" using same(1) W(1) R by blast
  show "fifo_taken m f @ fifo_items k ?g = fifo_items k f @ fifo_stored k s f" unfolding R(3) using W(2) R by (simp add: fifo_items_def same(2)) (simp add: g)
qed

lemma clk_reset:
  assumes "length (fifo_mem f) = 2 ^ k"
  shows "fifo_inv k (axis_fifo_clk k True s m f)" "fifo_items k (axis_fifo_clk k True s m f) = []"
  using assms by (auto simp: axis_fifo_clk_def fifo_inv_def fifo_level_def fifo_items_def ram_items_def fifo_write_def split: prod.splits option.splits if_splits)

lemma valid_head:
  assumes "m_axis_tvalid f"
  shows "fifo_items k f \<noteq> []" "hd (fifo_items k f) = m_axis_tdata f"
  using assms by (simp_all add: fifo_items_def m_axis_tvalid_def m_axis_tdata_def)

text \<open>A word that is in the queue reaches the output within two cycles.\<close>

lemma output_latency:
  assumes "fifo_inv k f" "fifo_items k f \<noteq> []"
  shows "m_axis_tvalid f \<or> m_axis_tvalid (axis_fifo_clk k False s m f) \<or> m_axis_tvalid (axis_fifo_clk k False s' m' (axis_fifo_clk k False s m f))"
proof -
  have v0: "valid_reg1 (axis_fifo_clk k False s m g)" if "valid_reg0 g" "\<not> valid_reg1 g" for g :: "'a axis_fifo" and s m
    using that by (auto simp: axis_fifo_clk_def fifo_read_def Let_def split: prod.splits)
  have "valid_reg0 (axis_fifo_clk k False s m f)" if "\<not> valid_reg0 f" "\<not> valid_reg1 f"
  proof -
    have "\<not> fifo_empty f" using assms that ready_level(2) [OF assms(1)] by (auto simp: fifo_items_def ram_items_def)
    then show ?thesis using that by (auto simp: axis_fifo_clk_def fifo_read_def Let_def split: prod.splits)
  qed
  then show ?thesis using v0 by (auto simp: m_axis_tvalid_def)
qed

section \<open>What the users of the FIFO rely on\<close>

locale stream_fifo =
  fixes clk :: "'d option \<Rightarrow> bool \<Rightarrow> 'f \<Rightarrow> 'f"
    and ready valid :: "'f \<Rightarrow> bool"
    and data :: "'f \<Rightarrow> 'd"
    and items :: "'f \<Rightarrow> 'd list"
    and inv :: "'f \<Rightarrow> bool"
  assumes clk_inv: "inv f \<Longrightarrow> inv (clk s m f)"
    and clk_items: "inv f \<Longrightarrow> (if m \<and> valid f then [data f] else []) @ items (clk s m f) = items f @ (case s of Some d \<Rightarrow> if ready f then [d] else [] | None \<Rightarrow> [])"
    and valid_hd: "inv f \<Longrightarrow> valid f \<Longrightarrow> items f \<noteq> [] \<and> hd (items f) = data f"
    and latency: "inv f \<Longrightarrow> items f \<noteq> [] \<Longrightarrow> valid f \<or> valid (clk s m f) \<or> valid (clk s' m' (clk s m f))"
begin

text \<open>Pools of tokens: what is taken leaves the queue, what is stored enters it, and nothing else changes.\<close>

lemma clk_mset: "inv f \<Longrightarrow> mset (if m \<and> valid f then [data f] else []) + mset (items (clk s m f)) = mset (items f) + mset (case s of Some d \<Rightarrow> if ready f then [d] else [] | None \<Rightarrow> [])"
  unfolding mset_append [symmetric] using clk_items [of f m s] by (rule arg_cong)

lemma taken_item: "inv f \<Longrightarrow> valid f \<Longrightarrow> data f \<in> set (items f)"
  using valid_hd [of f] hd_in_set by force

end

interpretation af: stream_fifo "axis_fifo_clk k False" "s_axis_tready k" m_axis_tvalid m_axis_tdata "fifo_items k" "fifo_inv k" for k
proof
  fix f :: "'a axis_fifo" and s s' m m'
  assume i: "fifo_inv k f"
  show "fifo_inv k (axis_fifo_clk k False s m f)" by (rule clk_step(1) [OF i])
  show "(if m \<and> m_axis_tvalid f then [m_axis_tdata f] else []) @ fifo_items k (axis_fifo_clk k False s m f) = fifo_items k f @ (case s of Some d \<Rightarrow> if s_axis_tready k f then [d] else [] | None \<Rightarrow> [])"
    using clk_step(2) [OF i] unfolding fifo_taken_def fifo_stored_def .
  show "m_axis_tvalid f \<or> m_axis_tvalid (axis_fifo_clk k False s m f) \<or> m_axis_tvalid (axis_fifo_clk k False s' m' (axis_fifo_clk k False s m f))" if "fifo_items k f \<noteq> []"
    by (rule output_latency [OF i that])
  show "fifo_items k f \<noteq> [] \<and> hd (fifo_items k f) = m_axis_tdata f" if "m_axis_tvalid f" using valid_head [OF that] by blast
qed

section \<open>The order of the words\<close>

text \<open>A run of clock cycles with the inputs \<open>(s_axis, m_axis_tready)\<close>: the words that were stored, the words that were taken, and the last state.\<close>

fun fifo_cycles :: "nat \<Rightarrow> ('d option \<times> bool) list \<Rightarrow> 'd axis_fifo \<Rightarrow> 'd list \<times> 'd list \<times> 'd axis_fifo" where
  "fifo_cycles k [] f = ([], [], f)"
| "fifo_cycles k ((s, m) # is) f =
     (let (stored, taken, g) = fifo_cycles k is (axis_fifo_clk k False s m f) in (fifo_stored k s f @ stored, fifo_taken m f @ taken, g))"

lemma cycles_order:
  assumes "fifo_inv k f" "fifo_cycles k is f = (stored, taken, g)"
  shows "fifo_inv k g \<and> taken @ fifo_items k g = fifo_items k f @ stored"
  using assms
proof (induction k "is" f arbitrary: stored taken rule: fifo_cycles.induct)
  case (2 k s m "is" f)
  obtain st tk h where r: "fifo_cycles k is (axis_fifo_clk k False s m f) = (st, tk, h)" by (cases "fifo_cycles k is (axis_fifo_clk k False s m f)") auto
  then have e: "stored = fifo_stored k s f @ st" "taken = fifo_taken m f @ tk" "h = g" using "2.prems"(2) by simp_all
  have "fifo_inv k g \<and> tk @ fifo_items k g = fifo_items k (axis_fifo_clk k False s m f) @ st"
    using "2.IH" [OF clk_step(1) [OF "2.prems"(1)]] r e(3) by blast
  then show ?case using clk_step(2) [OF "2.prems"(1), of m s] e by (metis append.assoc)
qed simp

text \<open>
  The stream FIFO after a reset, with any inputs in any number of cycles: the words that were taken are those that were stored, in order, without the last ones, which
  it still holds. It holds at most \<open>2 ^ k + 2\<close> words, refuses a word only while it holds at least \<open>2 ^ k\<close>, shows the oldest word when its output is valid, and
  its output is valid at the latest two cycles after it holds a word.
\<close>

lemma axis_fifo_order:
  assumes "length (fifo_mem f) = 2 ^ k" "fifo_cycles k is (axis_fifo_clk k True s0 m0 f) = (stored, taken, g)"
  shows "\<exists>q. stored = taken @ q \<and> length q \<le> 2 ^ k + 2 \<and> (\<not> s_axis_tready k g \<longrightarrow> 2 ^ k \<le> length q) \<and> (m_axis_tvalid g \<longrightarrow> q \<noteq> [] \<and> m_axis_tdata g = hd q)
    \<and> (q \<noteq> [] \<longrightarrow> m_axis_tvalid g \<or> m_axis_tvalid (axis_fifo_clk k False s m g) \<or> m_axis_tvalid (axis_fifo_clk k False s' m' (axis_fifo_clk k False s m g)))"
proof (intro exI conjI impI)
  let ?q = "fifo_items k g"
  have r: "fifo_inv k g" "taken @ ?q = stored" using cycles_order [OF clk_reset(1) [OF assms(1)] assms(2)] clk_reset(2) [OF assms(1)] by simp_all
  show "stored = taken @ ?q" using r(2) by simp
  show "length ?q \<le> 2 ^ k + 2" using r(1) by (simp add: fifo_items_def ram_items_def fifo_inv_def)
  show "2 ^ k \<le> length ?q" if "\<not> s_axis_tready k g" using that ready_level(1) [OF r(1)] by (simp add: fifo_items_def ram_items_def)
  show "?q \<noteq> []" "m_axis_tdata g = hd ?q" if "m_axis_tvalid g" using valid_head [OF that] by auto
  show "m_axis_tvalid g \<or> m_axis_tvalid (axis_fifo_clk k False s m g) \<or> m_axis_tvalid (axis_fifo_clk k False s' m' (axis_fifo_clk k False s m g))" if "?q \<noteq> []"
    by (rule output_latency [OF r(1) that])
qed

end
