(* ===== verification/Pkt_Alloc.thy ===== *)
theory Pkt_Alloc
  imports Axis_Fifo
begin

text \<open>
  The packet allocator of the NIC, \<open>pspin_pkt_alloc.v\<close>: the packet buffer of PsPIN is divided into large and small slots, whose
  free addresses wait in two FIFOs (\<open>Axis_Fifo\<close>). A packet that the matching engine announces takes a slot, the feedback of
  PsPIN gives it back. \<open>alloc_wires\<close> are the signals of the combinational block, assigned in its order; \<open>alloc_clk\<close> is one clock edge. Lengths have
  16 bits (\<open>LEN_WIDTH\<close> of the design), addresses and counters 32.
\<close>

section \<open>Configuration\<close>

record alloc_cfg =
  BUF_START :: u32
  BUF_SIZE :: u32
  SLOT0_SIZE :: u16
  SLOT0_COUNT :: u16
  SLOT1_SIZE :: u16
  SLOT1_COUNT :: u16
  PKT_MEM_ALIGNMENT :: u16

fun clog2 :: "nat \<Rightarrow> nat" where
  "clog2 n = (if n \<le> 1 then 0 else clog2 ((n + 1) div 2) + 1)"

declare clog2.simps [simp del]

definition size_roundup :: "u16 \<Rightarrow> u16 \<Rightarrow> u16" where
  "size_roundup pkt_size alignment =
     (let segments = ucast (drop_bit (clog2 (unat alignment)) (ucast pkt_size + ucast alignment - 1 :: u32)) :: u16
      in push_bit (clog2 (unat alignment)) segments)"

definition SLOT1_START :: "alloc_cfg \<Rightarrow> u32" where
  "SLOT1_START cfg = BUF_START cfg + ucast (SLOT0_COUNT cfg) * ucast (SLOT0_SIZE cfg)"

text \<open>The sum has the width of its operands, 16 bits.\<close>

definition total_size :: "alloc_cfg \<Rightarrow> u16" where
  "total_size cfg = SLOT0_SIZE cfg * SLOT0_COUNT cfg + SLOT1_SIZE cfg * SLOT1_COUNT cfg"

definition alloc_assertions :: "alloc_cfg \<Rightarrow> bool" where
  "alloc_assertions cfg \<longleftrightarrow> size_roundup (SLOT0_SIZE cfg) (PKT_MEM_ALIGNMENT cfg) = SLOT0_SIZE cfg
     \<and> size_roundup (SLOT1_SIZE cfg) (PKT_MEM_ALIGNMENT cfg) = SLOT1_SIZE cfg \<and> \<not> ucast (total_size cfg) > BUF_SIZE cfg"

text \<open>The configuration of \<open>pspin_ingress_datapath.v\<close>.\<close>

definition ingress_cfg :: alloc_cfg where
  "ingress_cfg = \<lparr>BUF_START = 0x1c100000, BUF_SIZE = 512 * 1024, SLOT0_SIZE = 1536, SLOT0_COUNT = 256, SLOT1_SIZE = 128, SLOT1_COUNT = 1024, PKT_MEM_ALIGNMENT = 64\<rparr>"

section \<open>Registers and clock\<close>

record pkt_alloc =
  initialised_q :: bool
  slot0_free_count_q :: u32
  slot1_free_count_q :: u32
  dropped_pkts_o :: u32
  fifo_slot0 :: "u32 axis_fifo"
  fifo_slot1 :: "u32 axis_fifo"

text \<open>The inputs of a cycle: an announced packet (tag and length), a returned slot (address and size), and whether the DMA engine takes a write.\<close>

record alloc_in =
  in_pkt :: "(u32 \<times> u16) option"
  in_feedback :: "(u32 \<times> u16) option"
  in_write_ready :: bool

definition fifo_width0 :: "alloc_cfg \<Rightarrow> nat" where "fifo_width0 cfg = clog2 (unat (SLOT0_COUNT cfg))"
definition fifo_width1 :: "alloc_cfg \<Rightarrow> nat" where "fifo_width1 cfg = clog2 (unat (SLOT1_COUNT cfg))"

definition pkt_ready_o :: "alloc_in \<Rightarrow> pkt_alloc \<Rightarrow> bool" where
  "pkt_ready_o i st \<longleftrightarrow> in_write_ready i \<and> initialised_q st \<and> slot0_free_count_q st > 0 \<and> slot1_free_count_q st > 0"

definition feedback_ready_o :: "alloc_cfg \<Rightarrow> pkt_alloc \<Rightarrow> bool" where
  "feedback_ready_o cfg st \<longleftrightarrow> s_axis_tready (fifo_width0 cfg) (fifo_slot0 st) \<and> s_axis_tready (fifo_width1 cfg) (fifo_slot1 st)"

record alloc_wires =
  initialised_d :: bool
  slot0_free_count_d :: u32
  slot1_free_count_d :: u32
  dropped_pkts_d :: u32
  slot0_init_enq :: "u32 option"
  slot1_init_enq :: "u32 option"
  slot0_free_enq :: "u32 option"
  slot1_free_enq :: "u32 option"
  slot0_deq_ready :: bool
  slot1_deq_ready :: bool
  write_o :: "(u32 \<times> u16 \<times> u32) option"

definition alloc_defaults :: "pkt_alloc \<Rightarrow> alloc_wires" where
  "alloc_defaults st = \<lparr>initialised_d = initialised_q st, slot0_free_count_d = slot0_free_count_q st, slot1_free_count_d = slot1_free_count_q st,
     dropped_pkts_d = dropped_pkts_o st, slot0_init_enq = None, slot1_init_enq = None, slot0_free_enq = None, slot1_free_enq = None,
     slot0_deq_ready = False, slot1_deq_ready = False, write_o = None\<rparr>"

definition alloc_fill :: "alloc_cfg \<Rightarrow> pkt_alloc \<Rightarrow> alloc_wires \<Rightarrow> alloc_wires" where
  "alloc_fill cfg st w =
     (if initialised_d w then w
      else let w = (if slot0_free_count_d w < ucast (SLOT0_COUNT cfg)
                    then w\<lparr>slot0_init_enq := Some (BUF_START cfg + ucast (SLOT0_SIZE cfg) * slot0_free_count_d w),
                           slot0_free_count_d := (if s_axis_tready (fifo_width0 cfg) (fifo_slot0 st) then slot0_free_count_d w + 1 else slot0_free_count_d w)\<rparr>
                    else w);
               w = (if slot1_free_count_d w < ucast (SLOT1_COUNT cfg)
                    then w\<lparr>slot1_init_enq := Some (SLOT1_START cfg + ucast (SLOT1_SIZE cfg) * slot1_free_count_d w),
                           slot1_free_count_d := (if s_axis_tready (fifo_width1 cfg) (fifo_slot1 st) then slot1_free_count_d w + 1 else slot1_free_count_d w)\<rparr>
                    else w)
           in if slot0_free_count_d w = ucast (SLOT0_COUNT cfg) \<and> slot1_free_count_d w = ucast (SLOT1_COUNT cfg) then w\<lparr>initialised_d := True\<rparr> else w)"

definition alloc_take :: "alloc_cfg \<Rightarrow> alloc_in \<Rightarrow> pkt_alloc \<Rightarrow> alloc_wires \<Rightarrow> alloc_wires" where
  "alloc_take cfg i st w =
     (case in_pkt i of
        None \<Rightarrow> w
      | Some (tag, len) \<Rightarrow>
          if \<not> pkt_ready_o i st then w
          else if SLOT0_SIZE cfg \<ge> len \<and> len > SLOT1_SIZE cfg
               then w\<lparr>slot0_deq_ready := True, slot0_free_count_d := slot0_free_count_d w - 1,
                      write_o := (if m_axis_tvalid (fifo_slot0 st) then Some (m_axis_tdata (fifo_slot0 st), len, tag) else None)\<rparr>
               else if SLOT1_SIZE cfg \<ge> len
               then w\<lparr>slot1_deq_ready := True, slot1_free_count_d := slot1_free_count_d w - 1,
                      write_o := (if m_axis_tvalid (fifo_slot1 st) then Some (m_axis_tdata (fifo_slot1 st), len, tag) else None)\<rparr>
               else w\<lparr>dropped_pkts_d := dropped_pkts_d w + 1\<rparr>)"

definition alloc_give_back :: "alloc_cfg \<Rightarrow> alloc_in \<Rightarrow> pkt_alloc \<Rightarrow> alloc_wires \<Rightarrow> alloc_wires" where
  "alloc_give_back cfg i st w =
     (case in_feedback i of
        None \<Rightarrow> w
      | Some (addr, len) \<Rightarrow>
          if \<not> feedback_ready_o cfg st then w
          else if SLOT0_SIZE cfg \<ge> len \<and> len > SLOT1_SIZE cfg
               then w\<lparr>slot0_free_enq := Some addr, slot0_free_count_d := slot0_free_count_d w + 1\<rparr>
               else if SLOT1_SIZE cfg \<ge> len
               then w\<lparr>slot1_free_enq := Some addr, slot1_free_count_d := slot1_free_count_d w + 1\<rparr>
               else w)"

definition alloc_comb :: "alloc_cfg \<Rightarrow> alloc_in \<Rightarrow> pkt_alloc \<Rightarrow> alloc_wires" where
  "alloc_comb cfg i st = alloc_give_back cfg i st (alloc_take cfg i st (alloc_fill cfg st (alloc_defaults st)))"

definition alloc_clk :: "alloc_cfg \<Rightarrow> bool \<Rightarrow> alloc_in \<Rightarrow> pkt_alloc \<Rightarrow> pkt_alloc" where
  "alloc_clk cfg rstn i st =
     (let w = alloc_comb cfg i st;
          enq0 = (if initialised_q st then slot0_free_enq w else slot0_init_enq w);
          enq1 = (if initialised_q st then slot1_free_enq w else slot1_init_enq w);
          f0 = axis_fifo_clk (fifo_width0 cfg) (\<not> rstn) enq0 (slot0_deq_ready w) (fifo_slot0 st);
          f1 = axis_fifo_clk (fifo_width1 cfg) (\<not> rstn) enq1 (slot1_deq_ready w) (fifo_slot1 st)
      in if \<not> rstn then \<lparr>initialised_q = False, slot0_free_count_q = 0, slot1_free_count_q = 0, dropped_pkts_o = 0, fifo_slot0 = f0, fifo_slot1 = f1\<rparr>
         else \<lparr>initialised_q = initialised_d w, slot0_free_count_q = slot0_free_count_d w, slot1_free_count_q = slot1_free_count_d w,
                dropped_pkts_o = dropped_pkts_d w, fifo_slot0 = f0, fifo_slot1 = f1\<rparr>)"

section \<open>Slots\<close>

definition slot0 :: "alloc_cfg \<Rightarrow> nat \<Rightarrow> u32" where
  "slot0 cfg n = BUF_START cfg + ucast (SLOT0_SIZE cfg) * of_nat n"

definition slot1 :: "alloc_cfg \<Rightarrow> nat \<Rightarrow> u32" where
  "slot1 cfg n = SLOT1_START cfg + ucast (SLOT1_SIZE cfg) * of_nat n"

definition slots0 :: "alloc_cfg \<Rightarrow> u32 list" where "slots0 cfg = map (slot0 cfg) [0..<unat (SLOT0_COUNT cfg)]"
definition slots1 :: "alloc_cfg \<Rightarrow> u32 list" where "slots1 cfg = map (slot1 cfg) [0..<unat (SLOT1_COUNT cfg)]"

text \<open>A buffer in use is its address and the length of its packet; the length tells the kind of slot.\<close>

definition large :: "alloc_cfg \<Rightarrow> u16 \<Rightarrow> bool" where
  "large cfg len \<longleftrightarrow> len > SLOT1_SIZE cfg"

definition used0 :: "alloc_cfg \<Rightarrow> (u32 \<times> u16) list \<Rightarrow> u32 list" where "used0 cfg us = map fst (filter (\<lambda>(a, l). large cfg l) us)"
definition used1 :: "alloc_cfg \<Rightarrow> (u32 \<times> u16) list \<Rightarrow> u32 list" where "used1 cfg us = map fst (filter (\<lambda>(a, l). \<not> large cfg l) us)"

section \<open>Runs\<close>

text \<open>
  The state of a run has the buffers that are in use: those that were written and not yet given back. PsPIN gives back only buffers in use, with the length it was told.
\<close>

type_synonym alloc_run = "pkt_alloc \<times> (u32 \<times> u16) list"

definition alloc_exec :: "alloc_cfg \<Rightarrow> alloc_in \<Rightarrow> alloc_run \<Rightarrow> alloc_run option" where
  "alloc_exec cfg i s =
     (let us = (case in_feedback i of Some b \<Rightarrow> if feedback_ready_o cfg (fst s) then remove1 b (snd s) else snd s | None \<Rightarrow> snd s);
          us = (case write_o (alloc_comb cfg i (fst s)) of Some (addr, len, tag) \<Rightarrow> us @ [(addr, len)] | None \<Rightarrow> us)
      in Some (alloc_clk cfg True i (fst s), us))"

definition alloc_allowed :: "alloc_run \<Rightarrow> alloc_in \<Rightarrow> bool" where
  "alloc_allowed s i \<longleftrightarrow> (case in_feedback i of Some b \<Rightarrow> b \<in> set (snd s) | None \<Rightarrow> True)"

definition kind_ok :: "u32 list \<Rightarrow> u32 list \<Rightarrow> u32 list \<Rightarrow> u32 \<Rightarrow> bool" where
  "kind_ok slots free used cnt \<longleftrightarrow> mset free + mset used = mset slots \<and> unat cnt \<le> length free"

definition alloc_inv :: "alloc_cfg \<Rightarrow> alloc_run \<Rightarrow> bool" where
  "alloc_inv cfg s \<longleftrightarrow>
     (let st = fst s; k0 = fifo_width0 cfg; k1 = fifo_width1 cfg in
      fifo_inv k0 (fifo_slot0 st) \<and> fifo_inv k1 (fifo_slot1 st) \<and> (\<forall>(a, l)\<in>set (snd s). l \<le> SLOT0_SIZE cfg \<or> l \<le> SLOT1_SIZE cfg)
      \<and> (if initialised_q st
         then kind_ok (slots0 cfg) (fifo_items k0 (fifo_slot0 st)) (used0 cfg (snd s)) (slot0_free_count_q st)
            \<and> kind_ok (slots1 cfg) (fifo_items k1 (fifo_slot1 st)) (used1 cfg (snd s)) (slot1_free_count_q st)
         else snd s = [] \<and> slot0_free_count_q st \<le> ucast (SLOT0_COUNT cfg) \<and> slot1_free_count_q st \<le> ucast (SLOT1_COUNT cfg)
            \<and> fifo_items k0 (fifo_slot0 st) = map (slot0 cfg) [0..<unat (slot0_free_count_q st)]
            \<and> fifo_items k1 (fifo_slot1 st) = map (slot1 cfg) [0..<unat (slot1_free_count_q st)]))"

text \<open>One cycle of a FIFO of free slots: a slot may be taken and a used one may be given back.\<close>

definition new_count :: "bool \<Rightarrow> bool \<Rightarrow> u32 \<Rightarrow> u32" where
  "new_count deq enq c = (let c = (if deq then c - 1 else c) in if enq then c + 1 else c)"

definition taken :: "bool \<Rightarrow> u32 axis_fifo \<Rightarrow> u32 list" where
  "taken deq f = (if deq \<and> m_axis_tvalid f then [m_axis_tdata f] else [])"

definition given :: "u32 option \<Rightarrow> u32 list" where
  "given enq = (case enq of Some a \<Rightarrow> [a] | None \<Rightarrow> [])"

lemma kind_step:
  assumes "fifo_inv k f" "kind_ok slots (fifo_items k f) used cnt" "deq \<Longrightarrow> 0 < cnt" "enq \<noteq> None \<Longrightarrow> s_axis_tready k f"
    and "mset used' + mset (given enq) = mset used + mset (taken deq f)"
  shows "kind_ok slots (fifo_items k (axis_fifo_clk k False enq deq f)) used' (new_count deq (enq \<noteq> None) cnt)"
proof -
  let ?f = "fifo_items k f" and ?g = "fifo_items k (axis_fifo_clk k False enq deq f)"
  have "(case enq of Some a \<Rightarrow> if s_axis_tready k f then [a] else [] | None \<Rightarrow> []) = given enq" using assms(4) by (cases enq) (simp_all add: given_def)
  then have m: "mset (taken deq f) + mset ?g = mset ?f + mset (given enq)" using af.clk_mset [OF assms(1), of deq enq] by (simp add: taken_def)
  have s: "mset ?f + mset used = mset slots" "unat cnt \<le> length ?f" using assms(2) by (simp_all add: kind_ok_def)
  have "(mset ?g + mset used') + mset (given enq) = mset ?g + (mset used + mset (taken deq f))" unfolding assms(5) [symmetric] by (simp add: ac_simps)
  also have "\<dots> = (mset (taken deq f) + mset ?g) + mset used" by (simp add: ac_simps)
  also have "\<dots> = mset slots + mset (given enq)" unfolding m s(1) [symmetric] by (simp add: ac_simps)
  finally have "mset ?g + mset used' = mset slots" by (simp only: add_right_cancel)
  moreover have "unat (new_count deq (enq \<noteq> None) cnt) \<le> length ?g"
  proof -
    have l: "length (taken deq f) + length ?g = length ?f + length (given enq)" using arg_cong [OF m, of size] by simp
    have d: "unat (if deq then cnt - 1 else cnt) = unat cnt - (if deq then 1 else 0)" using assms(3) unat_minus_one [of cnt] by (cases deq) auto
    have e: "length (given enq) = (if enq \<noteq> None then 1 else 0)" by (cases enq) (simp_all add: given_def)
    have "unat (new_count deq (enq \<noteq> None) cnt) \<le> unat (if deq then cnt - 1 else cnt) + length (given enq)"
      unfolding new_count_def Let_def e by (simp add: unat_word_ariths)
    moreover have "length (taken deq f) \<le> (if deq then 1 else 0)" by (simp add: taken_def)
    moreover have "deq \<Longrightarrow> 0 < unat cnt" using assms(3) by (simp add: unat_gt_0 word_gt_0)
    ultimately show ?thesis using l s(2) d by (cases deq) simp_all
  qed
  ultimately show ?thesis by (simp add: kind_ok_def)
qed

text \<open>The wires of a running allocator.\<close>

definition takes :: "bool \<Rightarrow> alloc_cfg \<Rightarrow> alloc_in \<Rightarrow> pkt_alloc \<Rightarrow> bool" where
  "takes big cfg i st \<longleftrightarrow> (case in_pkt i of None \<Rightarrow> False | Some (tag, len) \<Rightarrow>
     pkt_ready_o i st \<and> (if big then SLOT0_SIZE cfg \<ge> len \<and> large cfg len else \<not> large cfg len))"

definition gives :: "bool \<Rightarrow> alloc_cfg \<Rightarrow> alloc_in \<Rightarrow> pkt_alloc \<Rightarrow> u32 option" where
  "gives big cfg i st = (case in_feedback i of None \<Rightarrow> None | Some (addr, len) \<Rightarrow>
     if feedback_ready_o cfg st \<and> (if big then SLOT0_SIZE cfg \<ge> len \<and> large cfg len else \<not> large cfg len) then Some addr else None)"

lemma running_wires:
  assumes "initialised_q st"
  shows "initialised_d (alloc_comb cfg i st)"
    "slot0_deq_ready (alloc_comb cfg i st) = takes True cfg i st" "slot1_deq_ready (alloc_comb cfg i st) = takes False cfg i st"
    "slot0_free_enq (alloc_comb cfg i st) = gives True cfg i st" "slot1_free_enq (alloc_comb cfg i st) = gives False cfg i st"
    "slot0_free_count_d (alloc_comb cfg i st) = new_count (takes True cfg i st) (gives True cfg i st \<noteq> None) (slot0_free_count_q st)"
    "slot1_free_count_d (alloc_comb cfg i st) = new_count (takes False cfg i st) (gives False cfg i st \<noteq> None) (slot1_free_count_q st)"
    "map_option (\<lambda>(a, l, t). (a, l)) (write_o (alloc_comb cfg i st)) =
       (case in_pkt i of None \<Rightarrow> None | Some (tag, len) \<Rightarrow>
          if takes True cfg i st \<and> m_axis_tvalid (fifo_slot0 st) then Some (m_axis_tdata (fifo_slot0 st), len)
          else if takes False cfg i st \<and> m_axis_tvalid (fifo_slot1 st) then Some (m_axis_tdata (fifo_slot1 st), len) else None)"
  using assms by (auto simp: alloc_comb_def alloc_give_back_def alloc_take_def alloc_fill_def alloc_defaults_def takes_def gives_def new_count_def large_def not_less
      split: option.splits)

lemma used_simps:
  "used0 cfg (us @ vs) = used0 cfg us @ used0 cfg vs" "used1 cfg (us @ vs) = used1 cfg us @ used1 cfg vs"
  "used0 cfg [(a, l)] = (if large cfg l then [a] else [])" "used1 cfg [(a, l)] = (if large cfg l then [] else [a])" "used0 cfg [] = []" "used1 cfg [] = []"
  by (simp_all add: used0_def used1_def)

lemma used_remove:
  assumes "(a, l) \<in> set us"
  shows "mset (used0 cfg (remove1 (a, l) us)) + mset (used0 cfg [(a, l)]) = mset (used0 cfg us)"
    "mset (used1 cfg (remove1 (a, l) us)) + mset (used1 cfg [(a, l)]) = mset (used1 cfg us)"
proof -
  have "mset us = add_mset (a, l) (mset (remove1 (a, l) us))" using assms by simp
  then show "mset (used0 cfg (remove1 (a, l) us)) + mset (used0 cfg [(a, l)]) = mset (used0 cfg us)"
    "mset (used1 cfg (remove1 (a, l) us)) + mset (used1 cfg [(a, l)]) = mset (used1 cfg us)"
    unfolding used0_def used1_def mset_map mset_filter by (simp_all del: mset_remove1)
qed

lemma running_used:
  assumes "initialised_q st" "\<forall>(a, l)\<in>set us. l \<le> SLOT0_SIZE cfg \<or> l \<le> SLOT1_SIZE cfg" "alloc_allowed (st, us) i" "alloc_exec cfg i (st, us) = Some (st', us')"
  shows "mset (used0 cfg us') + mset (given (gives True cfg i st)) = mset (used0 cfg us) + mset (taken (takes True cfg i st) (fifo_slot0 st))"
    "mset (used1 cfg us') + mset (given (gives False cfg i st)) = mset (used1 cfg us) + mset (taken (takes False cfg i st) (fifo_slot1 st))"
    "\<forall>(a, l)\<in>set us'. l \<le> SLOT0_SIZE cfg \<or> l \<le> SLOT1_SIZE cfg"
proof -
  define us1 where "us1 = (case in_feedback i of Some b \<Rightarrow> if feedback_ready_o cfg st then remove1 b us else us | None \<Rightarrow> us)"
  define w where "w = map_option (\<lambda>(a, l, t). (a, l)) (write_o (alloc_comb cfg i st))"
  have us': "us' = us1 @ (case w of Some b \<Rightarrow> [b] | None \<Rightarrow> [])" using assms(4) by (auto simp: alloc_exec_def us1_def w_def Let_def split: option.splits)
  have one: "mset (used0 cfg us1) + mset (given (gives True cfg i st)) = mset (used0 cfg us)" "mset (used1 cfg us1) + mset (given (gives False cfg i st)) = mset (used1 cfg us)"
    "set us1 \<subseteq> set us"
  proof -
    have "(mset (used0 cfg us1) + mset (given (gives True cfg i st)) = mset (used0 cfg us) \<and> mset (used1 cfg us1) + mset (given (gives False cfg i st)) = mset (used1 cfg us))
      \<and> set us1 \<subseteq> set us"
    proof (cases "in_feedback i")
      case None
      then show ?thesis by (simp add: us1_def gives_def given_def)
    next
      case (Some b)
      obtain a l where b: "b = (a, l)" by (cases b)
      then have l: "(a, l) \<in> set us" "large cfg l \<Longrightarrow> l \<le> SLOT0_SIZE cfg" using assms(2,3) Some by (auto simp: alloc_allowed_def large_def)
      show ?thesis using used_remove [OF l(1), of cfg] l(2) set_remove1_subset [of "(a, l)" us] unfolding us1_def Some b
        by (auto simp: gives_def given_def used_simps Some b split: if_splits)
    qed
    then show "mset (used0 cfg us1) + mset (given (gives True cfg i st)) = mset (used0 cfg us)" "mset (used1 cfg us1) + mset (given (gives False cfg i st)) = mset (used1 cfg us)"
      "set us1 \<subseteq> set us" by blast+
  qed
  have two: "used0 cfg (case w of Some b \<Rightarrow> [b] | None \<Rightarrow> []) = taken (takes True cfg i st) (fifo_slot0 st)" "used1 cfg (case w of Some b \<Rightarrow> [b] | None \<Rightarrow> []) = taken (takes False cfg i st) (fifo_slot1 st)"
    "\<forall>(a, l)\<in>set (case w of Some b \<Rightarrow> [b] | None \<Rightarrow> []). l \<le> SLOT0_SIZE cfg \<or> l \<le> SLOT1_SIZE cfg"
    unfolding w_def running_wires(8) [OF assms(1)] by (auto simp: takes_def taken_def used_simps large_def split: option.splits prod.splits if_splits)
  show "mset (used0 cfg us') + mset (given (gives True cfg i st)) = mset (used0 cfg us) + mset (taken (takes True cfg i st) (fifo_slot0 st))"
    "mset (used1 cfg us') + mset (given (gives False cfg i st)) = mset (used1 cfg us) + mset (taken (takes False cfg i st) (fifo_slot1 st))"
    unfolding us' used_simps mset_append two one(1,2) [symmetric] by (simp_all add: ac_simps)
  show "\<forall>(a, l)\<in>set us'. l \<le> SLOT0_SIZE cfg \<or> l \<le> SLOT1_SIZE cfg" unfolding us' set_append using two(3) one(3) assms(2) by blast
qed

lemma fill_kind:
  fixes c :: u32
  assumes "fifo_inv k f" "fifo_items k f = map sl [0..<unat c]" "c \<le> ucast (n :: u16)"
  shows "fifo_items k (axis_fifo_clk k False (if c < ucast n then Some (sl (unat c)) else None) False f) = map sl [0..<unat (if c < ucast n \<and> s_axis_tready k f then c + 1 else c)]"
    "(if c < ucast n \<and> s_axis_tready k f then c + 1 else c) \<le> ucast n"
proof -
  have u: "unat (c + 1) = unat c + 1" if "c < ucast n" using that unat_u32_less [of "ucast n"] by (simp add: unat_word_ariths word_less_nat_alt)
  show "fifo_items k (axis_fifo_clk k False (if c < ucast n then Some (sl (unat c)) else None) False f) = map sl [0..<unat (if c < ucast n \<and> s_axis_tready k f then c + 1 else c)]"
    using af.clk_items [OF assms(1), of False "if c < ucast n then Some (sl (unat c)) else None"] assms(2) u by auto
  show "(if c < ucast n \<and> s_axis_tready k f then c + 1 else c) \<le> ucast n" using assms(3) u by (auto simp: word_le_nat_alt word_less_nat_alt)
qed

lemma filling_wires:
  assumes "\<not> initialised_q st" "in_feedback i = None"
  shows "slot0_deq_ready (alloc_comb cfg i st) = False" "slot1_deq_ready (alloc_comb cfg i st) = False" "write_o (alloc_comb cfg i st) = None"
    "slot0_init_enq (alloc_comb cfg i st) = (if slot0_free_count_q st < ucast (SLOT0_COUNT cfg) then Some (slot0 cfg (unat (slot0_free_count_q st))) else None)"
    "slot1_init_enq (alloc_comb cfg i st) = (if slot1_free_count_q st < ucast (SLOT1_COUNT cfg) then Some (slot1 cfg (unat (slot1_free_count_q st))) else None)"
    "slot0_free_count_d (alloc_comb cfg i st) =
       (if slot0_free_count_q st < ucast (SLOT0_COUNT cfg) \<and> s_axis_tready (fifo_width0 cfg) (fifo_slot0 st) then slot0_free_count_q st + 1 else slot0_free_count_q st)"
    "slot1_free_count_d (alloc_comb cfg i st) =
       (if slot1_free_count_q st < ucast (SLOT1_COUNT cfg) \<and> s_axis_tready (fifo_width1 cfg) (fifo_slot1 st) then slot1_free_count_q st + 1 else slot1_free_count_q st)"
    "initialised_d (alloc_comb cfg i st) \<longleftrightarrow> slot0_free_count_d (alloc_comb cfg i st) = ucast (SLOT0_COUNT cfg) \<and> slot1_free_count_d (alloc_comb cfg i st) = ucast (SLOT1_COUNT cfg)"
  using assms by (auto simp: alloc_comb_def alloc_give_back_def alloc_take_def alloc_fill_def alloc_defaults_def pkt_ready_o_def slot0_def slot1_def Let_def
      split: option.splits)

lemma running_step:
  assumes "alloc_inv cfg (st, us)" "initialised_q st" "alloc_allowed (st, us) i" "alloc_exec cfg i (st, us) = Some (st', us')"
  shows "alloc_inv cfg (st', us')"
proof -
  let ?k0 = "fifo_width0 cfg" and ?k1 = "fifo_width1 cfg"
  have f: "fifo_inv ?k0 (fifo_slot0 st)" "fifo_inv ?k1 (fifo_slot1 st)" "\<forall>(a, l)\<in>set us. l \<le> SLOT0_SIZE cfg \<or> l \<le> SLOT1_SIZE cfg"
    and k: "kind_ok (slots0 cfg) (fifo_items ?k0 (fifo_slot0 st)) (used0 cfg us) (slot0_free_count_q st)" "kind_ok (slots1 cfg) (fifo_items ?k1 (fifo_slot1 st)) (used1 cfg us) (slot1_free_count_q st)"
    using assms(1,2) by (simp_all add: alloc_inv_def Let_def)
  have st': "st' = alloc_clk cfg True i st" using assms(4) by (simp add: alloc_exec_def Let_def)
  note u = running_used [OF assms(2) f(3) assms(3,4)] and w = running_wires [OF assms(2)]
  have t: "takes b cfg i st \<Longrightarrow> 0 < slot0_free_count_q st \<and> 0 < slot1_free_count_q st" for b by (auto simp: takes_def pkt_ready_o_def split: option.splits)
  have g: "gives b cfg i st \<noteq> None \<Longrightarrow> s_axis_tready ?k0 (fifo_slot0 st) \<and> s_axis_tready ?k1 (fifo_slot1 st)" for b
    by (auto simp: gives_def feedback_ready_o_def split: option.splits if_splits)
  note K0 = kind_step [OF f(1) k(1) _ _ u(1)] and K1 = kind_step [OF f(2) k(2) _ _ u(2)]
  show ?thesis unfolding alloc_inv_def st' alloc_clk_def Let_def using u(3) K0 K1 t g af.clk_inv [OF f(1)] af.clk_inv [OF f(2)] assms(2) by (simp add: w)
qed

lemma filling_step:
  assumes "alloc_inv cfg (st, us)" "\<not> initialised_q st" "alloc_allowed (st, us) i" "alloc_exec cfg i (st, us) = Some (st', us')"
  shows "alloc_inv cfg (st', us')"
proof -
  let ?k0 = "fifo_width0 cfg" and ?k1 = "fifo_width1 cfg"
  have f: "fifo_inv ?k0 (fifo_slot0 st)" "fifo_inv ?k1 (fifo_slot1 st)" "us = []" "slot0_free_count_q st \<le> ucast (SLOT0_COUNT cfg)" "slot1_free_count_q st \<le> ucast (SLOT1_COUNT cfg)"
    and i: "fifo_items ?k0 (fifo_slot0 st) = map (slot0 cfg) [0..<unat (slot0_free_count_q st)]" "fifo_items ?k1 (fifo_slot1 st) = map (slot1 cfg) [0..<unat (slot1_free_count_q st)]"
    using assms(1,2) by (simp_all add: alloc_inv_def Let_def)
  have fb: "in_feedback i = None" using assms(3) f(3) by (auto simp: alloc_allowed_def split: option.splits)
  note w = filling_wires [OF assms(2) fb] and F0 = fill_kind [OF f(1) i(1) f(4)] and F1 = fill_kind [OF f(2) i(2) f(5)]
  have st': "st' = alloc_clk cfg True i st" "us' = []" using assms(4) f(3) by (simp_all add: alloc_exec_def Let_def fb w(3))
  define st1 where "st1 = alloc_clk cfg True i st"
  have q: "initialised_q st1 = initialised_d (alloc_comb cfg i st)" "slot0_free_count_q st1 = slot0_free_count_d (alloc_comb cfg i st)" "slot1_free_count_q st1 = slot1_free_count_d (alloc_comb cfg i st)"
    by (simp_all add: st1_def alloc_clk_def Let_def)
  have items: "fifo_items ?k0 (fifo_slot0 st1) = map (slot0 cfg) [0..<unat (slot0_free_count_q st1)]" "fifo_items ?k1 (fifo_slot1 st1) = map (slot1 cfg) [0..<unat (slot1_free_count_q st1)]"
    unfolding q using assms(2) F0(1) F1(1) by (simp_all add: st1_def alloc_clk_def Let_def w(1,2,4-7))
  have inv: "fifo_inv ?k0 (fifo_slot0 st1)" "fifo_inv ?k1 (fifo_slot1 st1)" using af.clk_inv [OF f(1)] af.clk_inv [OF f(2)] by (simp_all add: st1_def alloc_clk_def Let_def)
  have le: "slot0_free_count_q st1 \<le> ucast (SLOT0_COUNT cfg)" "slot1_free_count_q st1 \<le> ucast (SLOT1_COUNT cfg)" unfolding q w(6,7) using F0(2) F1(2) by simp_all
  have "kind_ok (slots0 cfg) (fifo_items ?k0 (fifo_slot0 st1)) [] (slot0_free_count_q st1)" "kind_ok (slots1 cfg) (fifo_items ?k1 (fifo_slot1 st1)) [] (slot1_free_count_q st1)"
    if "initialised_q st1"
    using that w(8) items unfolding q by (simp_all add: kind_ok_def slots0_def slots1_def unat_ucast_16_32)
  then show ?thesis unfolding st' st1_def [symmetric] alloc_inv_def Let_def using inv items le by (simp add: used_simps)
qed

interpretation alloc_system: invariant_system "alloc_exec cfg" alloc_allowed "alloc_inv cfg" for cfg
proof
  fix s t :: alloc_run and i
  assume a: "alloc_inv cfg s" "alloc_allowed s i" "alloc_exec cfg i s = Some t"
  obtain st us st' us' where e: "s = (st, us)" "t = (st', us')" by (cases s; cases t)
  show "alloc_inv cfg t" using a unfolding e by (cases "initialised_q st") (blast intro: running_step filling_step)+
qed

definition fifos_sized :: "alloc_cfg \<Rightarrow> pkt_alloc \<Rightarrow> bool" where
  "fifos_sized cfg st \<longleftrightarrow> length (fifo_mem (fifo_slot0 st)) = 2 ^ fifo_width0 cfg \<and> length (fifo_mem (fifo_slot1 st)) = 2 ^ fifo_width1 cfg"

lemma reset_inv:
  assumes "fifos_sized cfg st"
  shows "alloc_inv cfg (alloc_clk cfg False i st, [])"
  using assms clk_reset [of "fifo_slot0 st" "fifo_width0 cfg"] clk_reset [of "fifo_slot1 st" "fifo_width1 cfg"]
  by (simp add: fifos_sized_def alloc_inv_def alloc_clk_def Let_def)

section \<open>Buffers do not overlap\<close>

text \<open>What the assertions of the module mean to ensure: the slots fit into the buffer.\<close>

definition cfg_fits :: "alloc_cfg \<Rightarrow> bool" where
  "cfg_fits cfg \<longleftrightarrow> 0 < SLOT0_SIZE cfg \<and> 0 < SLOT1_SIZE cfg
     \<and> unat (SLOT0_SIZE cfg) * unat (SLOT0_COUNT cfg) + unat (SLOT1_SIZE cfg) * unat (SLOT1_COUNT cfg) \<le> unat (BUF_SIZE cfg)
     \<and> unat (BUF_START cfg) + unat (BUF_SIZE cfg) < 2 ^ 32"

lemma unat_mult_add:
  assumes "unat b + unat (s :: u16) * n < 2 ^ 32"
  shows "unat (b + ucast s * of_nat n :: u32) = unat b + unat s * n"
proof -
  have "b + ucast s * of_nat n = (of_nat (unat b + unat s * n) :: u32)" by simp
  then show ?thesis using assms by (simp only: unat_of_nat) simp
qed

lemma cfg_total:
  assumes "cfg_fits cfg"
  shows "unat (SLOT0_SIZE cfg) * unat (SLOT0_COUNT cfg) + unat (SLOT1_SIZE cfg) * unat (SLOT1_COUNT cfg) \<le> unat (BUF_SIZE cfg)"
  using assms by (simp add: cfg_fits_def)

lemma unat_slots:
  assumes "cfg_fits cfg"
  shows "n < unat (SLOT0_COUNT cfg) \<Longrightarrow> unat (slot0 cfg n) = unat (BUF_START cfg) + unat (SLOT0_SIZE cfg) * n"
    "n < unat (SLOT1_COUNT cfg) \<Longrightarrow> unat (slot1 cfg n) = unat (BUF_START cfg) + unat (SLOT0_SIZE cfg) * unat (SLOT0_COUNT cfg) + unat (SLOT1_SIZE cfg) * n"
proof -
  have t: "unat (BUF_START cfg) + (unat (SLOT0_SIZE cfg) * unat (SLOT0_COUNT cfg) + unat (SLOT1_SIZE cfg) * unat (SLOT1_COUNT cfg)) < 2 ^ 32"
    using cfg_total [OF assms] assms by (simp add: cfg_fits_def)
  show "unat (slot0 cfg n) = unat (BUF_START cfg) + unat (SLOT0_SIZE cfg) * n" if "n < unat (SLOT0_COUNT cfg)"
  proof -
    have "unat (SLOT0_SIZE cfg) * n \<le> unat (SLOT0_SIZE cfg) * unat (SLOT0_COUNT cfg)" using that by simp
    then show ?thesis unfolding slot0_def using t by (intro unat_mult_add) linarith
  qed
  have "SLOT1_START cfg = BUF_START cfg + ucast (SLOT0_SIZE cfg) * of_nat (unat (SLOT0_COUNT cfg))"
    by (simp add: SLOT1_START_def mult.commute)
  then have s: "unat (SLOT1_START cfg) = unat (BUF_START cfg) + unat (SLOT0_SIZE cfg) * unat (SLOT0_COUNT cfg)"
    using t unat_mult_add [of "BUF_START cfg" "SLOT0_SIZE cfg" "unat (SLOT0_COUNT cfg)"] by simp
  show "unat (slot1 cfg n) = unat (BUF_START cfg) + unat (SLOT0_SIZE cfg) * unat (SLOT0_COUNT cfg) + unat (SLOT1_SIZE cfg) * n" if "n < unat (SLOT1_COUNT cfg)"
  proof -
    have "unat (SLOT1_SIZE cfg) * n \<le> unat (SLOT1_SIZE cfg) * unat (SLOT1_COUNT cfg)" using that by simp
    then show ?thesis unfolding slot1_def s [symmetric] using t s by (intro unat_mult_add) linarith
  qed
qed

lemma step_apart: "n < m \<Longrightarrow> s * n + s \<le> s * (m :: nat)"
  using mult_le_mono2 [of "Suc n" m s] by simp

lemma slots_apart:
  assumes "cfg_fits cfg"
  shows "a \<in> set (slots0 cfg) \<Longrightarrow> unat (BUF_START cfg) \<le> unat a \<and> unat a + unat (SLOT0_SIZE cfg) \<le> unat (BUF_START cfg) + unat (SLOT0_SIZE cfg) * unat (SLOT0_COUNT cfg)"
    "b \<in> set (slots1 cfg) \<Longrightarrow> unat (BUF_START cfg) + unat (SLOT0_SIZE cfg) * unat (SLOT0_COUNT cfg) \<le> unat b \<and> unat b + unat (SLOT1_SIZE cfg) \<le> unat (BUF_START cfg) + unat (BUF_SIZE cfg)"
    "a \<in> set (slots0 cfg) \<Longrightarrow> a' \<in> set (slots0 cfg) \<Longrightarrow> a \<noteq> a' \<Longrightarrow> unat a + unat (SLOT0_SIZE cfg) \<le> unat a' \<or> unat a' + unat (SLOT0_SIZE cfg) \<le> unat a"
    "b \<in> set (slots1 cfg) \<Longrightarrow> b' \<in> set (slots1 cfg) \<Longrightarrow> b \<noteq> b' \<Longrightarrow> unat b + unat (SLOT1_SIZE cfg) \<le> unat b' \<or> unat b' + unat (SLOT1_SIZE cfg) \<le> unat b"
    "distinct (slots0 cfg)" "distinct (slots1 cfg)"
proof -
  note u = unat_slots [OF assms] and t = cfg_total [OF assms]
  have pos: "0 < unat (SLOT0_SIZE cfg)" "0 < unat (SLOT1_SIZE cfg)" using assms by (simp_all add: cfg_fits_def unat_gt_0 word_gt_0)
  let ?s0 = "unat (SLOT0_SIZE cfg)" and ?s1 = "unat (SLOT1_SIZE cfg)"
  show "unat (BUF_START cfg) \<le> unat a \<and> unat a + ?s0 \<le> unat (BUF_START cfg) + ?s0 * unat (SLOT0_COUNT cfg)" if m: "a \<in> set (slots0 cfg)"
  proof -
    obtain n where n: "n < unat (SLOT0_COUNT cfg)" "a = slot0 cfg n" using m by (auto simp: slots0_def)
    show ?thesis using u(1) [OF n(1)] step_apart [OF n(1), of ?s0] n(2) by simp
  qed
  show "unat (BUF_START cfg) + ?s0 * unat (SLOT0_COUNT cfg) \<le> unat b \<and> unat b + ?s1 \<le> unat (BUF_START cfg) + unat (BUF_SIZE cfg)" if m: "b \<in> set (slots1 cfg)"
  proof -
    obtain n where n: "n < unat (SLOT1_COUNT cfg)" "b = slot1 cfg n" using m by (auto simp: slots1_def)
    show ?thesis using u(2) [OF n(1)] step_apart [OF n(1), of ?s1] n(2) t by simp
  qed
  show "unat a + ?s0 \<le> unat a' \<or> unat a' + ?s0 \<le> unat a" if m: "a \<in> set (slots0 cfg)" "a' \<in> set (slots0 cfg)" "a \<noteq> a'"
  proof -
    obtain n n' where n: "n < unat (SLOT0_COUNT cfg)" "a = slot0 cfg n" "n' < unat (SLOT0_COUNT cfg)" "a' = slot0 cfg n'" using m by (auto simp: slots0_def)
    then have "n < n' \<or> n' < n" using m(3) by (cases n n' rule: linorder_cases) auto
    then show ?thesis using u(1) [OF n(1)] u(1) [OF n(3)] step_apart [of n n' ?s0] step_apart [of n' n ?s0] n(2,4) by auto
  qed
  show "unat b + ?s1 \<le> unat b' \<or> unat b' + ?s1 \<le> unat b" if m: "b \<in> set (slots1 cfg)" "b' \<in> set (slots1 cfg)" "b \<noteq> b'"
  proof -
    obtain n n' where n: "n < unat (SLOT1_COUNT cfg)" "b = slot1 cfg n" "n' < unat (SLOT1_COUNT cfg)" "b' = slot1 cfg n'" using m by (auto simp: slots1_def)
    then have "n < n' \<or> n' < n" using m(3) by (cases n n' rule: linorder_cases) auto
    then show ?thesis using u(2) [OF n(1)] u(2) [OF n(3)] step_apart [of n n' ?s1] step_apart [of n' n ?s1] n(2,4) by auto
  qed
  have "inj_on (slot0 cfg) {0..<unat (SLOT0_COUNT cfg)}" using u(1) pos(1) by (intro inj_onI) (metis atLeastLessThan_iff add_left_cancel mult_cancel1 less_not_refl)
  then show "distinct (slots0 cfg)" by (simp add: slots0_def distinct_map)
  have "inj_on (slot1 cfg) {0..<unat (SLOT1_COUNT cfg)}" using u(2) pos(2) by (intro inj_onI) (metis atLeastLessThan_iff add_left_cancel mult_cancel1 less_not_refl)
  then show "distinct (slots1 cfg)" by (simp add: slots1_def distinct_map)
qed

lemma buffers_apart:
  assumes "cfg_fits cfg" "distinct (used0 cfg us)" "distinct (used1 cfg us)" "set (used0 cfg us) \<subseteq> set (slots0 cfg)" "set (used1 cfg us) \<subseteq> set (slots1 cfg)"
    and "\<forall>(a, l)\<in>set us. l \<le> SLOT0_SIZE cfg \<or> l \<le> SLOT1_SIZE cfg"
  shows "sorted_wrt (\<lambda>(a, l) (b, m). unat a + unat l \<le> unat b \<or> unat b + unat m \<le> unat a) us"
    "\<forall>(a, l)\<in>set us. unat (BUF_START cfg) \<le> unat a \<and> unat a + unat l \<le> unat (BUF_START cfg) + unat (BUF_SIZE cfg)"
proof -
  note S = slots_apart [OF assms(1)]
  have len: "unat l \<le> (if large cfg l then unat (SLOT0_SIZE cfg) else unat (SLOT1_SIZE cfg))" if "(a, l) \<in> set us" for a l
    using assms(6) that by (auto simp: large_def word_le_nat_alt word_less_nat_alt not_less)
  have slot: "a \<in> set (if large cfg l then slots0 cfg else slots1 cfg)" if "(a, l) \<in> set us" for a l
    using that assms(4,5) by (force simp: used0_def used1_def)
  show "\<forall>(a, l)\<in>set us. unat (BUF_START cfg) \<le> unat a \<and> unat a + unat l \<le> unat (BUF_START cfg) + unat (BUF_SIZE cfg)"
  proof (clarify, goal_cases)
    case (1 a l)
    then show ?case using len [OF 1] slot [OF 1] S(1,2) [of a] cfg_total [OF assms(1)] by (cases "large cfg l") auto
  qed
  have pair: "unat a + unat l \<le> unat b \<or> unat b + unat m \<le> unat a" if "(a, l) \<in> set us" "(b, m) \<in> set us" "large cfg l = large cfg m \<Longrightarrow> a \<noteq> b" for a l b m
    using len [OF that(1)] len [OF that(2)] slot [OF that(1)] slot [OF that(2)] that(3) S(1,2) [of a] S(1,2) [of b] S(3,4) [of a b]
    by (cases "large cfg l"; cases "large cfg m") auto
  have "sorted_wrt (\<lambda>(a, l) (b, m). unat a + unat l \<le> unat b \<or> unat b + unat m \<le> unat a) vs" if "set vs \<subseteq> set us" "distinct (used0 cfg vs)" "distinct (used1 cfg vs)" for vs
    using that
  proof (induction vs)
    case (Cons v vs)
    obtain a l where v: "v = (a, l)" by (cases v)
    have "unat a + unat l \<le> unat b \<or> unat b + unat m \<le> unat a" if m: "(b, m) \<in> set vs" for b m
    proof (rule pair)
      show "a \<noteq> b" if "large cfg l = large cfg m" using Cons.prems(2,3) m that unfolding v by (force simp: used0_def used1_def)
    qed (use Cons.prems(1) m v in auto)
    moreover have "distinct (used0 cfg vs)" "distinct (used1 cfg vs)" using Cons.prems(2,3) by (auto simp: used0_def used1_def split: prod.splits if_splits)
    ultimately show ?case using Cons unfolding v by auto
  qed simp
  then show "sorted_wrt (\<lambda>(a, l) (b, m). unat a + unat l \<le> unat b \<or> unat b + unat m \<le> unat a) us" using assms(2,3) by blast
qed

text \<open>
  Property C23. The packet allocator, in a configuration whose slots fit into the packet memory, from a reset, over any inputs in which PsPIN gives back only buffers that are in
  use, with the size it was told. The buffers in use lie in the packet memory and
  do not overlap, each has room for its packet, and once the allocator is initialised the slots in use and the free ones in the FIFOs are together all the slots, so that none is lost
  or handed out twice; the counters never exceed the number of free slots.
\<close>

theorem alloc_buffers_disjoint:
  assumes "cfg_fits cfg" "fifos_sized cfg st0" "reach (alloc_exec cfg) alloc_allowed (alloc_clk cfg False i0 st0, []) (st, us)"
  shows "sorted_wrt (\<lambda>(a, l) (b, m). unat a + unat l \<le> unat b \<or> unat b + unat m \<le> unat a) us
    \<and> (\<forall>(a, l)\<in>set us. unat (BUF_START cfg) \<le> unat a \<and> unat a + unat l \<le> unat (BUF_START cfg) + unat (BUF_SIZE cfg))
    \<and> (initialised_q st \<longrightarrow> mset (fifo_items (fifo_width0 cfg) (fifo_slot0 st)) + mset (used0 cfg us) = mset (slots0 cfg)
         \<and> mset (fifo_items (fifo_width1 cfg) (fifo_slot1 st)) + mset (used1 cfg us) = mset (slots1 cfg)
         \<and> unat (slot0_free_count_q st) \<le> length (fifo_items (fifo_width0 cfg) (fifo_slot0 st)) \<and> unat (slot1_free_count_q st) \<le> length (fifo_items (fifo_width1 cfg) (fifo_slot1 st)))"
proof -
  have inv: "alloc_inv cfg (st, us)" by (rule alloc_system.reach_inv [OF assms(3) reset_inv [OF assms(2)]])
  have len: "\<forall>(a, l)\<in>set us. l \<le> SLOT0_SIZE cfg \<or> l \<le> SLOT1_SIZE cfg" using inv by (simp add: alloc_inv_def Let_def)
  have k: "mset (fifo_items (fifo_width0 cfg) (fifo_slot0 st)) + mset (used0 cfg us) = mset (slots0 cfg)" "unat (slot0_free_count_q st) \<le> length (fifo_items (fifo_width0 cfg) (fifo_slot0 st))"
    "mset (fifo_items (fifo_width1 cfg) (fifo_slot1 st)) + mset (used1 cfg us) = mset (slots1 cfg)" "unat (slot1_free_count_q st) \<le> length (fifo_items (fifo_width1 cfg) (fifo_slot1 st))"
    if "initialised_q st" using inv that by (simp_all add: alloc_inv_def kind_ok_def Let_def)
  note S = slots_apart [OF assms(1)]
  have "distinct (used0 cfg us) \<and> distinct (used1 cfg us) \<and> set (used0 cfg us) \<subseteq> set (slots0 cfg) \<and> set (used1 cfg us) \<subseteq> set (slots1 cfg)"
  proof (cases "initialised_q st")
    case True
    then have m: "mset (fifo_items (fifo_width0 cfg) (fifo_slot0 st) @ used0 cfg us) = mset (slots0 cfg)" "mset (fifo_items (fifo_width1 cfg) (fifo_slot1 st) @ used1 cfg us) = mset (slots1 cfg)"
      using k(1,3) by simp_all
    show ?thesis using mset_eq_imp_distinct_iff [OF m(1)] mset_eq_imp_distinct_iff [OF m(2)] mset_eq_setD [OF m(1)] mset_eq_setD [OF m(2)] S(5,6) by auto
  next
    case False
    then have "us = []" using inv by (simp add: alloc_inv_def Let_def)
    then show ?thesis by (simp add: used_simps)
  qed
  then show ?thesis using buffers_apart [OF assms(1) _ _ _ _ len] k by blast
qed

text \<open>
  The configuration of the design fits. The assertion of the module does not tell: the sum of the sizes wraps, here to 0, and also slots that need twice the buffer pass, those
  of the default parameters.
\<close>

lemma ingress_cfg_fits: "cfg_fits ingress_cfg" "alloc_assertions ingress_cfg" "total_size ingress_cfg = 0"
proof -
  show "cfg_fits ingress_cfg" by (simp add: cfg_fits_def ingress_cfg_def)
  show "alloc_assertions ingress_cfg" "total_size ingress_cfg = 0" by code_simp+
qed

lemma assertion_wraps:
  "let cfg = \<lparr>BUF_START = 0x1c100000, BUF_SIZE = 1024 * 1024, SLOT0_SIZE = 1536, SLOT0_COUNT = 1024, SLOT1_SIZE = 64, SLOT1_COUNT = 8192, PKT_MEM_ALIGNMENT = 64\<rparr>
   in alloc_assertions cfg \<and> SLOT1_START cfg \<ge> BUF_START cfg + BUF_SIZE cfg"
  by code_simp

definition example_cfg :: alloc_cfg where
  "example_cfg = \<lparr>BUF_START = 0x1000, BUF_SIZE = 384, SLOT0_SIZE = 128, SLOT0_COUNT = 2, SLOT1_SIZE = 64, SLOT1_COUNT = 2, PKT_MEM_ALIGNMENT = 64\<rparr>"

definition example_alloc :: pkt_alloc where
  "example_alloc = (let f = \<lparr>wr_ptr_reg = 0, rd_ptr_reg = 0, fifo_mem = [0, 0], pipe_reg0 = 0, pipe_reg1 = 0, valid_reg0 = False, valid_reg1 = False\<rparr>
     in \<lparr>initialised_q = True, slot0_free_count_q = 7, slot1_free_count_q = 7, dropped_pkts_o = 0, fifo_slot0 = f, fifo_slot1 = f\<rparr>)"

definition idle :: alloc_in where "idle = \<lparr>in_pkt = None, in_feedback = None, in_write_ready = True\<rparr>"
definition announce :: "u32 \<Rightarrow> u16 \<Rightarrow> alloc_in" where "announce tag len = idle\<lparr>in_pkt := Some (tag, len)\<rparr>"
definition return_slot :: "u32 \<Rightarrow> u16 \<Rightarrow> alloc_in" where "return_slot a len = idle\<lparr>in_feedback := Some (a, len)\<rparr>"

definition example_run :: "alloc_in list \<Rightarrow> alloc_run option" where
  "example_run is = run (alloc_exec example_cfg) alloc_allowed is (alloc_clk example_cfg False idle example_alloc, [])"

lemma example_cfg_fits: "cfg_fits example_cfg" "fifos_sized example_cfg example_alloc"
proof -
  show "cfg_fits example_cfg" by (simp add: cfg_fits_def example_cfg_def)
  show "fifos_sized example_cfg example_alloc" by code_simp
qed

theorem alloc_buffers_disjoint_witness:
  "let s = the (example_run [idle, idle, idle, idle, announce 1 100, announce 2 128, announce 3 10])
   in snd s = [(0x1000, 100), (0x1080, 128)] \<and> sorted_wrt (\<lambda>(a, l) (b, m). unat a + unat l \<le> unat b \<or> unat b + unat m \<le> unat a) (snd s)"
proof -
  let ?r = "example_run [idle, idle, idle, idle, announce 1 100, announce 2 128, announce 3 10]"
  have "case ?r of None \<Rightarrow> False | Some s \<Rightarrow> snd s = [(0x1000, 100), (0x1080, 128)]" by code_simp
  then have r: "\<not> Option.is_none ?r" "snd (the ?r) = [(0x1000, 100), (0x1080, 128)]" by (cases ?r; simp only: option.case option.sel Option.is_none_code simp_thms)+
  have "reach (alloc_exec example_cfg) alloc_allowed (alloc_clk example_cfg False idle example_alloc, []) (fst (the ?r), snd (the ?r))"
    using r(1) unfolding prod.collapse example_run_def by (rule run_reach_the)
  then show ?thesis using alloc_buffers_disjoint [OF example_cfg_fits] r(2) unfolding Let_def by blast
qed

text \<open>
  A packet that waits for a slot: the counter is raised with the feedback, two cycles before the address reaches the output of the FIFO. The packet is accepted in
  between and gets no buffer, and the counter stays one below the number of free slots for ever.
\<close>

lemma waiting_packet_lost:
  "case example_run [idle, idle, idle, idle, announce 1 100, announce 2 128, (return_slot 0x1000 100)\<lparr>in_pkt := Some (4, 100)\<rparr>] of None \<Rightarrow> False
   | Some (st, us) \<Rightarrow> us = [(0x1080, 128)] \<and> slot0_free_count_q st = 1 \<and> pkt_ready_o (announce 4 100) st \<and> write_o (alloc_comb example_cfg (announce 4 100) st) = None
       \<and> (let st' = alloc_clk example_cfg True (announce 4 100) st in slot0_free_count_q st' = 0 \<and> fifo_items 1 (fifo_slot0 st') = [0x1000])"
  by code_simp

end
