(* ===== verification/Spec2Isabelle.thy ===== *)
theory Spec2Isabelle
  imports Host_Runtime Ping_Nic Slmp_Message Mqnic_Tx Mqnic_Rx Ooorb Pkt_Alloc
begin

text \<open>
  FPsPIN: verification of the host and NIC software of a PsPIN packet processor on an FPGA NIC.

  \<^bold>\<open>The program.\<close> FPsPIN runs packet handlers on the PsPIN cores (HPUs) of an FPGA NIC. Packets that a matching engine
  selects are given to a handler as a task; the handler works on the packet in NIC memory, issues DMA and send commands, and may ask the host for
  service through a flag word. On the host a kernel module (\<open>mqnic_app_pspin\<close>) exports the registers, the NIC memory and the DMA areas; a library
  (\<open>lib/fpspin\<close>) loads handlers, programs the matching engine, answers requests and sends messages with the SLMP protocol. The NIC itself is Corundum:
  its driver (\<open>modules/mqnic\<close>) runs the transmit, receive, completion and event queues of the ordinary network interface.

  \<^bold>\<open>Conventions.\<close> Fixed-width integers are words of that width, so that arithmetic wraps as in C; sizes and list positions that
  cannot overflow are natural numbers. A structure is a record, an operation a function from the old to the new state. Errors are values: the error codes of the kernel
  (\<open>Fp_Prelude\<close>), result datatypes, or options. What the code takes from outside (the kernel, system calls, the binary tools, the network, the
  scheduler of threads, the device) is an argument of the definitions; a theorem that needs something of it says so in its hypotheses. Several parties
  that interleave are transition systems: \<open>reach\<close> of \<open>Fp_Prelude\<close> is reachability, the locale \<open>invariant_system\<close> gives invariants and the
  locale \<open>simulation\<close> refinements; each is interpreted on the definitions of the component. A loop that may not end is a \<open>partial_function\<close> into
  \<open>option\<close>, and \<open>None\<close> is then the run that does not return; theorems about such a loop state that it returns.

  \<^bold>\<open>The theories\<close>, with the files under \<open>src\<close> that they model.

  \<^item> \<open>Fp_Prelude\<close>: words, little-endian memory (\<open>le32\<close>, \<open>bytes32\<close>, \<open>put_bytes\<close>, the locale \<open>word_port\<close> for word access to byte memory),
    transition systems.

  \<^item> \<open>Packets\<close> (\<open>fpga/app/pspin/deps/pspin/sw/runtime/include/packets.h\<close>, checksum of \<open>icmp_ping.c\<close>): header layouts, byte order, the Internet
    checksum. C1: the optimised checksum equals the reference one; C2: a header with the computed checksum verifies.

  \<^item> \<open>Pspin_Regs\<close> (\<open>modules/mqnic_app_pspin/regs-gen.h\<close>, the sysfs part of \<open>main.c\<close>): the register table with every group, the check functions, store and
    show. C3: the layout has no aliases; C4: an enabled engine cannot be reconfigured; C5: what is stored is shown.

  \<^item> \<open>Pspin_Cdev\<close> (the rest of \<open>main.c\<close>, \<open>pspin_ioctl.h\<close>): address translation, the memory and stdout devices, ioctl, the host DMA areas with mmap
    and reference counts, probe and removal. C6 to C10: translation, round trips within the memories that exist behind the window, and file positions that keep every access
    away from the registers behind it; C11 to C13: reference counts, which are C ints, no leaks, and, if mmap is used only while the HER generator is off, the DMA window
    of an enabled context is its own buffer; C14: a failing probe leaves nothing behind.

  \<^item> \<open>Match_Rules\<close> (\<open>lib/fpspin/fpspin.h\<close>, \<open>loader.c\<close>, \<open>fpga/app/pspin/rtl/pspin_pkt_match.v\<close>): rules, rulesets, and the decision of the hardware
    matcher. \<open>Fpspin_Loader\<close> (\<open>lib/fpspin/loader.c\<close>): register writes through sysfs, programming the matching engine, the copy loop into NIC memory.
    C15 and C16: the engine holds exactly the given rules, and with the SLMP ruleset and the mode registers at their reset value it selects exactly the SLMP packets and tags them
    with 16 bits of the message id; C17: the copy loop returns
    exactly for lengths that are multiples of four. \<open>Fpspin_Load\<close>: the whole of \<open>fpspin_load\<close>; C20: it leaves image and registers as requested.

  \<^item> \<open>Fpspin_Init\<close> (\<open>fpspin_init\<close>, \<open>fpspin_exit\<close> of \<open>lib/fpspin/runtime.c\<close>), over the driver and loader models. C18: the context is set up; C19: after exit nothing
    is matched to the context and its buffer is free.

  \<^item> \<open>Host_Flag\<close> (\<open>spin_host.h\<close>, \<open>runtime.c\<close>): the flag word and the protocol between a handler and its host thread, as one interleaving system with the single
    memory accesses as steps. C21: it refines a call service; C22: calls complete. \<open>Host_Runtime\<close>: the calls of the library
    on the driver model; C29: they are the host steps of the protocol; C30: the counters of handlers and host agree.

  \<^item> \<open>Nic_Cmd\<close> (\<open>handler.h\<close>, \<open>hwsched.h\<close>, \<open>hpu_driver.sv\<close>): task descriptor and commands. C24 and C25: the handler reads the fields and the
    command frontend decodes the arguments. \<open>Nic_Sync\<close> (\<open>pspin.h\<close>): atomic instructions and locks, any number of HPUs in any interleaving. C26: compare and swap is atomic;
    C27: the spin lock excludes; C28: what the read-write lock guarantees.

  \<^item> \<open>Axis_Fifo\<close> (\<open>fpga/lib/eth/lib/axis/rtl/axis_fifo.v\<close>, one configuration), \<open>Pkt_Alloc\<close> (\<open>fpga/app/pspin/rtl/pspin_pkt_alloc.v\<close>): the packet allocator of the NIC, clock cycle by
    clock cycle, over the FIFOs of free slots (locale \<open>stream_fifo\<close>). C23: buffers in use do not overlap and no slot is lost.

  \<^item> \<open>Slmp_Nic\<close>, \<open>Ping_Nic\<close> (\<open>examples/slmp\<close>, \<open>examples/icmp_ping\<close>, \<open>examples/udp_ping\<close> of PsPIN): the handlers on the bytes of the packet. C31 to C33: copy and acknowledgement,
    echo reply and UDP reply are right.

  \<^item> \<open>Slmp_Sender\<close> (\<open>lib/fpspin/slmp.c\<close>): the sender with its window and its OpenMP loop, for every schedule of the threads. C35: a successful call for
    three packets or more has sent every packet once; C36: a call whose packets are acknowledged in time succeeds, however often the socket has nothing to give in between. \<open>Slmp_Message\<close> and C34 below compose sender, wire, handlers and host memory.

  \<^item> \<open>Mqnic_Res\<close> (\<open>modules/mqnic/mqnic_res.c\<close>, \<open>mqnic_reg_block.c\<close>): pools of queue numbers (locale \<open>index_pool\<close>) and the chain of register blocks.
    \<open>Mqnic_Queue\<close> (\<open>mqnic_cq.c\<close>, \<open>mqnic_eq.c\<close>): queues whose entries carry a phase bit (locale \<open>phase_ring\<close>). C37: the event queue is a FIFO, with wrapping
    pointers. \<open>Mqnic_Ring\<close>, \<open>Mqnic_Tx\<close>, \<open>Mqnic_Rx\<close> (\<open>mqnic_tx.c\<close>, \<open>mqnic_rx.c\<close>): descriptor rings (locale \<open>slot_ring\<close>) and DMA mappings. C38 and C39: no
    mapping, buffer or page is lost or released twice.

  \<^item> \<open>Lazylist\<close>, \<open>Ooorb\<close> (\<open>examples/ooorb/handlers\<close> of PsPIN): the reorder buffer, a linked list in an array with a free list. C40: it implements a set of held bytes and
    delivers in order.

  \<^bold>\<open>Bounds and fuel.\<close> No model is cut off by fuel. The copy loop of the loader, the loops of the sender and the loops of the reorder buffer are partial functions; their
  termination is part of C17, C36 and C40. The drivers' loops are recursions over the entries that the device has written or over a budget that the code itself has. Numbers in
  hypotheses are the code's own limits: lengths below \<open>2 ^ 32\<close> where the code holds them in 32 bits, 128 nodes of the reorder buffer, rings of \<open>2 ^ k\<close> entries whose pointers are 32 bits wide, fewer than
  \<open>2 ^ 31\<close> mappings of a context and a window that fits into an int. The pointers of the hardware queues have 16 bits; for rings of at most \<open>2 ^ 15\<close> entries that is no difference
  (\<open>device_ptr_16\<close>). At most two packets of a message leave the loop of the sender without an iteration and its variable \<open>cur\<close> without a defined value, which is why C34 and C35 start at three.

  \<^bold>\<open>Defects.\<close> Where a property needs a hypothesis because the code does something unexpected outside of it, a lemma shows what happens there: for example
  \<open>fifo_read_overruns_count\<close>, \<open>mmap_after_enable_unconfined\<close>, \<open>iomap_failure_sticks\<close>, \<open>torn_answer\<close>, \<open>rw_lock_reader_with_writer\<close>, \<open>two_packets_lose_tail\<close>,
  \<open>close_after_reordering\<close>, \<open>cpl_ts_boundary\<close>, \<open>late_range_blocks\<close>, \<open>free_list_exhausted\<close>, \<open>ioctl_spills\<close>, \<open>msg_id_tag_upper_half\<close>, \<open>waiting_packet_lost\<close>.

  \<^bold>\<open>Not modelled.\<close> The Verilog and SystemVerilog designs, except for the decision of the packet matcher, the packet allocator with its FIFOs and the command frontend: they are concurrent hardware
  and most of them are libraries (Corundum, PULP, AXI, PCIe). Printing, floating point statistics and command line parsing of the host applications and the tools in \<open>utils\<close>. The vendored libraries
  that the examples call (mpitypes, uthash, umm_malloc, liblsb) and the PULP SDK. The rest of the Corundum driver, which registers the device with kernel subsystems (netdev, PCI, I2C, PTP clock,
  ethtool). In the modelled parts: what an access to a hole of the memory window does, failing calls of the binary tools in the loader, weak memory ordering (a step of a transition system is one access that reaches memory), time, and the interleaving of two HPUs
  within one operation of the reorder buffer.
\<close>

section \<open>A message from end to end\<close>

text \<open>
  Property C34. A message of at least three packets and less than 4 GB that \<open>slmp_sendmsg\<close> sent successfully, with every packet
  delivered to the NIC at least once, in any order: afterwards the message is in the host memory of the context, behind the pages of the HPUs, and nothing else has
  changed there. The head handler accepts the first packet, and the tail handler reports the size of the message to
  the host for the last packet and for no other.
\<close>

theorem slmp_reassembly:
  assumes "slmp_socket wnd align fc threads = Inr sock"
    and "slmp_sendmsg opts sched cur0 sock mid buf net = Some (Returned 0 c, net')"
    and "mset (map fst sched) = mset [1..<Suc (par_trips (length buf) (slmp_payload_size align))]"
    and "\<forall>(k, t, e) \<in> set sched. t < nat threads" "0 < par_trips (length buf) (slmp_payload_size align)"
    and "n_wire net = []" "frame_packet ` set frames = set (n_wire net')" "\<forall>f \<in> set frames. frame_ok base f" "length buf < 2 ^ 32"
  shows "(\<forall>x. deliver frames m x = (if unat (x - (base + 0x10000)) < length buf then buf ! unat (x - (base + 0x10000)) else m x))
    \<and> (\<forall>f \<in> set frames. (ntohl (pkt_off (fst (frame_packet f))) = 0 \<longrightarrow> slmp_hh (frame_bytes f) = [])
        \<and> slmp_th (frame_bytes f) =
            (if EOM (ntohs (slmp_flags (fst (frame_packet f)))) then [HostReq (of_nat (length buf))] else [Printed]))"
proof -
  define ps where "ps = slmp_payload_size align"
  have sk: "ps = slmp_payload_size (sk_align sock)" using assms(1) by (auto simp: slmp_socket_def ps_def split: if_splits)
  have ps: "0 < ps" using slmp_send_trace [OF assms(1-4) ps_def] by simp
  obtain ws where "n_wire net' = n_wire net @ ws" "mset ws = mset (slmp_packets sock mid buf)"
    using slmp_wire_packets [OF assms(1-5)] by blast
  then have set: "frame_packet ` set frames = set (slmp_packets sock mid buf)"
    using assms(6,7) mset_eq_setD [of ws] by simp
  have pieces: "\<forall>f \<in> set frames. frame_ok base f \<and> (\<exists>cur. piece_of buf (frame_packet f) cur)"
  proof
    fix f assume f: "f \<in> set frames"
    then have "frame_packet f \<in> set (slmp_packets sock mid buf)" using set by auto
    from slmp_packets_mem [OF sk this ps] obtain k fl where "k * ps \<le> length buf" "frame_packet f = packet_at buf ps mid (k * ps) fl" by blast
    with packet_piece [of k ps buf mid fl] have "piece_of buf (frame_packet f) (k * ps)" by simp
    with f assms(8) show "frame_ok base f \<and> (\<exists>cur. piece_of buf (frame_packet f) cur)" by blast
  qed
  have "deliver frames m x = (if unat (x - (base + 0x10000)) < length buf then buf ! unat (x - (base + 0x10000)) else m x)" for x
  proof -
    let ?d = "unat (x - (base + 0x10000))"
    have "(\<exists>f \<in> set frames. \<exists>cur. piece_of buf (frame_packet f) cur \<and> cur \<le> ?d \<and> ?d < cur + length (snd (frame_packet f))) \<longleftrightarrow> ?d < length buf"
    proof
      assume "?d < length buf"
      from slmp_packets_cover [OF sk ps this, of mid] obtain p cur where
        p: "p \<in> set (slmp_packets sock mid buf)" "piece_of buf p cur" "cur \<le> ?d" "?d < cur + length (snd p)" by blast
      from p(1) obtain f where "f \<in> set frames" "p = frame_packet f" unfolding set [symmetric] by (rule imageE)
      with p(2-4) show "\<exists>f \<in> set frames. \<exists>cur. piece_of buf (frame_packet f) cur \<and> cur \<le> ?d \<and> ?d < cur + length (snd (frame_packet f))"
        by blast
    qed (auto simp: piece_of_def)
    then show ?thesis unfolding deliver_pieces [OF pieces assms(9)] by simp
  qed
  moreover have "frame_packet f \<in> set (slmp_packets sock mid buf)" if "f \<in> set frames" for f
    using imageI [OF that, of frame_packet] set by simp
  note ht = slmp_head_tail [OF sk ps assms(9) bspec [OF assms(8)] this]
  ultimately show ?thesis using ht by (intro conjI allI ballI impI) simp_all
qed

definition example_frame :: "slmp_hdr \<times> u8 list \<Rightarrow> frame" where
  "example_frame p = (example_task, example_slmp_hdr\<lparr>sp_udp := (sp_udp example_slmp_hdr)\<lparr>udp_length := htons (of_nat (length (snd p) + 18))\<rparr>,
     sp_slmp := fst p\<rparr>, snd p, [])"

lemma example_frame_simps:
  "frame_packet (example_frame p) = p" "length (snd p) \<le> 1000 \<Longrightarrow> frame_ok (HOST_ADDR example_task) (example_frame p)"
  by (simp_all add: frame_packet_def frame_ok_def example_frame_def slmp_wire_ok_def example_slmp_hdr_def eth_ok_def)

theorem slmp_reassembly_witness:
  "\<exists>net' frames. slmp_sendmsg (True, True) [(1, 1, False)] 1000 example_sock 7 example_buf example_net = Some (Returned 0 True, net')
    \<and> frame_packet ` set frames = set (n_wire net')
    \<and> (\<forall>x. deliver frames (\<lambda>_. 0) x = (if unat (x - (HOST_ADDR example_task + 0x10000)) < length example_buf
         then example_buf ! unat (x - (HOST_ADDR example_task + 0x10000)) else 0))"
proof -
  obtain net' where r: "slmp_sendmsg (True, True) [(1, 1, False)] 1000 example_sock 7 example_buf example_net = Some (Returned 0 True, net')"
    using example_send_runs by blast
  have m: "mset (map fst [(1 :: nat, 1 :: nat, False)]) = mset [1..<Suc (par_trips (length example_buf) (slmp_payload_size 1000))]"
    unfolding example_send by simp
  have t: "\<forall>(k, t, e) \<in> set [(1 :: nat, 1 :: nat, False)]. t < nat 2" "0 < par_trips (length example_buf) (slmp_payload_size 1000)"
    by (simp_all add: example_send(2,3))
  have n: "n_wire example_net = []" by (simp add: example_net_def)
  from slmp_wire_packets [OF example_send(1) r m t] have "mset (n_wire net') = mset (slmp_packets example_sock 7 example_buf)"
    unfolding n append_Nil by blast
  then have "set (n_wire net') = set (slmp_packets example_sock 7 example_buf)" by (rule mset_eq_setD)
  then have l: "length (snd p) \<le> 1000" if "p \<in> set (n_wire net')" for p
    using that by (auto simp: slmp_packets_def packet_at_def Let_def example_sock_def example_send(2))
  let ?fs = "map example_frame (n_wire net')"
  have f: "frame_packet ` set ?fs = set (n_wire net')" by (simp add: image_image example_frame_simps)
  have "\<forall>f \<in> set ?fs. frame_ok (HOST_ADDR example_task) f" using l by (auto simp: example_frame_simps)
  from slmp_reassembly [OF example_send(1) r m t n f this, of "\<lambda>_. 0"] r f show ?thesis
    by (intro exI [of _ net'] exI [of _ ?fs] conjI) (simp_all add: example_send(3) example_buf_def)
qed

end
